(* ===== verification/DynPrelude.thy ===== *)
theory DynPrelude
  imports Complex_Main "HOL-Library.Word" "HOL-Library.Multiset" "HOL-Library.Monad_Syntax"
begin

text \<open>
  Shared vocabulary of the development: names for the C integer types, the outcome of the
  allocator, IEEE doubles up to their comparison behaviour, and the generic facts about
  lists, words and remainders that the component theories use.

  Conventions. A C function that may fail to return has an outer \<open>option\<close>: \<open>None\<close> means that
  the call never returns. Sizes and array indices are \<open>nat\<close>, with the reduction modulo
  \<open>2 ^ 32\<close> written out wherever a \<open>uint32_t\<close> expression can wrap; counters whose wrap-around or
  saturation matters are words.
\<close>

unbundle bit_operations_syntax

named_theorems ds_simps \<open>unfolding rules of the container models\<close>
named_theorems ds_inv \<open>preservation of the container invariants\<close>

type_synonym byte = "8 word"
type_synonym bytes = "8 word list"
type_synonym u32 = "32 word"
type_synonym u64 = "64 word"

text \<open>A \<open>dyn_cell_t\<close> is two opaque machine words that the containers store and return.\<close>

type_synonym dyn_cell = "u64 \<times> u64"

abbreviation SIZE_MAX :: nat where
  "SIZE_MAX \<equiv> 18446744073709551615"

abbreviation UINT32_MAX :: nat where
  "UINT32_MAX \<equiv> 4294967295"

subsection \<open>The allocator\<close>

text \<open>
  \<open>malloc\<close>, \<open>calloc\<close> and \<open>realloc\<close> may fail at any call. An operation takes the outcomes of the
  calls it is going to make, consumes one per call and returns the rest; past the end of the
  list every call succeeds. Properties quantify over all such lists.
\<close>

type_synonym allocs = "bool list"

fun next_alloc :: "allocs \<Rightarrow> bool \<times> allocs" where
  "next_alloc [] = (True, [])"
| "next_alloc (b # bs) = (b, bs)"

lemma next_alloc_all_True:
  assumes "\<forall>b \<in> set al. b"
  shows "fst (next_alloc al) \<and> (\<forall>b \<in> set (snd (next_alloc al)). b)"
  using assms by (cases al) auto

lemma next_alloc_False: "\<not> fst (next_alloc al) \<Longrightarrow> False \<in> set al"
  by (cases al) auto

subsection \<open>Doubles up to comparison\<close>

text \<open>
  The containers only compare their \<open>double\<close> keys, bounds and priorities; they never compute
  with them. A double is NaN, an infinity or a finite number, and the C comparison operators
  are false as soon as one side is NaN. Every rational is allowed as a finite value, which
  includes all finite doubles; the two zeros, which no comparison tells apart, are one value.
  The linear order on the type (NaN above everything) is only there for the library's
  automation: the models use \<open>f64_lt\<close> and \<open>f64_le\<close>.
\<close>

datatype f64 = MInf | Fin rat | PInf | NaN

fun f64_rank :: "f64 \<Rightarrow> nat" where
  "f64_rank MInf = 0"
| "f64_rank (Fin _) = 1"
| "f64_rank PInf = 2"
| "f64_rank NaN = 3"

instantiation f64 :: linorder
begin

definition less_eq_f64 :: "f64 \<Rightarrow> f64 \<Rightarrow> bool" where
  "less_eq_f64 a b = (case (a, b) of (Fin x, Fin y) \<Rightarrow> x \<le> y | _ \<Rightarrow> f64_rank a \<le> f64_rank b)"

definition less_f64 :: "f64 \<Rightarrow> f64 \<Rightarrow> bool" where
  "less_f64 a b = (case (a, b) of (Fin x, Fin y) \<Rightarrow> x < y | _ \<Rightarrow> f64_rank a < f64_rank b)"

instance
  by standard (auto simp: less_eq_f64_def less_f64_def split: f64.splits)

end

definition f64_lt :: "f64 \<Rightarrow> f64 \<Rightarrow> bool" where
  "f64_lt a b \<longleftrightarrow> a \<noteq> NaN \<and> b \<noteq> NaN \<and> a < b"

definition f64_le :: "f64 \<Rightarrow> f64 \<Rightarrow> bool" where
  "f64_le a b \<longleftrightarrow> a \<noteq> NaN \<and> b \<noteq> NaN \<and> a \<le> b"

lemma f64_le_NaN [simp]: "a \<le> NaN"
  by (cases a) (auto simp: less_eq_f64_def)

lemma f64_NaN_le [simp]: "NaN \<le> a \<longleftrightarrow> a = NaN"
  by (cases a) (auto simp: less_eq_f64_def)

lemma f64_NaN_lt [simp]: "\<not> NaN < a"
  by (simp add: not_less)

lemma f64_lt_NaN [simp]: "a < NaN \<longleftrightarrow> a \<noteq> NaN"
  by (simp add: less_le)

lemma f64_lt_eq: "f64_lt a b \<longleftrightarrow> a < b \<and> b \<noteq> NaN"
  by (auto simp: f64_lt_def)

lemma f64_le_eq: "f64_le a b \<longleftrightarrow> a \<le> b \<and> b \<noteq> NaN"
  by (auto simp: f64_le_def)

lemmas f64_cmp = f64_lt_eq f64_le_eq

subsection \<open>Masks and remainders\<close>

lemma nat_and_mask: "(n::nat) AND (2 ^ k - 1) = n mod 2 ^ k"
proof -
  have "(2::nat) ^ k - 1 = mask k"
    by (simp only: mask_eq_exp_minus_1)
  then show ?thesis
    by (simp only: take_bit_eq_mask [symmetric] take_bit_eq_mod)
qed

lemma mod_eq_sub: "n \<le> m \<Longrightarrow> m < 2 * n \<Longrightarrow> m mod n = m - (n::nat)"
  by (simp add: le_mod_geq)

lemma unat32_less: "unat (x :: u32) < 2 ^ 32"
  using unsigned_less [of x] by simp

lemma unat64_less: "unat (x :: u64) < 2 ^ 64"
  using unsigned_less [of x] by simp

subsection \<open>Lists\<close>

lemma filter_length_update:
  assumes "i < length xs"
  shows "length (filter P (xs[i := y])) + (if P (xs ! i) then 1 else 0) =
    length (filter P xs) + (if P y then 1 else 0)"
  using assms
proof (induction xs arbitrary: i)
  case (Cons x xs)
  then show ?case by (cases i) auto
qed simp

end
