(* ===== verification/DsVec.thy ===== *)
theory DsVec
  imports DynPrelude
begin

text \<open>
  The growth policy shared by every container of \<open>src/core/dyn-ds.c\<close>: \<open>u64_sat_add\<close>, the
  saturating counter addition, and \<open>ds_reserve\<close>, which doubles a \<open>uint32_t\<close> capacity until it
  covers a request. Capacities are zero or a power of two between 8 and \<open>2 ^ 31\<close>
  (\<open>cap_ok\<close>). The doubling loop is a partial function: started at zero it never ends.
\<close>

subsection \<open>Model\<close>

definition u64_sat_add :: "u64 \<Rightarrow> u64 \<Rightarrow> u64" where
  "u64_sat_add a b = (let s = a + b in if s < a then - 1 else s)"

abbreviation DS_MIN_CAP :: nat where
  "DS_MIN_CAP \<equiv> 8"

partial_function (option) ds_grow_loop :: "nat \<Rightarrow> nat \<Rightarrow> nat option option" where
  "ds_grow_loop nc need =
     (if nc < need then
        (if nc > 0x40000000 then Some None
         else ds_grow_loop ((nc * 2) mod 2 ^ 32) need)
      else Some (Some nc))"

declare ds_grow_loop.simps [code]

text \<open>
  The result of \<open>ds_reserve\<close> is \<open>Some cap'\<close> for the return value 0, with the new capacity, and
  \<open>None\<close> for the return value \<open>-1\<close>.
\<close>

definition ds_reserve :: "allocs \<Rightarrow> nat \<Rightarrow> nat \<Rightarrow> nat \<Rightarrow> (nat option \<times> allocs) option" where
  "ds_reserve al cap need esz =
     (if need \<le> cap then Some (Some cap, al)
      else if need > SIZE_MAX div esz then Some (None, al)
      else do {
        r \<leftarrow> ds_grow_loop (if cap \<noteq> 0 then (cap * 2) mod 2 ^ 32 else DS_MIN_CAP) need;
        case r of
          None \<Rightarrow> Some (None, al)
        | Some nc \<Rightarrow>
            (case next_alloc al of (ok, al') \<Rightarrow> Some (if ok then Some nc else None, al'))
      })"

definition cap_ok :: "nat \<Rightarrow> bool" where
  "cap_ok cap \<longleftrightarrow> cap = 0 \<or> (\<exists>k. 3 \<le> k \<and> k \<le> 31 \<and> cap = 2 ^ k)"

subsection \<open>Saturating addition\<close>

lemma u64_sat_add_unat: "unat (u64_sat_add a b) = min (unat a + unat b) (2 ^ 64 - 1)"
proof (cases "unat a + unat b < 2 ^ 64")
  case True
  then have u: "unat (a + b) = unat a + unat b"
    by (simp add: unat_add_lem [symmetric])
  then have "\<not> a + b < a"
    by (simp add: word_less_nat_alt)
  with u True show ?thesis
    by (simp add: u64_sat_add_def Let_def)
next
  case False
  have "unat (a + b) = (unat a + unat b) mod 2 ^ 64"
    by (simp add: unat_word_ariths)
  moreover have "unat a < 2 ^ 64" "unat b < 2 ^ 64"
    using unsigned_less [of a] unsigned_less [of b] by simp_all
  ultimately have "unat (a + b) < unat a"
    using False by (simp add: le_mod_geq not_less)
  then have "a + b < a"
    by (simp add: word_less_nat_alt)
  moreover have "unat (- 1 :: u64) = 2 ^ 64 - 1"
    by (simp add: unsigned_minus_1_eq_mask mask_eq_exp_minus_1)
  ultimately show ?thesis
    using False by (simp add: u64_sat_add_def Let_def)
qed

lemma u64_sat_add_0 [simp]: "u64_sat_add a 0 = a"
  by (simp add: u64_sat_add_def)

lemma u64_sat_add_exact:
  "unat a + unat b < 2 ^ 64 \<Longrightarrow> unat (u64_sat_add a b) = unat a + unat b"
  by (simp add: u64_sat_add_unat)

subsection \<open>The doubling loop\<close>

lemma ds_grow_loop_pow2:
  assumes "nc = 2 ^ k" "k \<le> 31"
  shows "\<exists>r. ds_grow_loop nc need = Some r \<and>
    (\<forall>nc'. r = Some nc' \<longrightarrow> need \<le> nc' \<and> nc \<le> nc' \<and> (\<exists>k'. k \<le> k' \<and> k' \<le> 31 \<and> nc' = 2 ^ k')) \<and>
    (r = None \<longrightarrow> 2 ^ 31 < need)"
  using assms
proof (induction "31 - k" arbitrary: nc k)
  case 0
  then have "k = 31" by simp
  then show ?case
    using 0 by (subst ds_grow_loop.simps) auto
next
  case (Suc d)
  then have k: "k < 31" by simp
  show ?case
  proof (cases "nc < need")
    case False
    then show ?thesis
      using Suc.prems by (subst ds_grow_loop.simps) auto
  next
    case True
    have le: "(2::nat) ^ k \<le> 2 ^ 30"
      using k by (intro power_increasing) auto
    then have small: "nc \<le> 0x40000000"
      using Suc.prems by simp
    have dbl: "(nc * 2) mod 2 ^ 32 = 2 ^ Suc k"
      using Suc.prems le by simp
    have "\<exists>r. ds_grow_loop (2 ^ Suc k) need = Some r \<and>
      (\<forall>nc'. r = Some nc' \<longrightarrow>
        need \<le> nc' \<and> 2 ^ Suc k \<le> nc' \<and> (\<exists>k'. Suc k \<le> k' \<and> k' \<le> 31 \<and> nc' = 2 ^ k')) \<and>
      (r = None \<longrightarrow> 2 ^ 31 < need)"
      using Suc.hyps(1) [of "Suc k" "2 ^ Suc k"] Suc.hyps(2) k by simp
    then obtain r where r: "ds_grow_loop (2 ^ Suc k) need = Some r"
      and r1: "\<forall>nc'. r = Some nc' \<longrightarrow>
        need \<le> nc' \<and> 2 ^ Suc k \<le> nc' \<and> (\<exists>k'. Suc k \<le> k' \<and> k' \<le> 31 \<and> nc' = 2 ^ k')"
      and r2: "r = None \<longrightarrow> 2 ^ 31 < need"
      by blast
    have "ds_grow_loop nc need = Some r"
      using True small dbl r by (subst ds_grow_loop.simps) (simp add: mult.commute)
    moreover have "\<forall>nc'. r = Some nc' \<longrightarrow>
        need \<le> nc' \<and> nc \<le> nc' \<and> (\<exists>k'. k \<le> k' \<and> k' \<le> 31 \<and> nc' = 2 ^ k')"
      using r1 Suc.prems(1) by (auto dest!: Suc_leD)
    ultimately show ?thesis
      using r2 by blast
  qed
qed

lemma ds_grow_loop_zero:
  assumes "ds_grow_loop nc need = Some r"
  shows "\<not> (nc = 0 \<and> 0 < need)"
proof (rule ds_grow_loop.raw_induct [where P = "\<lambda>nc need r. \<not> (nc = 0 \<and> 0 < need)", OF _ assms])
  fix f :: "nat \<Rightarrow> nat \<Rightarrow> nat option option" and nc need r
  assume IH: "\<And>nc need r. f nc need = Some r \<Longrightarrow> \<not> (nc = 0 \<and> 0 < need)"
    and eq: "(if nc < need then (if nc > 0x40000000 then Some None
      else f ((nc * 2) mod 2 ^ 32) need) else Some (Some nc)) = Some r"
  show "\<not> (nc = 0 \<and> 0 < need)"
    using IH [of 0 need r] eq by (cases "nc = 0") (auto split: if_splits)
qed

subsection \<open>Reserving\<close>

lemma cap_ok_le: "cap_ok cap \<Longrightarrow> cap \<le> 2 ^ 31"
  using power_increasing [of _ 31 "2::nat"] by (auto simp: cap_ok_def)

lemma cap_ok_0 [simp]: "cap_ok 0"
  by (simp add: cap_ok_def)

text \<open>
  From a well-formed capacity a request of at most \<open>2 ^ 31\<close> elements is answered: either with
  a well-formed capacity that covers it, or with a failure that only the allocator causes.
\<close>

lemma ds_reserve_ok:
  assumes cap: "cap_ok cap" and need: "need \<le> 2 ^ 31" and esz: "0 < esz" "esz < 2 ^ 32"
  shows "ds_reserve al cap need esz = Some (Some cap, al) \<and> need \<le> cap \<or>
    cap < need \<and> (\<exists>nc. cap_ok nc \<and> need \<le> nc \<and>
      ds_reserve al cap need esz =
        Some (if fst (next_alloc al) then Some nc else None, snd (next_alloc al)))"
proof (cases "need \<le> cap")
  case True
  then show ?thesis by (simp add: ds_reserve_def)
next
  case False
  have "2 ^ 32 \<le> SIZE_MAX div esz"
    using esz by (auto simp: less_eq_div_iff_mult_less_eq)
  then have fits: "\<not> need > SIZE_MAX div esz"
    using need by simp
  define nc0 where "nc0 = (if cap \<noteq> 0 then (cap * 2) mod 2 ^ 32 else DS_MIN_CAP)"
  obtain k where k: "nc0 = 2 ^ k" "3 \<le> k" "k \<le> 31"
  proof (cases "cap = 0")
    case True
    then have "nc0 = 2 ^ 3" by (simp add: nc0_def)
    then show ?thesis by (rule that) auto
  next
    case nz: False
    then obtain j where j: "3 \<le> j" "j \<le> 31" "cap = 2 ^ j"
      using cap by (auto simp: cap_ok_def)
    have "j \<noteq> 31"
      using False need j by auto
    then have "j \<le> 30" using j by simp
    moreover have "(2::nat) ^ j \<le> 2 ^ 30"
      using \<open>j \<le> 30\<close> by (intro power_increasing) auto
    ultimately show ?thesis
      using nz j that [of "Suc j"] by (simp add: nc0_def)
  qed
  obtain r where r: "ds_grow_loop nc0 need = Some r"
    and some: "\<forall>nc'. r = Some nc' \<longrightarrow>
      need \<le> nc' \<and> nc0 \<le> nc' \<and> (\<exists>k'. k \<le> k' \<and> k' \<le> 31 \<and> nc' = 2 ^ k')"
    and none: "r = None \<longrightarrow> 2 ^ 31 < need"
    using ds_grow_loop_pow2 [OF k(1) k(3), of need] by blast
  from none need obtain nc where rs: "r = Some nc"
    by (cases r) auto
  with some k have "cap_ok nc" "need \<le> nc"
    by (auto simp: cap_ok_def intro: order_trans)
  moreover have "ds_reserve al cap need esz =
      Some (if fst (next_alloc al) then Some nc else None, snd (next_alloc al))"
    using False fits r rs unfolding ds_reserve_def nc0_def [symmetric]
    by (simp split: prod.splits)
  ultimately show ?thesis
    using False by auto
qed

lemma ds_reserve_cases:
  assumes "cap_ok cap" "need \<le> 2 ^ 31" "0 < esz" "esz < 2 ^ 32"
  obtains (fail) al' where "ds_reserve al cap need esz = Some (None, al')" "cap < need"
      "\<not> fst (next_alloc al)"
    | (ok) nc al' where "ds_reserve al cap need esz = Some (Some nc, al')" "cap_ok nc"
      "need \<le> nc" "need \<le> cap \<Longrightarrow> nc = cap \<and> al' = al"
      "cap < need \<Longrightarrow> al' = snd (next_alloc al)"
  using ds_reserve_ok [OF assms, of al] assms(1)
  by (cases "fst (next_alloc al)") auto

text \<open>
  C18. A request for one element more than \<open>2 ^ 31\<close> from a full array of that capacity never
  returns: doubling the capacity wraps to zero, the limit test does not see it, and the loop
  doubles zero for ever.
\<close>

theorem ds_reserve_diverges:
  assumes "0 < esz" "esz < 2 ^ 32"
  shows "ds_reserve al (2 ^ 31) (2 ^ 31 + 1) esz = None"
proof -
  have "\<not> (2 ^ 31 + 1 > SIZE_MAX div esz)"
    using assms by (auto simp: not_less less_eq_div_iff_mult_less_eq)
  moreover have "ds_grow_loop 0 (2 ^ 31 + 1) = None"
    using ds_grow_loop_zero [of 0 "2 ^ 31 + 1"] by (cases "ds_grow_loop 0 (2 ^ 31 + 1)") auto
  ultimately show ?thesis
    by (auto simp: ds_reserve_def)
qed

theorem ds_reserve_diverges_witness: "ds_reserve [] (2 ^ 31) (2 ^ 31 + 1) 16 = None"
  by (rule ds_reserve_diverges) simp_all

text \<open>
  C17. For every request of at most \<open>2 ^ 31\<close> elements from a well-formed capacity, \<open>ds_reserve\<close>
  returns: the request fits and nothing is allocated, or the array is reallocated to a
  well-formed capacity that covers the request, or the allocation fails.
\<close>

theorem ds_reserve_total:
  assumes "cap_ok cap" "need \<le> 2 ^ 31" "0 < esz" "esz < 2 ^ 32"
  shows "\<exists>r al'. ds_reserve al cap need esz = Some (r, al') \<and>
    (case r of
       None \<Rightarrow> cap < need \<and> \<not> fst (next_alloc al)
     | Some nc \<Rightarrow> cap_ok nc \<and> need \<le> nc \<and> (need \<le> cap \<longrightarrow> nc = cap \<and> al' = al))"
  by (rule ds_reserve_cases [OF assms, of al]) auto

theorem ds_reserve_total_witness:
  "\<exists>r al'. ds_reserve [True] 0 9 16 = Some (r, al') \<and> (\<forall>nc. r = Some nc \<longrightarrow> 9 \<le> nc)"
  using ds_reserve_total [of 0 9 16 "[True]"] by (auto split: option.splits)

end
