(* ===== verification/DsHash.thy ===== *)
theory DsHash
  imports DynPrelude
begin

text \<open>
  The hash functions the containers use: \<open>dyn_xxh64\<close> and \<open>dyn_mix64\<close> of
  \<open>src/core/dyn-hash.c\<close>, and \<open>ix_hash\<close> of \<open>src/core/dyn-ds.c\<close> with its two process-wide seeds as
  arguments. A \<open>memcpy\<close> of 4 or 8 bytes into an integer reads it little-endian, as on the
  targets the code is built for.
\<close>

subsection \<open>Model\<close>

abbreviation XXH_P1 :: u64 where "XXH_P1 \<equiv> 0x9E3779B185EBCA87"
abbreviation XXH_P2 :: u64 where "XXH_P2 \<equiv> 0xC2B2AE3D27D4EB4F"
abbreviation XXH_P3 :: u64 where "XXH_P3 \<equiv> 0x165667B19E3779F9"
abbreviation XXH_P4 :: u64 where "XXH_P4 \<equiv> 0x85EBCA77C2B2AE63"
abbreviation XXH_P5 :: u64 where "XXH_P5 \<equiv> 0x27D4EB2F165667C5"

definition xxh_rotl :: "u64 \<Rightarrow> nat \<Rightarrow> u64" where
  "xxh_rotl x r = push_bit r x OR drop_bit (64 - r) x"

fun le_read :: "bytes \<Rightarrow> u64" where
  "le_read [] = 0"
| "le_read (b # bs) = ucast b OR push_bit 8 (le_read bs)"

definition xxh_read64 :: "bytes \<Rightarrow> u64" where
  "xxh_read64 p = le_read (take 8 p)"

definition xxh_read32 :: "bytes \<Rightarrow> u32" where
  "xxh_read32 p = ucast (le_read (take 4 p))"

definition xxh_round :: "u64 \<Rightarrow> u64 \<Rightarrow> u64" where
  "xxh_round acc input = xxh_rotl (acc + input * XXH_P2) 31 * XXH_P1"

definition xxh_merge :: "u64 \<Rightarrow> u64 \<Rightarrow> u64" where
  "xxh_merge acc val = (acc XOR xxh_round 0 val) * XXH_P1 + XXH_P4"

fun xxh64_stripes :: "u64 \<times> u64 \<times> u64 \<times> u64 \<Rightarrow> bytes \<Rightarrow> (u64 \<times> u64 \<times> u64 \<times> u64) \<times> bytes" where
  "xxh64_stripes (v1, v2, v3, v4) p =
     (if 32 \<le> length p then
        xxh64_stripes
          (xxh_round v1 (xxh_read64 p),
           xxh_round v2 (xxh_read64 (drop 8 p)),
           xxh_round v3 (xxh_read64 (drop 16 p)),
           xxh_round v4 (xxh_read64 (drop 24 p)))
          (drop 32 p)
      else ((v1, v2, v3, v4), p))"

fun xxh64_tail8 :: "u64 \<Rightarrow> bytes \<Rightarrow> u64 \<times> bytes" where
  "xxh64_tail8 h p =
     (if 8 \<le> length p then
        xxh64_tail8 (xxh_rotl (h XOR xxh_round 0 (xxh_read64 p)) 27 * XXH_P1 + XXH_P4) (drop 8 p)
      else (h, p))"

fun xxh64_tail1 :: "u64 \<Rightarrow> bytes \<Rightarrow> u64" where
  "xxh64_tail1 h [] = h"
| "xxh64_tail1 h (b # p) = xxh64_tail1 (xxh_rotl (h XOR (ucast b * XXH_P5)) 11 * XXH_P1) p"

declare xxh64_stripes.simps [simp del] xxh64_tail8.simps [simp del]

definition dyn_xxh64 :: "bytes \<Rightarrow> u64 \<Rightarrow> u64" where
  "dyn_xxh64 data seed =
     (let (h, p) =
        (if 32 \<le> length data then
           (case xxh64_stripes (seed + XXH_P1 + XXH_P2, seed + XXH_P2, seed, seed - XXH_P1) data of
              ((v1, v2, v3, v4), p) \<Rightarrow>
                (xxh_merge (xxh_merge (xxh_merge (xxh_merge
                   (xxh_rotl v1 1 + xxh_rotl v2 7 + xxh_rotl v3 12 + xxh_rotl v4 18)
                   v1) v2) v3) v4, p))
         else (seed + XXH_P5, data));
        h = h + of_nat (length data);
        (h, p) = xxh64_tail8 h p;
        (h, p) =
          (if 4 \<le> length p then
             (xxh_rotl (h XOR (ucast (xxh_read32 p) * XXH_P1)) 23 * XXH_P2 + XXH_P3, drop 4 p)
           else (h, p));
        h = xxh64_tail1 h p;
        h = (h XOR drop_bit 33 h) * XXH_P2;
        h = (h XOR drop_bit 29 h) * XXH_P3
      in h XOR drop_bit 32 h)"

definition dyn_mix64 :: "u64 \<Rightarrow> u64" where
  "dyn_mix64 x =
     (let x = (x XOR drop_bit 30 x) * 0xBF58476D1CE4E5B9;
          x = (x XOR drop_bit 27 x) * 0x94D049BB133111EB
      in x XOR drop_bit 31 x)"

definition ix_mix :: "u64 \<Rightarrow> u64 \<Rightarrow> u64" where
  "ix_mix a b =
     (let r = (ucast a :: 128 word) * ucast b
      in ucast r XOR ucast (drop_bit 64 r))"

definition ix_hash :: "u64 \<Rightarrow> u64 \<Rightarrow> bytes \<Rightarrow> u64" where
  "ix_hash s0 s1 p =
     (let n = length p in
      if 16 \<le> n then
        (let h = dyn_xxh64 p s1 in if h \<noteq> 0 then h else 1)
      else
        (let (a, b) =
           (if 8 \<le> n then (le_read (take 8 p), le_read (take 8 (drop (n - 8) p)))
            else if 4 \<le> n then (le_read (take 4 p), le_read (take 4 (drop (n - 4) p)))
            else if n \<noteq> 0 then
              (push_bit 16 (ucast (p ! 0)) OR push_bit 8 (ucast (p ! (n div 2)))
                OR ucast (p ! (n - 1)), 0)
            else (0, 0));
           h = ix_mix (a XOR s0) (b XOR s1 XOR of_nat n)
         in if h \<noteq> 0 then h else 1))"

text \<open>
  The process-wide seeds and their flag: \<open>dyn_ds_hash_seed\<close> stores them on its first call and
  ignores every later one, so that the hash of a key never changes once it has been seeded.
\<close>

record ds_seeds =
  seeded :: bool
  ds_seed0 :: u64
  ds_seed1 :: u64

definition ds_seeds_init :: ds_seeds where
  "ds_seeds_init =
     \<lparr>seeded = False, ds_seed0 = 0x9E3779B97F4A7C15, ds_seed1 = 0xC2B2AE3D27D4EB4F\<rparr>"

definition dyn_ds_hash_seed :: "ds_seeds \<Rightarrow> u64 \<Rightarrow> u64 \<Rightarrow> ds_seeds" where
  "dyn_ds_hash_seed g seed0 seed1 =
     (if seeded g then g else \<lparr>seeded = True, ds_seed0 = seed0, ds_seed1 = seed1\<rparr>)"

subsection \<open>Facts the index needs\<close>

text \<open>A slot whose hash field is zero is empty, so a key must never hash to zero.\<close>

lemma ix_hash_nonzero: "ix_hash s0 s1 k \<noteq> 0"
  by (auto simp: ix_hash_def Let_def split: prod.splits)

lemma dyn_ds_hash_seed_once:
  "dyn_ds_hash_seed (dyn_ds_hash_seed g a b) c d = dyn_ds_hash_seed g a b"
  by (simp add: dyn_ds_hash_seed_def)

text \<open>Two published values of XXH64, evaluated on the model.\<close>

lemma dyn_xxh64_empty: "dyn_xxh64 [] 0 = 0xEF46DB3751D8E999"
  by code_simp

lemma dyn_xxh64_abc: "dyn_xxh64 [0x61, 0x62, 0x63] 0 = 0x44BC2CF5AD770999"
  by code_simp

end
