(* ===== verification/DsIndex.thy ===== *)
theory DsIndex
  imports DsVec DsHash
begin

text \<open>
  The open-addressing string index \<open>dyn_ix\<close> of \<open>src/core/dyn-ds.c\<close>: linear probing over a power
  of two of slots, growth at a load of seven tenths, and deletion by backward shift. A slot
  keeps the key bytes themselves where the code keeps a pointer to the bytes owned by the
  container's record.

  Main results: under the invariant \<open>ix_inv\<close> every probe loop ends, \<open>ix_find\<close> computes the
  finite map \<open>ix_look\<close>, and \<open>ix_insert\<close>, \<open>ix_erase\<close> and \<open>ix_move\<close> update it pointwise, also where
  the load test of \<open>ix_reserve\<close> wraps around in 32 bits.
\<close>

subsection \<open>Model\<close>

record ixslot =
  sl_h :: u64
  sl_key :: bytes
  sl_idx :: nat

record dyn_ix =
  ix_slot :: "ixslot list"
  ix_cap :: nat
  ix_used :: nat

definition ix_slot0 :: ixslot where
  "ix_slot0 = \<lparr>sl_h = 0, sl_key = [], sl_idx = 0\<rparr>"

definition ix_empty :: dyn_ix where
  "ix_empty = \<lparr>ix_slot = [], ix_cap = 0, ix_used = 0\<rparr>"

text \<open>\<open>ix_free\<close> releases the slot array and leaves the empty index.\<close>

definition ix_free :: "dyn_ix \<Rightarrow> dyn_ix" where
  "ix_free ix = ix\<lparr>ix_slot := [], ix_cap := 0, ix_used := 0\<rparr>"

definition ix_home :: "nat \<Rightarrow> u64 \<Rightarrow> nat" where
  "ix_home msk h = unat (ucast h :: u32) AND msk"

text \<open>The probe loop: advance cyclically until the stop condition holds.\<close>

partial_function (option) ix_probe :: "(nat \<Rightarrow> bool) \<Rightarrow> nat \<Rightarrow> nat \<Rightarrow> nat option" where
  "ix_probe stop msk i = (if stop i then Some i else ix_probe stop msk ((i + 1) AND msk))"

declare ix_probe.simps [code]

definition ix_put_raw ::
  "ixslot list \<Rightarrow> nat \<Rightarrow> u64 \<Rightarrow> bytes \<Rightarrow> nat \<Rightarrow> ixslot list option" where
  "ix_put_raw slot msk h k idx = do {
     i \<leftarrow> ix_probe (\<lambda>i. sl_h (slot ! i) = 0) msk (ix_home msk h);
     Some (slot[i := \<lparr>sl_h = h, sl_key = k, sl_idx = idx\<rparr>])
   }"

fun ix_rehash :: "ixslot list \<Rightarrow> ixslot list \<Rightarrow> nat \<Rightarrow> ixslot list option" where
  "ix_rehash [] ns msk = Some ns"
| "ix_rehash (s # old) ns msk =
     (if sl_h s \<noteq> 0 then do {
        ns' \<leftarrow> ix_put_raw ns msk (sl_h s) (sl_key s) (sl_idx s);
        ix_rehash old ns' msk
      } else ix_rehash old ns msk)"

definition ix_grow :: "allocs \<Rightarrow> dyn_ix \<Rightarrow> (dyn_ix option \<times> allocs) option" where
  "ix_grow al ix =
     (let nc = (if ix_cap ix \<noteq> 0 then (ix_cap ix * 2) mod 2 ^ 32 else DS_MIN_CAP) in
      if ix_cap ix > 0x40000000 then Some (None, al)
      else case next_alloc al of (ok, al') \<Rightarrow>
        if \<not> ok then Some (None, al')
        else do {
          ns \<leftarrow> ix_rehash (ix_slot ix) (replicate nc ix_slot0) (nc - 1);
          Some (Some (ix\<lparr>ix_slot := ns, ix_cap := nc\<rparr>), al')
        })"

text \<open>The position of a key, \<open>Some None\<close> standing for the return value \<open>UINT32_MAX\<close>.\<close>

definition ix_find :: "dyn_ix \<Rightarrow> u64 \<Rightarrow> bytes \<Rightarrow> nat option option" where
  "ix_find ix h k =
     (if ix_cap ix = 0 then Some None
      else do {
        i \<leftarrow> ix_probe
          (\<lambda>i. sl_h (ix_slot ix ! i) = 0 \<or>
               sl_h (ix_slot ix ! i) = h \<and> sl_key (ix_slot ix ! i) = k)
          (ix_cap ix - 1) (ix_home (ix_cap ix - 1) h);
        Some (if sl_h (ix_slot ix ! i) = 0 then None else Some i)
      })"

definition ix_reserve :: "allocs \<Rightarrow> dyn_ix \<Rightarrow> (dyn_ix option \<times> allocs) option" where
  "ix_reserve al ix =
     (if (ix_cap ix * 7) mod 2 ^ 32 \<le> ((ix_used ix + 1) * 10) mod 2 ^ 32
      then ix_grow al ix else Some (Some ix, al))"

definition ix_insert ::
  "allocs \<Rightarrow> dyn_ix \<Rightarrow> u64 \<Rightarrow> bytes \<Rightarrow> nat \<Rightarrow> (dyn_ix option \<times> allocs) option" where
  "ix_insert al ix h k idx = do {
     (r, al') \<leftarrow> ix_reserve al ix;
     case r of
       None \<Rightarrow> Some (None, al')
     | Some ix' \<Rightarrow> do {
         sl \<leftarrow> ix_put_raw (ix_slot ix') (ix_cap ix' - 1) h k idx;
         Some (Some (ix'\<lparr>ix_slot := sl, ix_used := ix_used ix' + 1\<rparr>), al')
       }
   }"

definition ix_must_move :: "nat \<Rightarrow> nat \<Rightarrow> nat \<Rightarrow> bool" where
  "ix_must_move i j k \<longleftrightarrow> (if j > i then k \<le> i \<or> k > j else k \<le> i \<and> k > j)"

partial_function (option) ix_shift ::
  "ixslot list \<Rightarrow> nat \<Rightarrow> nat \<Rightarrow> nat \<Rightarrow> ixslot list option" where
  "ix_shift slot msk i j0 =
     (let j = (j0 + 1) AND msk in
      if sl_h (slot ! j) = 0 then Some slot
      else if ix_must_move i j (ix_home msk (sl_h (slot ! j)))
      then ix_shift (slot[i := slot ! j, j := (slot ! j)\<lparr>sl_h := 0\<rparr>]) msk j j
      else ix_shift slot msk i j)"

declare ix_shift.simps [code]

definition ix_erase :: "dyn_ix \<Rightarrow> nat \<Rightarrow> dyn_ix option" where
  "ix_erase ix pos = do {
     sl \<leftarrow> ix_shift ((ix_slot ix)[pos := (ix_slot ix ! pos)\<lparr>sl_h := 0\<rparr>]) (ix_cap ix - 1) pos pos;
     Some (ix\<lparr>ix_slot := sl, ix_used := ix_used ix - 1\<rparr>)
   }"

definition ix_move :: "dyn_ix \<Rightarrow> u64 \<Rightarrow> bytes \<Rightarrow> nat \<Rightarrow> dyn_ix option" where
  "ix_move ix h k idx = do {
     pos \<leftarrow> ix_find ix h k;
     case pos of
       None \<Rightarrow> Some ix
     | Some p \<Rightarrow> Some (ix\<lparr>ix_slot := (ix_slot ix)[p := (ix_slot ix ! p)\<lparr>sl_idx := idx\<rparr>]\<rparr>)
   }"

subsection \<open>Cyclic distance\<close>

definition cd :: "nat \<Rightarrow> nat \<Rightarrow> nat \<Rightarrow> nat" where
  "cd n a b = (if a \<le> b then b - a else b + n - a)"

lemma cd_self [simp]: "cd n a a = 0"
  by (simp add: cd_def)

lemma cd_less: "a < n \<Longrightarrow> b < n \<Longrightarrow> cd n a b < n"
  by (auto simp: cd_def)

lemma cd_eq_0: "a < n \<Longrightarrow> b < n \<Longrightarrow> cd n a b = 0 \<longleftrightarrow> a = b"
  by (auto simp: cd_def)

lemma cd_inj: "a < n \<Longrightarrow> b < n \<Longrightarrow> c < n \<Longrightarrow> cd n a b = cd n a c \<Longrightarrow> b = c"
  by (auto simp: cd_def split: if_splits)

lemma cd_step:
  "a < n \<Longrightarrow> b < n \<Longrightarrow> (b + 1) mod n \<noteq> a \<Longrightarrow> cd n a ((b + 1) mod n) = cd n a b + 1"
  by (cases "b + 1 = n") (auto simp: cd_def split: if_splits)

lemma cd_step_target:
  "a < n \<Longrightarrow> b < n \<Longrightarrow> a \<noteq> b \<Longrightarrow> cd n ((a + 1) mod n) b = cd n a b - 1"
  by (cases "a + 1 = n") (auto simp: cd_def split: if_splits)

lemma cd_add:
  "a < n \<Longrightarrow> b < n \<Longrightarrow> c < n \<Longrightarrow> cd n a b \<le> cd n a c \<Longrightarrow> cd n a c = cd n a b + cd n b c"
  by (auto simp: cd_def split: if_splits)

lemma cd_between:
  "a < n \<Longrightarrow> b < n \<Longrightarrow> c < n \<Longrightarrow> d < n \<Longrightarrow> cd n a b \<le> cd n a c \<Longrightarrow> cd n b d < cd n b c \<Longrightarrow>
    cd n a d < cd n a c"
  by (auto simp: cd_def split: if_splits)

lemma ix_must_move_cd:
  "i < n \<Longrightarrow> j < n \<Longrightarrow> k < n \<Longrightarrow> i \<noteq> j \<Longrightarrow> ix_must_move i j k \<longleftrightarrow> cd n k i < cd n k j"
  by (auto simp: ix_must_move_def cd_def split: if_splits)

lemma ix_home_mod:
  assumes "n = 2 ^ k" "k \<le> 32"
  shows "ix_home (n - 1) h = unat h mod n"
proof -
  have "(2::nat) ^ k dvd 2 ^ 32"
    using assms(2) by (rule le_imp_power_dvd)
  then show ?thesis
    by (simp only: ix_home_def assms(1) nat_and_mask unsigned_ucast_eq take_bit_eq_mod) (simp add: mod_mod_cancel)
qed

subsection \<open>Slot arrays\<close>

definition occ :: "ixslot list \<Rightarrow> nat \<Rightarrow> bool" where
  "occ sl p \<longleftrightarrow> p < length sl \<and> sl_h (sl ! p) \<noteq> 0"

definition home :: "ixslot list \<Rightarrow> nat \<Rightarrow> nat" where
  "home sl p = unat (sl_h (sl ! p)) mod length sl"

text \<open>Every slot between the home of an entry and the entry itself is occupied.\<close>

definition sl_reach :: "ixslot list \<Rightarrow> bool" where
  "sl_reach sl \<longleftrightarrow> (\<forall>p q. occ sl p \<longrightarrow> q < length sl \<longrightarrow>
     cd (length sl) (home sl p) q < cd (length sl) (home sl p) p \<longrightarrow> occ sl q)"

definition sl_uniq :: "ixslot list \<Rightarrow> bool" where
  "sl_uniq sl \<longleftrightarrow> (\<forall>p q. occ sl p \<longrightarrow> occ sl q \<longrightarrow> sl_key (sl ! p) = sl_key (sl ! q) \<longrightarrow> p = q)"

definition sl_hashed :: "(bytes \<Rightarrow> u64) \<Rightarrow> ixslot list \<Rightarrow> bool" where
  "sl_hashed H sl \<longleftrightarrow> (\<forall>p. occ sl p \<longrightarrow> sl_h (sl ! p) = H (sl_key (sl ! p)))"

definition sl_size :: "ixslot list \<Rightarrow> bool" where
  "sl_size sl \<longleftrightarrow> (\<exists>k. 3 \<le> k \<and> k \<le> 31 \<and> length sl = 2 ^ k)"

definition sl_wf :: "(bytes \<Rightarrow> u64) \<Rightarrow> ixslot list \<Rightarrow> bool" where
  "sl_wf H sl \<longleftrightarrow> sl_size sl \<and> sl_reach sl \<and> sl_uniq sl \<and> sl_hashed H sl"

definition sl_look :: "ixslot list \<Rightarrow> bytes \<Rightarrow> nat option" where
  "sl_look sl k = map_option sl_idx (List.find (\<lambda>s. sl_h s \<noteq> 0 \<and> sl_key s = k) sl)"

definition sl_count :: "ixslot list \<Rightarrow> nat" where
  "sl_count sl = length (filter (\<lambda>s. sl_h s \<noteq> 0) sl)"

lemma occ_less: "occ sl p \<Longrightarrow> p < length sl"
  by (simp add: occ_def)

lemma home_less: "sl_size sl \<Longrightarrow> home sl p < length sl"
  by (auto simp: home_def sl_size_def)

lemma sl_size_pos: "sl_size sl \<Longrightarrow> 0 < length sl"
  by (auto simp: sl_size_def)

lemma sl_size_home:
  "sl_size sl \<Longrightarrow> ix_home (length sl - Suc 0) h = unat h mod length sl"
  using ix_home_mod [of "length sl"] by (auto simp: sl_size_def)

lemma sl_size_next:
  "sl_size sl \<Longrightarrow> Suc i AND (length sl - Suc 0) = Suc i mod length sl"
  using nat_and_mask [of "Suc i"] by (auto simp: sl_size_def)

lemma occ_update:
  "i < length sl \<Longrightarrow> occ (sl[i := s]) p \<longleftrightarrow> (if p = i then sl_h s \<noteq> 0 else occ sl p)"
  by (auto simp: occ_def nth_list_update)

lemma home_update:
  "i < length sl \<Longrightarrow> home (sl[i := s]) p = (if p = i then unat (sl_h s) mod length sl else home sl p)"
  by (auto simp: home_def nth_list_update)

lemma sl_look_None:
  "sl_look sl k = None \<longleftrightarrow> (\<forall>p. occ sl p \<longrightarrow> sl_key (sl ! p) \<noteq> k)"
  by (auto simp: sl_look_def find_None_iff occ_def in_set_conv_nth)

lemma sl_look_SomeD:
  assumes "sl_look sl k = Some i"
  obtains p where "occ sl p" "sl_key (sl ! p) = k" "sl_idx (sl ! p) = i"
  using assms by (auto simp: sl_look_def find_Some_iff occ_def)

lemma sl_look_Some:
  assumes "sl_uniq sl" "occ sl p" "sl_key (sl ! p) = k"
  shows "sl_look sl k = Some (sl_idx (sl ! p))"
proof -
  obtain i where i: "sl_look sl k = Some i"
    using assms(2,3) by (cases "sl_look sl k") (auto simp: sl_look_None)
  then obtain q where "occ sl q" "sl_key (sl ! q) = k" "sl_idx (sl ! q) = i"
    by (rule sl_look_SomeD)
  then show ?thesis
    using assms i by (auto simp: sl_uniq_def)
qed

lemma sl_lookI:
  assumes "sl_uniq sl"
    and "\<And>p. occ sl p \<Longrightarrow> m (sl_key (sl ! p)) = Some (sl_idx (sl ! p))"
    and "\<And>k. m k \<noteq> None \<Longrightarrow> \<exists>p. occ sl p \<and> sl_key (sl ! p) = k"
  shows "sl_look sl = m"
proof
  fix k
  show "sl_look sl k = m k"
  proof (cases "sl_look sl k")
    case None
    then show ?thesis
      using assms(3) [of k] by (cases "m k") (auto simp: sl_look_None)
  next
    case (Some i)
    then show ?thesis
      using assms(2) by (auto elim!: sl_look_SomeD)
  qed
qed

lemma sl_count_less_free:
  assumes "sl_count sl < length sl"
  obtains e where "e < length sl" "\<not> occ sl e"
proof -
  have "\<exists>e < length sl. sl_h (sl ! e) = 0"
  proof (rule ccontr)
    assume "\<not> ?thesis"
    then have "\<forall>s \<in> set sl. sl_h s \<noteq> 0"
      by (auto simp: in_set_conv_nth)
    then have "filter (\<lambda>s. sl_h s \<noteq> 0) sl = sl"
      by (simp add: filter_id_conv)
    then show False
      using assms by (simp add: sl_count_def)
  qed
  then show ?thesis
    using that by (auto simp: occ_def)
qed

lemma sl_count_update:
  assumes "i < length sl"
  shows "sl_count (sl[i := s]) + (if occ sl i then 1 else 0) =
    sl_count sl + (if sl_h s \<noteq> 0 then 1 else 0)"
  using filter_length_update [OF assms, of "\<lambda>s. sl_h s \<noteq> 0" s] assms
  by (simp add: sl_count_def occ_def)

lemma sl_look_Nil: "sl_look [] = Map.empty"
  by (rule ext) (simp add: sl_look_def)

lemma sl_look_Cons:
  "sl_look (s # sl) k = (if sl_h s \<noteq> 0 \<and> sl_key s = k then Some (sl_idx s) else sl_look sl k)"
  by (simp add: sl_look_def)

lemma sl_uniq_Cons: "sl_uniq (s # sl) \<Longrightarrow> sl_uniq sl"
  unfolding sl_uniq_def occ_def
  by (metis Suc_inject Suc_less_eq length_Cons nth_Cons_Suc)

lemma sl_uniq_distinct: "sl_uniq sl \<Longrightarrow> distinct (map sl_key (filter (\<lambda>s. sl_h s \<noteq> 0) sl))"
proof (induction sl)
  case (Cons s sl)
  have "sl_key t \<noteq> sl_key s" if nz: "sl_h s \<noteq> 0" "sl_h t \<noteq> 0" and t: "t \<in> set sl" for t
  proof
    assume eq: "sl_key t = sl_key s"
    obtain p where "p < length sl" "sl ! p = t"
      using t by (auto simp: in_set_conv_nth)
    then have "occ (s # sl) (Suc p)" "occ (s # sl) 0" "sl_key ((s # sl) ! Suc p) = sl_key ((s # sl) ! 0)"
      using nz eq by (auto simp: occ_def)
    then show False using Cons.prems unfolding sl_uniq_def by blast
  qed
  then show ?case
    using Cons.IH [OF sl_uniq_Cons [OF Cons.prems]] by force
qed simp

subsection \<open>Probing\<close>

lemma ix_probe_first:
  assumes sz: "sl_size sl" and i: "i < length sl" and e: "e < length sl" "stop e"
  obtains p where "ix_probe stop (length sl - 1) i = Some p" "p < length sl" "stop p"
    "\<And>q. q < length sl \<Longrightarrow> cd (length sl) i q < cd (length sl) i p \<Longrightarrow> \<not> stop q"
proof -
  have "\<exists>p. ix_probe stop (length sl - 1) i = Some p \<and> p < length sl \<and> stop p \<and>
    (\<forall>q < length sl. cd (length sl) i q < cd (length sl) i p \<longrightarrow> \<not> stop q)"
    using i
  proof (induction "cd (length sl) i e" arbitrary: i rule: less_induct)
    case less
    show ?case
    proof (cases "stop i")
      case True
      then show ?thesis
        using less.prems by (subst ix_probe.simps) auto
    next
      case False
      define i' where "i' = (i + 1) mod length sl"
      have i': "i' < length sl"
        using sl_size_pos [OF sz] by (simp add: i'_def)
      have ie: "i \<noteq> e" using False e by auto
      then have "0 < cd (length sl) i e"
        using cd_eq_0 less.prems e by blast
      moreover have "cd (length sl) i' e = cd (length sl) i e - 1"
        unfolding i'_def using cd_step_target less.prems e ie by blast
      ultimately have "cd (length sl) i' e < cd (length sl) i e" by simp
      then obtain p where p: "ix_probe stop (length sl - 1) i' = Some p" "p < length sl" "stop p"
        "\<forall>q < length sl. cd (length sl) i' q < cd (length sl) i' p \<longrightarrow> \<not> stop q"
        using less.hyps i' by blast
      have "ix_probe stop (length sl - 1) i = Some p"
        using p(1) False by (subst ix_probe.simps) (simp add: sl_size_next [OF sz] i'_def)
      moreover have "\<not> stop q" if "q < length sl" "cd (length sl) i q < cd (length sl) i p" for q
      proof (cases "q = i")
        case False
        have "p \<noteq> i" using p(3) \<open>\<not> stop i\<close> by auto
        then have "cd (length sl) i' q < cd (length sl) i' p"
          using that False less.prems p(2) cd_eq_0 [of i "length sl"]
          unfolding i'_def by (simp add: cd_step_target del: One_nat_def)
            (metis One_nat_def diff_less_mono less_one linorder_not_less)
        then show ?thesis using p(4) that(1) by blast
      qed (simp add: \<open>\<not> stop i\<close>)
      ultimately show ?thesis using p by blast
    qed
  qed
  then show ?thesis using that by blast
qed

subsection \<open>Deleting by backward shift\<close>

text \<open>
  While the shift runs there is a hole at \<open>i\<close>: probe paths are complete but for the hole, and
  no entry in the part already scanned, up to \<open>j\<close>, needs the hole to be filled.
\<close>

definition hole_inv :: "ixslot list \<Rightarrow> nat \<Rightarrow> nat \<Rightarrow> bool" where
  "hole_inv sl i j \<longleftrightarrow> i < length sl \<and> j < length sl \<and> \<not> occ sl i \<and>
     (\<forall>p q. occ sl p \<longrightarrow> q < length sl \<longrightarrow> q \<noteq> i \<longrightarrow>
        cd (length sl) (home sl p) q < cd (length sl) (home sl p) p \<longrightarrow> occ sl q) \<and>
     (\<forall>p. occ sl p \<longrightarrow> cd (length sl) i p \<le> cd (length sl) i j \<longrightarrow>
        \<not> cd (length sl) (home sl p) i < cd (length sl) (home sl p) p)"

lemma hole_closed:
  assumes sz: "sl_size sl" and inv: "hole_inv sl i j" and j': "j' = Suc j mod length sl"
    and free: "\<not> occ sl j'"
  shows "sl_reach sl"
  unfolding sl_reach_def
proof (intro allI impI)
  fix p q
  assume p: "occ sl p" and q: "q < length sl"
    and lt: "cd (length sl) (home sl p) q < cd (length sl) (home sl p) p"
  have bounds: "i < length sl" "j < length sl" "p < length sl" "home sl p < length sl" "j' < length sl"
    using inv p home_less [OF sz] sl_size_pos [OF sz] by (auto simp: hole_inv_def occ_def j')
  have "q \<noteq> i"
  proof
    assume "q = i"
    with lt have on: "cd (length sl) (home sl p) i < cd (length sl) (home sl p) p" by simp
    then have far: "cd (length sl) i j < cd (length sl) i p"
      using inv p by (meson hole_inv_def linorder_not_less)
    show False
    proof (cases "j' = i")
      case True
      have "p \<noteq> i" using p inv by (auto simp: hole_inv_def)
      have "cd (length sl) i p \<le> cd (length sl) i j"
        using True bounds unfolding j' by (cases "Suc j = length sl") (auto simp: cd_def)
      with far show False by simp
    next
      case False
      then have "cd (length sl) i j' = cd (length sl) i j + 1"
        using cd_step [of i "length sl" j] bounds by (simp add: j')
      moreover have "p \<noteq> j'" using p free by auto
      ultimately have "cd (length sl) i j' < cd (length sl) i p"
        using far cd_inj [of i "length sl" p j'] bounds by fastforce
      then have "cd (length sl) (home sl p) j' < cd (length sl) (home sl p) p"
        using on bounds cd_between [of "home sl p" "length sl" i p j'] by simp
      then have "occ sl j'"
        using inv p False bounds by (auto simp: hole_inv_def)
      then show False using free by simp
    qed
  qed
  then show "occ sl q"
    using inv p q lt by (auto simp: hole_inv_def)
qed

lemma hole_skip:
  assumes sz: "sl_size sl" and inv: "hole_inv sl i j" and j': "j' = Suc j mod length sl"
    and o: "occ sl j'" and stay: "\<not> cd (length sl) (home sl j') i < cd (length sl) (home sl j') j'"
  shows "hole_inv sl i j'"
proof -
  have bounds: "i < length sl" "j < length sl" "j' < length sl"
    using inv sl_size_pos [OF sz] by (auto simp: hole_inv_def j')
  have ne: "j' \<noteq> i" using o inv by (auto simp: hole_inv_def)
  have step: "cd (length sl) i j' = cd (length sl) i j + 1"
    using cd_step [of i "length sl" j] bounds ne by (simp add: j')
  have "\<not> cd (length sl) (home sl p) i < cd (length sl) (home sl p) p"
    if p: "occ sl p" "cd (length sl) i p \<le> cd (length sl) i j'" for p
  proof (cases "p = j'")
    case False
    have "p < length sl" using p(1) by (simp add: occ_def)
    then have "cd (length sl) i p \<noteq> cd (length sl) i j'"
      using False cd_inj bounds by blast
    then have "cd (length sl) i p \<le> cd (length sl) i j"
      using p(2) step by simp
    then show ?thesis using inv p(1) by (auto simp: hole_inv_def)
  qed (use stay in simp)
  then show ?thesis
    using inv bounds by (auto simp: hole_inv_def)
qed

definition sl_shift1 :: "ixslot list \<Rightarrow> nat \<Rightarrow> nat \<Rightarrow> ixslot list" where
  "sl_shift1 sl i j = sl[i := sl ! j, j := (sl ! j)\<lparr>sl_h := 0\<rparr>]"

lemma shift1_simps:
  assumes "i < length sl" "j < length sl" "i \<noteq> j" "occ sl j"
  shows "length (sl_shift1 sl i j) = length sl"
    and "occ (sl_shift1 sl i j) p \<longleftrightarrow> p = i \<or> occ sl p \<and> p \<noteq> j"
    and "p \<noteq> i \<Longrightarrow> p \<noteq> j \<Longrightarrow> sl_shift1 sl i j ! p = sl ! p"
    and "sl_shift1 sl i j ! i = sl ! j"
  using assms by (auto simp: sl_shift1_def occ_def nth_list_update)

lemma hole_move:
  assumes sz: "sl_size sl" and inv: "hole_inv sl i j" and j': "j' = Suc j mod length sl"
    and o: "occ sl j'" and on: "cd (length sl) (home sl j') i < cd (length sl) (home sl j') j'"
  shows "hole_inv (sl_shift1 sl i j') j' j'"
proof -
  have b: "i < length sl" "j' < length sl" and ne: "i \<noteq> j'" and free: "\<not> occ sl i"
    using inv sl_size_pos [OF sz] o by (auto simp: hole_inv_def j')
  note sh = shift1_simps [OF b ne o]
  let ?sl = "sl_shift1 sl i j'"
  have hm: "home ?sl p = (if p = i then home sl j' else home sl p)" if "occ ?sl p" for p
    using that sh by (auto simp: home_def)
  have "occ ?sl q" if p: "occ ?sl p" and q: "q < length sl" "q \<noteq> j'"
    and lt: "cd (length sl) (home ?sl p) q < cd (length sl) (home ?sl p) p" for p q
  proof (cases "q = i")
    case False
    have "occ sl q"
    proof (cases "p = i")
      case True
      then have "cd (length sl) (home sl j') q < cd (length sl) (home sl j') j'"
        using lt on hm [OF p] by simp
      then show ?thesis using inv o q False by (auto simp: hole_inv_def)
    next
      case pi: False
      then show ?thesis
        using inv p q False lt hm [OF p] sh by (auto simp: hole_inv_def)
    qed
    then show ?thesis using q sh by simp
  qed (simp add: sh)
  moreover have "\<not> occ ?sl j'" using sh ne by simp
  moreover have "\<not> cd (length sl) (home ?sl p) j' < cd (length sl) (home ?sl p) p"
    if "occ ?sl p" "cd (length sl) j' p \<le> cd (length sl) j' j'" for p
  proof -
    have "p < length sl" using that(1) sh by (auto simp: occ_def)
    then have "p = j'" using that(2) cd_eq_0 [of j' "length sl" p] b by simp
    then show ?thesis using that(1) sh ne by simp
  qed
  ultimately show ?thesis
    using b sh by (auto simp: hole_inv_def)
qed

lemma shift1_content:
  assumes b: "i < length sl" "j < length sl" and ne: "i \<noteq> j" and o: "occ sl j"
    and free: "\<not> occ sl i" and uniq: "sl_uniq sl" and hashed: "sl_hashed H sl"
  shows "sl_uniq (sl_shift1 sl i j)" "sl_hashed H (sl_shift1 sl i j)"
    "sl_look (sl_shift1 sl i j) = sl_look sl" "sl_count (sl_shift1 sl i j) = sl_count sl"
proof -
  note sh = shift1_simps [OF b ne o]
  let ?sl = "sl_shift1 sl i j"
  define srcp where "srcp = (\<lambda>p. if p = i then j else p)"
  have srcp: "occ sl (srcp p)" "?sl ! p = sl ! srcp p" if "occ ?sl p" for p
    using that sh o by (auto simp: srcp_def)
  have inj: "p = q" if "occ ?sl p" "occ ?sl q" "srcp p = srcp q" for p q
    using that sh free by (auto simp: srcp_def split: if_splits)
  show uniq': "sl_uniq ?sl"
    using uniq srcp inj unfolding sl_uniq_def by metis
  show "sl_hashed H ?sl"
    using hashed srcp unfolding sl_hashed_def by metis
  show "sl_look ?sl = sl_look sl"
  proof (rule sl_lookI [OF uniq'])
    show "sl_look sl (sl_key (?sl ! p)) = Some (sl_idx (?sl ! p))" if "occ ?sl p" for p
      using srcp [OF that] sl_look_Some [OF uniq] by metis
    show "\<exists>p. occ ?sl p \<and> sl_key (?sl ! p) = k" if k: "sl_look sl k \<noteq> None" for k
    proof -
      obtain q where q: "occ sl q" "sl_key (sl ! q) = k"
        using k by (auto elim: sl_look_SomeD)
      show ?thesis
      proof (cases "q = j")
        case True
        then show ?thesis using q sh by (intro exI [of _ i]) simp
      next
        case False
        moreover have "q \<noteq> i" using q free by auto
        ultimately show ?thesis using q sh by (intro exI [of _ q]) simp
      qed
    qed
  qed
  have "sl_count (sl[i := sl ! j]) = sl_count sl + 1"
    using sl_count_update [OF b(1), of "sl ! j"] free o by (simp add: occ_def [of _ j])
  moreover have "occ (sl[i := sl ! j]) j"
    using o b ne by (simp add: occ_update)
  ultimately show "sl_count ?sl = sl_count sl"
    using sl_count_update [of j "sl[i := sl ! j]" "(sl ! j)\<lparr>sl_h := 0\<rparr>"] b
    by (simp add: sl_shift1_def)
qed

lemma ix_shift_spec:
  assumes "sl_size sl" "sl_uniq sl" "sl_hashed H sl" "hole_inv sl i j"
    and "e < length sl" "\<not> occ sl e" "e \<noteq> i" "e \<noteq> j"
  shows "\<exists>sl'. ix_shift sl (length sl - Suc 0) i j = Some sl' \<and> sl_wf H sl' \<and>
    sl_look sl' = sl_look sl \<and> sl_count sl' = sl_count sl \<and> length sl' = length sl"
  using assms
proof (induction "cd (length sl) j e" arbitrary: sl i j rule: less_induct)
  case less
  let ?n = "length sl"
  define j' where "j' = Suc j mod ?n"
  have j'n: "j' < ?n" using sl_size_pos [OF less.prems(1)] by (simp add: j'_def)
  have jn: "j < ?n" "i < ?n" using less.prems(4) by (auto simp: hole_inv_def)
  have nxt: "Suc j AND (?n - Suc 0) = j'"
    using sl_size_next [OF less.prems(1)] by (simp add: j'_def)
  show ?case
  proof (cases "occ sl j'")
    case False
    then have "ix_shift sl (?n - Suc 0) i j = Some sl"
      using j'n by (subst ix_shift.simps) (simp add: Let_def nxt occ_def)
    moreover have "sl_wf H sl"
      using hole_closed [OF less.prems(1,4) j'_def False] less.prems by (simp add: sl_wf_def)
    ultimately show ?thesis by simp
  next
    case o: True
    have ne: "i \<noteq> j'" using o less.prems(4) by (auto simp: hole_inv_def)
    have ej: "e \<noteq> j'" using o less.prems(6) by auto
    have "0 < cd ?n j e"
      using cd_eq_0 [of j ?n e] jn less.prems(5,8) by simp
    moreover have "cd ?n j' e = cd ?n j e - 1"
      using cd_step_target [of j ?n e] jn less.prems(5,8) by (simp add: j'_def)
    ultimately have dec: "cd ?n j' e < cd ?n j e" by simp
    have test: "ix_must_move i j' (ix_home (?n - Suc 0) (sl_h (sl ! j'))) \<longleftrightarrow>
        cd ?n (home sl j') i < cd ?n (home sl j') j'"
      using ix_must_move_cd [OF jn(2) j'n _ ne] home_less [OF less.prems(1), of j']
      by (simp add: sl_size_home [OF less.prems(1)] home_def)
    show ?thesis
    proof (cases "cd ?n (home sl j') i < cd ?n (home sl j') j'")
      case True
      let ?sl = "sl_shift1 sl i j'"
      note sh = shift1_simps [OF jn(2) j'n ne o]
      have free: "\<not> occ sl i" using less.prems(4) by (simp add: hole_inv_def)
      note content = shift1_content [OF jn(2) j'n ne o free less.prems(2,3)]
      have "ix_shift sl (?n - Suc 0) i j = ix_shift ?sl (?n - Suc 0) j' j'"
        using True test o
        by (subst ix_shift.simps) (simp add: Let_def nxt occ_def sl_shift1_def)
      moreover have "\<exists>sl'. ix_shift ?sl (length ?sl - Suc 0) j' j' = Some sl' \<and> sl_wf H sl' \<and>
          sl_look sl' = sl_look ?sl \<and> sl_count sl' = sl_count ?sl \<and> length sl' = length ?sl"
      proof (rule less.hyps)
        show "cd (length ?sl) j' e < cd ?n j e" using dec sh by simp
        show "sl_size ?sl" using less.prems(1) sh by (simp add: sl_size_def)
        show "hole_inv ?sl j' j'" by (rule hole_move [OF less.prems(1,4) j'_def o True])
        show "\<not> occ ?sl e" using less.prems(6,7) sh by simp
      qed (use content less.prems(5) sh ej in auto)
      ultimately show ?thesis using sh content by auto
    next
      case False
      have "ix_shift sl (?n - Suc 0) i j = ix_shift sl (?n - Suc 0) i j'"
        using False test o
        by (subst ix_shift.simps) (simp add: Let_def nxt occ_def)
      moreover have "\<exists>sl'. ix_shift sl (?n - Suc 0) i j' = Some sl' \<and> sl_wf H sl' \<and>
          sl_look sl' = sl_look sl \<and> sl_count sl' = sl_count sl \<and> length sl' = ?n"
        using less.hyps [OF dec less.prems(1-3) hole_skip [OF less.prems(1,4) j'_def o False]
            less.prems(5-7) ej] .
      ultimately show ?thesis by simp
    qed
  qed
qed

subsection \<open>Storing an entry\<close>

text \<open>
  The laws below hold for any hash function that never yields zero; \<open>ix_hash\<close> is such a
  function.
\<close>

locale ix_hashing =
  fixes H :: "bytes \<Rightarrow> u64"
  assumes H_nonzero: "H k \<noteq> 0"
begin

lemma sl_reach_put:
  assumes sz: "sl_size sl" and reach: "sl_reach sl" and p: "p < length sl" "\<not> occ sl p"
    and h: "h \<noteq> 0"
    and path: "\<And>q. q < length sl \<Longrightarrow>
      cd (length sl) (unat h mod length sl) q < cd (length sl) (unat h mod length sl) p \<Longrightarrow> occ sl q"
  shows "sl_reach (sl[p := \<lparr>sl_h = h, sl_key = k, sl_idx = idx\<rparr>])"
  unfolding sl_reach_def
proof (intro allI impI)
  fix a q
  let ?sl = "sl[p := \<lparr>sl_h = h, sl_key = k, sl_idx = idx\<rparr>]"
  assume a: "occ ?sl a" and q: "q < length ?sl"
    and lt: "cd (length ?sl) (home ?sl a) q < cd (length ?sl) (home ?sl a) a"
  show "occ ?sl q"
  proof (cases "q = p")
    case True
    then show ?thesis using p h by (simp add: occ_update)
  next
    case False
    have "occ sl q"
    proof (cases "a = p")
      case True
      then show ?thesis using path lt q p by (simp add: home_update)
    next
      case False
      then show ?thesis
        using reach a q lt p by (auto simp: sl_reach_def home_update occ_update)
    qed
    then show ?thesis using False p by (simp add: occ_update)
  qed
qed

lemma ix_put_raw_spec:
  assumes wf: "sl_wf H sl" and room: "sl_count sl < length sl" and new: "sl_look sl k = None"
  obtains sl' where "ix_put_raw sl (length sl - 1) (H k) k idx = Some sl'" "sl_wf H sl'"
    "sl_look sl' = (sl_look sl)(k \<mapsto> idx)" "sl_count sl' = sl_count sl + 1"
    "length sl' = length sl"
proof -
  let ?n = "length sl" and ?s = "\<lparr>sl_h = H k, sl_key = k, sl_idx = idx\<rparr>"
  have sz: "sl_size sl" and reach: "sl_reach sl" and uniq: "sl_uniq sl" and hashed: "sl_hashed H sl"
    using wf by (auto simp: sl_wf_def)
  obtain e where e: "e < ?n" "\<not> occ sl e"
    using room by (rule sl_count_less_free)
  obtain p where p: "ix_probe (\<lambda>i. sl_h (sl ! i) = 0) (?n - 1) (unat (H k) mod ?n) = Some p"
    "p < ?n" "sl_h (sl ! p) = 0"
    and first: "\<And>q. q < ?n \<Longrightarrow>
      cd ?n (unat (H k) mod ?n) q < cd ?n (unat (H k) mod ?n) p \<Longrightarrow> sl_h (sl ! q) \<noteq> 0"
    using ix_probe_first [OF sz, of "unat (H k) mod ?n" e "\<lambda>i. sl_h (sl ! i) = 0"] e
      sl_size_pos [OF sz] by (auto simp: occ_def)
  have free: "\<not> occ sl p" using p(3) by (simp add: occ_def)
  have put: "ix_put_raw sl (?n - 1) (H k) k idx = Some (sl[p := ?s])"
    using p(1) by (simp add: ix_put_raw_def sl_size_home [OF sz])
  have reach': "sl_reach (sl[p := ?s])"
    using first by (intro sl_reach_put [OF sz reach p(2) free H_nonzero]) (auto simp: occ_def)
  have keys: "\<And>q. occ sl q \<Longrightarrow> sl_key (sl ! q) \<noteq> k"
    using new by (simp add: sl_look_None)
  have uniq': "sl_uniq (sl[p := ?s])"
    using uniq keys p(2) unfolding sl_uniq_def
    by (auto simp: occ_update nth_list_update split: if_splits)
  have hashed': "sl_hashed H (sl[p := ?s])"
    using hashed p(2) by (auto simp: sl_hashed_def occ_update nth_list_update)
  have "sl_look (sl[p := ?s]) = (sl_look sl)(k \<mapsto> idx)"
  proof (rule sl_lookI [OF uniq'])
    fix q
    assume "occ (sl[p := ?s]) q"
    then show "((sl_look sl)(k \<mapsto> idx)) (sl_key (sl[p := ?s] ! q)) = Some (sl_idx (sl[p := ?s] ! q))"
      using p(2) keys sl_look_Some [OF uniq, of q]
      by (cases "q = p") (auto simp: occ_update)
  next
    fix k'
    assume "((sl_look sl)(k \<mapsto> idx)) k' \<noteq> None"
    then show "\<exists>q. occ (sl[p := ?s]) q \<and> sl_key (sl[p := ?s] ! q) = k'"
    proof (cases "k' = k")
      case True
      then show ?thesis
        using p(2) H_nonzero by (intro exI [of _ p]) (simp add: occ_update)
    next
      case False
      assume "((sl_look sl)(k \<mapsto> idx)) k' \<noteq> None"
      then obtain q where q: "occ sl q" "sl_key (sl ! q) = k'"
        using False by (auto elim: sl_look_SomeD)
      moreover have "q \<noteq> p" using q free by auto
      ultimately show ?thesis
        using p(2) by (intro exI [of _ q]) (simp add: occ_update)
    qed
  qed
  moreover have "sl_count (sl[p := ?s]) = sl_count sl + 1"
    using sl_count_update [OF p(2), of ?s] free H_nonzero by simp
  moreover have "sl_wf H (sl[p := ?s])"
    using sz reach' uniq' hashed' by (simp add: sl_wf_def sl_size_def)
  ultimately show ?thesis
    using that put by auto
qed

subsection \<open>Looking a key up\<close>

lemma ix_find_slots:
  assumes wf: "sl_wf H sl" and room: "sl_count sl < length sl"
    and sl: "ix_slot ix = sl" "ix_cap ix = length sl"
  obtains (absent) "ix_find ix (H k) k = Some None" "sl_look sl k = None"
    | (present) p where "ix_find ix (H k) k = Some (Some p)" "occ sl p" "sl_key (sl ! p) = k"
        "sl_look sl k = Some (sl_idx (sl ! p))"
proof -
  let ?n = "length sl"
  let ?stop = "\<lambda>i. sl_h (sl ! i) = 0 \<or> sl_h (sl ! i) = H k \<and> sl_key (sl ! i) = k"
  have sz: "sl_size sl" and reach: "sl_reach sl" and uniq: "sl_uniq sl" and hashed: "sl_hashed H sl"
    using wf by (auto simp: sl_wf_def)
  obtain e where e: "e < ?n" "\<not> occ sl e"
    using room by (rule sl_count_less_free)
  obtain p where p: "ix_probe ?stop (?n - 1) (unat (H k) mod ?n) = Some p" "p < ?n" "?stop p"
    and first: "\<And>q. q < ?n \<Longrightarrow>
      cd ?n (unat (H k) mod ?n) q < cd ?n (unat (H k) mod ?n) p \<Longrightarrow> \<not> ?stop q"
    using ix_probe_first [OF sz, of "unat (H k) mod ?n" e ?stop] e
      sl_size_pos [OF sz] by (auto simp: occ_def)
  have find: "ix_find ix (H k) k = Some (if sl_h (sl ! p) = 0 then None else Some p)"
    using p(1) sl sl_size_pos [OF sz] by (simp add: ix_find_def sl_size_home [OF sz])
  show ?thesis
  proof (cases "sl_h (sl ! p) = 0")
    case True
    have "sl_key (sl ! q) \<noteq> k" if q: "occ sl q" for q
    proof
      assume k: "sl_key (sl ! q) = k"
      then have h: "sl_h (sl ! q) = H k"
        using hashed q by (simp add: sl_hashed_def)
      then have hq: "home sl q = unat (H k) mod ?n" by (simp add: home_def)
      have ql: "q < ?n" using q by (simp add: occ_def)
      have "\<not> cd ?n (home sl q) q < cd ?n (home sl q) p"
        using first [OF ql] h k hq by auto
      moreover have "q \<noteq> p" using q True by (auto simp: occ_def)
      ultimately have "cd ?n (home sl q) p < cd ?n (home sl q) q"
        using cd_inj [of "home sl q" ?n q p] home_less [OF sz, of q] ql p(2)
        by (auto simp: linorder_not_less le_less)
      then have "occ sl p"
        using reach q p(2) by (auto simp: sl_reach_def)
      then show False using True by (simp add: occ_def)
    qed
    then show ?thesis
      using absent find True by (simp add: sl_look_None)
  next
    case False
    then have "occ sl p" "sl_key (sl ! p) = k"
      using p by (auto simp: occ_def)
    then show ?thesis
      using present find False sl_look_Some [OF uniq] by auto
  qed
qed

subsection \<open>Rebuilding into a larger array\<close>

lemma ix_rehash_spec:
  assumes "sl_wf H ns" "sl_count ns + sl_count old < length ns"
    and "\<forall>s \<in> set old. sl_h s \<noteq> 0 \<longrightarrow> sl_h s = H (sl_key s)"
    and "distinct (map sl_key (filter (\<lambda>s. sl_h s \<noteq> 0) old))"
    and "\<forall>s \<in> set old. sl_h s \<noteq> 0 \<longrightarrow> sl_look ns (sl_key s) = None"
  shows "\<exists>ns'. ix_rehash old ns (length ns - 1) = Some ns' \<and> sl_wf H ns' \<and>
    sl_count ns' = sl_count ns + sl_count old \<and> length ns' = length ns \<and>
    sl_look ns' = sl_look ns ++ sl_look old"
  using assms
proof (induction old arbitrary: ns)
  case Nil
  then show ?case by (simp add: sl_count_def sl_look_Nil)
next
  case (Cons s old)
  show ?case
  proof (cases "sl_h s \<noteq> 0")
    case False
    then show ?thesis
      using Cons by (simp add: sl_count_def sl_look_Cons)
  next
    case True
    then have cnt: "sl_count (s # old) = sl_count old + 1" by (simp add: sl_count_def)
    have "sl_count ns < length ns" using Cons.prems(2) by simp
    moreover have "sl_look ns (sl_key s) = None" using Cons.prems(5) True by simp
    ultimately obtain ns1 where ns1:
      "ix_put_raw ns (length ns - 1) (H (sl_key s)) (sl_key s) (sl_idx s) = Some ns1" "sl_wf H ns1"
      "sl_look ns1 = (sl_look ns)(sl_key s \<mapsto> sl_idx s)" "sl_count ns1 = sl_count ns + 1"
      "length ns1 = length ns"
      using ix_put_raw_spec [OF Cons.prems(1)] by metis
    have fresh: "\<forall>t \<in> set old. sl_h t \<noteq> 0 \<longrightarrow> sl_key t \<noteq> sl_key s"
      using Cons.prems(4) True by (fastforce simp: image_iff)
    have "\<exists>ns'. ix_rehash old ns1 (length ns1 - 1) = Some ns' \<and> sl_wf H ns' \<and>
      sl_count ns' = sl_count ns1 + sl_count old \<and> length ns' = length ns1 \<and>
      sl_look ns' = sl_look ns1 ++ sl_look old"
      using Cons.prems fresh cnt ns1 True by (intro Cons.IH) auto
    moreover have "ix_rehash (s # old) ns (length ns - 1) = ix_rehash old ns1 (length ns - 1)"
      using True ns1(1) Cons.prems(3) by simp
    moreover have "sl_look ns1 ++ sl_look old = sl_look ns ++ sl_look (s # old)"
    proof
      fix k
      have "sl_look old (sl_key s) = None"
        using fresh by (auto simp: sl_look_None occ_def)
      then show "(sl_look ns1 ++ sl_look old) k = (sl_look ns ++ sl_look (s # old)) k"
        using True by (auto simp: ns1(3) map_add_def sl_look_Cons split: option.splits)
    qed
    ultimately show ?thesis using ns1 cnt by auto
  qed
qed

end

subsection \<open>The index as a finite map\<close>

definition ix_load :: "dyn_ix \<Rightarrow> bool" where
  "ix_load ix \<longleftrightarrow> ix_used ix * 10 < 7 * min (ix_cap ix) (2 ^ 29) +
     (if ix_cap ix = 2 ^ 30 then 10 else if ix_cap ix = 2 ^ 31 then 20 else 0)"

definition ix_inv :: "(bytes \<Rightarrow> u64) \<Rightarrow> dyn_ix \<Rightarrow> bool" where
  "ix_inv H ix \<longleftrightarrow>
     ix_slot ix = [] \<and> ix_cap ix = 0 \<and> ix_used ix = 0 \<or>
     sl_wf H (ix_slot ix) \<and> ix_cap ix = length (ix_slot ix) \<and>
       ix_used ix = sl_count (ix_slot ix) \<and> ix_load ix"

definition ix_look :: "dyn_ix \<Rightarrow> bytes \<Rightarrow> nat option" where
  "ix_look ix = sl_look (ix_slot ix)"

lemma ix_load_room: "ix_load ix \<Longrightarrow> ix_used ix < ix_cap ix"
  by (auto simp: ix_load_def split: if_splits)

lemma ix_inv_empty [simp]: "ix_inv H ix_empty"
  by (simp add: ix_inv_def ix_empty_def)

lemma ix_look_empty [simp]: "ix_look ix_empty = Map.empty"
  by (simp add: ix_look_def ix_empty_def sl_look_Nil)

lemma ix_free_eq [simp]: "ix_free ix = ix_empty"
  by (simp add: ix_free_def ix_empty_def)

lemma sl_count_card:
  assumes "sl_uniq sl"
  shows "sl_count sl = card (dom (sl_look sl))"
proof -
  have "dom (sl_look sl) = set (map sl_key (filter (\<lambda>s. sl_h s \<noteq> 0) sl))"
    by (induction sl) (auto simp: sl_look_Nil sl_look_Cons dom_def)
  then show ?thesis
    using distinct_card [OF sl_uniq_distinct [OF assms]] by (simp add: sl_count_def)
qed

lemma ix_used_card: "ix_inv H ix \<Longrightarrow> ix_used ix = card (dom (ix_look ix))"
  using sl_count_card by (auto simp: ix_inv_def ix_look_def sl_look_Nil sl_wf_def)

lemma next_alloc_set: "set (snd (next_alloc al)) \<subseteq> set al"
  by (cases al) auto

text \<open>
  What \<open>ix_reserve\<close> leaves when it succeeds: room for one more entry at the permitted load.
\<close>

definition ix_ready :: "dyn_ix \<Rightarrow> bool" where
  "ix_ready ix \<longleftrightarrow> ix_load (ix\<lparr>ix_used := ix_used ix + 1\<rparr>)"

lemma ix_cap_cases:
  assumes "ix_inv H ix"
  obtains (zero) "ix_cap ix = 0" "ix_used ix = 0"
    | (small) "8 \<le> ix_cap ix" "ix_cap ix \<le> 2 ^ 28"
    | (p29) "ix_cap ix = 2 ^ 29" | (p30) "ix_cap ix = 2 ^ 30" | (p31) "ix_cap ix = 2 ^ 31"
proof (cases "ix_slot ix = []")
  case True
  then show ?thesis using assms zero by (auto simp: ix_inv_def sl_wf_def sl_size_def)
next
  case False
  then obtain k where k: "3 \<le> k" "k \<le> 31" "ix_cap ix = 2 ^ k"
    using assms by (auto simp: ix_inv_def sl_wf_def sl_size_def)
  have "(2::nat) ^ 3 \<le> 2 ^ k" using k by (intro power_increasing) auto
  moreover have "(2::nat) ^ k \<le> 2 ^ 28" if "k \<le> 28" using that by (intro power_increasing) auto
  moreover have "k \<le> 28 \<or> k = 29 \<or> k = 30 \<or> k = 31" using k by arith
  ultimately show ?thesis using k small p29 p30 p31 by auto
qed

lemma ix_no_growth:
  assumes "ix_inv H ix" "\<not> (ix_cap ix * 7) mod 2 ^ 32 \<le> ((ix_used ix + 1) * 10) mod 2 ^ 32"
  shows "ix_ready ix"
proof -
  have load: "ix_load ix \<or> ix_cap ix = 0"
    using assms(1) by (auto simp: ix_inv_def)
  show ?thesis
    using assms(1)
  proof (cases rule: ix_cap_cases)
    case small
    then have "(ix_cap ix * 7) mod 2 ^ 32 = ix_cap ix * 7"
      "((ix_used ix + 1) * 10) mod 2 ^ 32 = (ix_used ix + 1) * 10"
      using load by (auto simp: ix_load_def)
    then show ?thesis using assms(2) small by (auto simp: ix_ready_def ix_load_def)
  qed (use assms(2) load in \<open>auto simp: ix_ready_def ix_load_def\<close>)
qed

lemma ix_small_no_limit:
  assumes "ix_inv H ix" "ix_used ix < 2 ^ 27"
    "(ix_cap ix * 7) mod 2 ^ 32 \<le> ((ix_used ix + 1) * 10) mod 2 ^ 32"
  shows "ix_cap ix \<le> 0x40000000"
  using assms(1) by (cases rule: ix_cap_cases) (use assms(2,3) in auto)

lemma sl_wf_fresh:
  assumes "3 \<le> k" "k \<le> 31"
  shows "sl_wf H (replicate (2 ^ k) ix_slot0)" "sl_count (replicate (2 ^ k) ix_slot0) = 0"
    "sl_look (replicate (2 ^ k) ix_slot0) = Map.empty"
proof -
  have none: "\<not> occ (replicate (2 ^ k) ix_slot0) p" for p
    by (auto simp: occ_def ix_slot0_def)
  then show "sl_wf H (replicate (2 ^ k) ix_slot0)"
    using assms by (auto simp: sl_wf_def sl_size_def sl_reach_def sl_uniq_def sl_hashed_def)
  show "sl_count (replicate (2 ^ k) ix_slot0) = 0"
    by (simp add: sl_count_def ix_slot0_def)
  show "sl_look (replicate (2 ^ k) ix_slot0) = Map.empty"
    using none by (intro ext) (simp add: sl_look_None)
qed

context ix_hashing
begin

lemma ix_find_cases:
  assumes "ix_inv H ix"
  obtains (absent) "ix_find ix (H k) k = Some None" "ix_look ix k = None"
    | (present) p where "ix_find ix (H k) k = Some (Some p)" "occ (ix_slot ix) p"
        "sl_key (ix_slot ix ! p) = k" "ix_look ix k = Some (sl_idx (ix_slot ix ! p))"
proof (cases "ix_cap ix = 0")
  case True
  then have "ix_slot ix = []"
    using assms by (auto simp: ix_inv_def)
  then show ?thesis
    using absent True by (simp add: ix_find_def ix_look_def sl_look_Nil)
next
  case False
  then have wf: "sl_wf H (ix_slot ix)" "ix_cap ix = length (ix_slot ix)"
    "sl_count (ix_slot ix) < length (ix_slot ix)"
    using assms ix_load_room [of ix] by (auto simp: ix_inv_def)
  show ?thesis
    by (rule ix_find_slots [OF wf(1,3) refl wf(2), of k]) (auto simp: ix_look_def intro: absent present)
qed

lemma ix_erase_spec:
  assumes inv: "ix_inv H ix" and find: "ix_find ix (H k) k = Some (Some p)"
  obtains ix' where "ix_erase ix p = Some ix'" "ix_inv H ix'" "ix_look ix' = (ix_look ix)(k := None)"
proof -
  let ?sl = "ix_slot ix" and ?n = "length (ix_slot ix)"
  define sl0 where "sl0 = ?sl[p := (?sl ! p)\<lparr>sl_h := 0\<rparr>]"
  from inv have p: "occ ?sl p" "sl_key (?sl ! p) = k"
    by (rule ix_find_cases [of ix k]; use find in simp)+
  then have pn: "p < ?n" by (simp add: occ_def)
  then have wf: "sl_size ?sl" "sl_reach ?sl" "sl_uniq ?sl" "sl_hashed H ?sl" and cap: "ix_cap ix = ?n"
    and used: "ix_used ix = sl_count ?sl" and load: "ix_load ix"
    using inv by (auto simp: ix_inv_def sl_wf_def)
  have occ0: "occ sl0 q \<longleftrightarrow> occ ?sl q \<and> q \<noteq> p" for q
    using pn by (auto simp: sl0_def occ_update)
  have nth0: "q \<noteq> p \<Longrightarrow> sl0 ! q = ?sl ! q" for q
    by (simp add: sl0_def)
  have len0: "length sl0 = ?n" by (simp add: sl0_def)
  have home0: "q \<noteq> p \<Longrightarrow> home sl0 q = home ?sl q" for q
    by (simp add: home_def nth0 len0)
  have wf0: "sl_size sl0" "sl_uniq sl0" "sl_hashed H sl0"
    using wf by (auto simp: sl_size_def len0 sl_uniq_def sl_hashed_def occ0 nth0)
  have hole: "hole_inv sl0 p p"
    using wf(2) pn cd_eq_0 [of p ?n] occ_less [of ?sl]
    by (auto simp: hole_inv_def occ0 home0 len0 sl_reach_def)
  have "ix_used ix < ix_cap ix" by (rule ix_load_room [OF load])
  then obtain e where e: "e < ?n" "\<not> occ ?sl e"
    using sl_count_less_free [of ?sl] used cap by auto
  then have "e \<noteq> p" using p by auto
  then obtain sl' where sl': "ix_shift sl0 (?n - Suc 0) p p = Some sl'" "sl_wf H sl'"
    "sl_look sl' = sl_look sl0" "sl_count sl' = sl_count sl0" "length sl' = ?n"
    using ix_shift_spec [OF wf0 hole, of e] e len0 occ0 by auto
  have "sl_count sl0 + 1 = sl_count ?sl"
    using sl_count_update [OF pn, of "(?sl ! p)\<lparr>sl_h := 0\<rparr>"] p by (simp add: sl0_def)
  moreover have "sl_look sl0 = (sl_look ?sl)(k := None)"
  proof (rule sl_lookI [OF wf0(2)])
    show "((sl_look ?sl)(k := None)) (sl_key (sl0 ! q)) = Some (sl_idx (sl0 ! q))" if "occ sl0 q" for q
      using that p wf(3) sl_look_Some [OF wf(3), of q] by (auto simp: occ0 nth0 sl_uniq_def)
    show "\<exists>q. occ sl0 q \<and> sl_key (sl0 ! q) = k'" if k': "((sl_look ?sl)(k := None)) k' \<noteq> None" for k'
    proof -
      from k' obtain q where q: "occ ?sl q" "sl_key (?sl ! q) = k'" "k' \<noteq> k"
        by (auto split: if_splits elim!: sl_look_SomeD)
      then have "q \<noteq> p" using p by auto
      with q show ?thesis by (intro exI [of _ q]) (simp add: occ0 nth0)
    qed
  qed
  ultimately have "ix_inv H (ix\<lparr>ix_slot := sl', ix_used := ix_used ix - 1\<rparr>)"
    "ix_look (ix\<lparr>ix_slot := sl', ix_used := ix_used ix - 1\<rparr>) = (ix_look ix)(k := None)"
    using sl' cap used load by (auto simp: ix_inv_def ix_look_def ix_load_def)
  moreover have "ix_erase ix p = Some (ix\<lparr>ix_slot := sl', ix_used := ix_used ix - 1\<rparr>)"
    using sl'(1) cap by (simp add: ix_erase_def sl0_def)
  ultimately show ?thesis using that by blast
qed

lemma ix_move_spec:
  assumes inv: "ix_inv H ix" and k: "ix_look ix k \<noteq> None"
  obtains ix' where "ix_move ix (H k) k idx = Some ix'" "ix_inv H ix'"
    "ix_look ix' = (ix_look ix)(k \<mapsto> idx)"
  using inv
proof (cases rule: ix_find_cases [where k = k])
  case absent
  then show ?thesis using k by simp
next
  case (present p)
  let ?sl = "ix_slot ix"
  let ?sl' = "?sl[p := (?sl ! p)\<lparr>sl_idx := idx\<rparr>]" and ?ix' = "ix\<lparr>ix_slot := ?sl[p := (?sl ! p)\<lparr>sl_idx := idx\<rparr>]\<rparr>"
  have pn: "p < length ?sl" using present by (simp add: occ_def)
  have wf: "sl_wf H ?sl" using inv pn by (auto simp: ix_inv_def)
  have occ': "occ ?sl' q \<longleftrightarrow> occ ?sl q" for q
    using pn present by (auto simp: occ_def nth_list_update)
  have nth': "?sl' ! q = (if q = p then (?sl ! p)\<lparr>sl_idx := idx\<rparr> else ?sl ! q)" if "occ ?sl q" for q
    using pn by (simp add: nth_list_update)
  have home': "occ ?sl q \<Longrightarrow> home ?sl' q = home ?sl q" for q
    by (simp add: home_def nth')
  have key': "occ ?sl q \<Longrightarrow> sl_key (?sl' ! q) = sl_key (?sl ! q)" for q
    by (simp add: nth')
  have uniq': "sl_uniq ?sl'"
    using wf by (auto simp: sl_wf_def sl_uniq_def occ' key')
  have wf': "sl_wf H ?sl'"
    using wf uniq' by (auto simp: sl_wf_def sl_size_def sl_reach_def sl_hashed_def occ' home' nth')
  have look: "sl_look ?sl' = (sl_look ?sl)(k \<mapsto> idx)"
  proof (rule sl_lookI [OF uniq'])
    have uniq: "sl_uniq ?sl" using wf by (simp add: sl_wf_def)
    show "((sl_look ?sl)(k \<mapsto> idx)) (sl_key (?sl' ! q)) = Some (sl_idx (?sl' ! q))"
      if "occ ?sl' q" for q
      using that present sl_look_Some [OF uniq, of q] uniq by (auto simp: occ' nth' sl_uniq_def)
    show "\<exists>q. occ ?sl' q \<and> sl_key (?sl' ! q) = k'"
      if k': "((sl_look ?sl)(k \<mapsto> idx)) k' \<noteq> None" for k'
    proof -
      from k' present obtain q where "occ ?sl q" "sl_key (?sl ! q) = k'"
        by (auto split: if_splits elim!: sl_look_SomeD)
      then show ?thesis by (intro exI [of _ q]) (auto simp: occ' nth')
    qed
  qed
  have "sl_count ?sl' = sl_count ?sl"
    using sl_count_update [OF pn, of "(?sl ! p)\<lparr>sl_idx := idx\<rparr>"] present by (simp add: occ_def)
  then have "ix_inv H ?ix'" "ix_look ?ix' = (ix_look ix)(k \<mapsto> idx)"
    using inv wf' look pn by (auto simp: ix_inv_def ix_look_def ix_load_def)
  then show ?thesis
    using that present(1) by (simp add: ix_move_def)
qed

lemma ix_grow_spec:
  assumes inv: "ix_inv H ix"
  obtains (fail) al' where "ix_grow al ix = Some (None, al')" "set al' \<subseteq> set al"
      "\<not> fst (next_alloc al) \<or> ix_cap ix > 0x40000000"
    | (ok) ix' where "ix_grow al ix = Some (Some ix', snd (next_alloc al))" "ix_inv H ix'"
      "ix_look ix' = ix_look ix" "ix_used ix' = ix_used ix" "ix_ready ix'"
proof (cases "fst (next_alloc al) \<and> ix_cap ix \<le> 0x40000000")
  case False
  then have "ix_grow al ix = Some (None, if ix_cap ix > 0x40000000 then al else snd (next_alloc al))"
    by (auto simp: ix_grow_def Let_def split: prod.splits)
  then show ?thesis
    by (rule fail) (use False next_alloc_set [of al] in auto)
next
  case True
  define nc where "nc = (if ix_cap ix \<noteq> 0 then (ix_cap ix * 2) mod 2 ^ 32 else DS_MIN_CAP)"
  obtain k where k: "3 \<le> k" "k \<le> 31" "nc = 2 ^ k" and bound: "ix_used ix < nc"
    and ready: "ix_ready (ix\<lparr>ix_cap := nc\<rparr>)" "ix_load (ix\<lparr>ix_cap := nc\<rparr>)"
  proof (cases "ix_cap ix = 0")
    case z: True
    then have "nc = 2 ^ 3" "ix_used ix = 0" using inv by (auto simp: nc_def ix_inv_def sl_wf_def sl_size_def)
    then show ?thesis by (intro that [of 3]) (auto simp: ix_ready_def ix_load_def)
  next
    case nz: False
    then have wf: "sl_size (ix_slot ix)" "ix_cap ix = length (ix_slot ix)" and load: "ix_load ix"
      using inv by (auto simp: ix_inv_def sl_wf_def)
    then obtain j where j: "3 \<le> j" "j \<le> 31" "ix_cap ix = 2 ^ j"
      by (auto simp: sl_size_def)
    have "j \<le> 30"
      using True j power_increasing [of 31 j "2::nat"] by (cases "j \<le> 30") auto
    have nc: "nc = 2 ^ Suc j"
      using nz j True by (simp add: nc_def)
    have "ix_ready (ix\<lparr>ix_cap := nc\<rparr>) \<and> ix_load (ix\<lparr>ix_cap := nc\<rparr>)"
      using inv by (cases rule: ix_cap_cases)
        (use load nz True j nc in \<open>auto simp: ix_ready_def ix_load_def\<close>)
    moreover have "ix_used ix < nc"
      using ix_load_room [OF load] j nc by simp
    ultimately show ?thesis
      using that [of "Suc j"] j \<open>j \<le> 30\<close> nc by auto
  qed
  have old: "\<forall>s \<in> set (ix_slot ix). sl_h s \<noteq> 0 \<longrightarrow> sl_h s = H (sl_key s)"
    "distinct (map sl_key (filter (\<lambda>s. sl_h s \<noteq> 0) (ix_slot ix)))"
    "sl_count (ix_slot ix) = ix_used ix"
    using inv sl_uniq_distinct [of "ix_slot ix"]
    by (auto simp: ix_inv_def sl_wf_def sl_hashed_def occ_def in_set_conv_nth sl_count_def)
  note fresh = sl_wf_fresh [OF k(1,2)]
  obtain ns where ns: "ix_rehash (ix_slot ix) (replicate nc ix_slot0) (nc - 1) = Some ns" "sl_wf H ns"
    "sl_count ns = ix_used ix" "length ns = nc" "sl_look ns = sl_look (ix_slot ix)"
    using ix_rehash_spec [OF fresh(1) _ old(1,2)] fresh(2,3) bound old(3) k(3) by auto
  have "ix_grow al ix = Some (Some (ix\<lparr>ix_slot := ns, ix_cap := nc\<rparr>), snd (next_alloc al))"
    using True ns(1) unfolding ix_grow_def nc_def [symmetric]
    by (cases "next_alloc al") (simp add: Let_def)
  then show ?thesis
    by (rule ok)
      (use ns ready in \<open>auto simp: ix_inv_def ix_look_def ix_ready_def ix_load_def cong: if_cong\<close>)
qed

lemma ix_reserve_spec:
  assumes inv: "ix_inv H ix"
  obtains (fail) al' where "ix_reserve al ix = Some (None, al')" "set al' \<subseteq> set al"
      "\<not> fst (next_alloc al) \<or> 2 ^ 27 \<le> ix_used ix"
    | (ok) ix' al' where "ix_reserve al ix = Some (Some ix', al')" "set al' \<subseteq> set al" "ix_inv H ix'"
      "ix_look ix' = ix_look ix" "ix_used ix' = ix_used ix" "ix_ready ix'"
proof (cases "(ix_cap ix * 7) mod 2 ^ 32 \<le> ((ix_used ix + 1) * 10) mod 2 ^ 32")
  case True
  then have eq: "ix_reserve al ix = ix_grow al ix" by (simp add: ix_reserve_def)
  show ?thesis
    using inv
  proof (cases rule: ix_grow_spec [where al = al])
    case (fail al')
    then show ?thesis
      using ix_small_no_limit [OF inv _ True] that(1) [of al'] eq by fastforce
  next
    case (ok ix')
    then show ?thesis using that(2) eq next_alloc_set by auto
  qed
next
  case False
  then show ?thesis
    using ok [of ix al] ix_no_growth [OF inv False] inv by (simp add: ix_reserve_def)
qed

lemma ix_insert_spec:
  assumes inv: "ix_inv H ix" and new: "ix_look ix k = None"
  obtains (fail) al' where "ix_insert al ix (H k) k idx = Some (None, al')" "set al' \<subseteq> set al"
      "\<not> fst (next_alloc al) \<or> 2 ^ 27 \<le> ix_used ix"
    | (ok) ix' al' where "ix_insert al ix (H k) k idx = Some (Some ix', al')" "set al' \<subseteq> set al"
      "ix_inv H ix'" "ix_look ix' = (ix_look ix)(k \<mapsto> idx)"
  using inv
proof (cases rule: ix_reserve_spec [where al = al])
  case (fail al')
  then show ?thesis
    using that(1) [of al'] by (simp add: ix_insert_def)
next
  case (ok ix1 al')
  have "ix_used ix1 + 1 < ix_cap ix1"
    using ok(6) ix_load_room by (fastforce simp: ix_ready_def)
  then have wf: "sl_wf H (ix_slot ix1)" "ix_cap ix1 = length (ix_slot ix1)"
    "ix_used ix1 = sl_count (ix_slot ix1)" "sl_count (ix_slot ix1) < length (ix_slot ix1)"
    using ok(3) by (auto simp: ix_inv_def)
  have "sl_look (ix_slot ix1) k = None" using ok(4) new by (simp add: ix_look_def)
  then obtain sl' where sl': "ix_put_raw (ix_slot ix1) (length (ix_slot ix1) - 1) (H k) k idx = Some sl'"
    "sl_wf H sl'" "sl_look sl' = (sl_look (ix_slot ix1))(k \<mapsto> idx)"
    "sl_count sl' = sl_count (ix_slot ix1) + 1" "length sl' = length (ix_slot ix1)"
    using ix_put_raw_spec [OF wf(1,4)] by metis
  let ?ix' = "ix1\<lparr>ix_slot := sl', ix_used := ix_used ix1 + 1\<rparr>"
  have "ix_insert al ix (H k) k idx = Some (Some ?ix', al')"
    using ok(1) sl'(1) wf(2) by (simp add: ix_insert_def)
  moreover have "ix_inv H ?ix'" "ix_look ?ix' = (ix_look ix)(k \<mapsto> idx)"
    using sl' wf ok(4,6) by (auto simp: ix_inv_def ix_look_def ix_ready_def ix_load_def)
  ultimately show ?thesis using that(2) ok(2) by blast
qed

end

interpretation ds_hash: ix_hashing "ix_hash s0 s1" for s0 s1
  by unfold_locales (rule ix_hash_nonzero)

subsection \<open>Properties\<close>

text \<open>
  C12. On a well-formed index the probe loop of \<open>ix_find\<close> always ends, and it reports a position
  exactly for the keys the index holds; the slot there carries the position stored for the key.
\<close>

theorem ix_find_lookup:
  assumes "ix_inv (ix_hash s0 s1) ix"
  shows "\<exists>r. ix_find ix (ix_hash s0 s1 k) k = Some r \<and>
    ix_look ix k = map_option (\<lambda>p. sl_idx (ix_slot ix ! p)) r"
  by (rule ds_hash.ix_find_cases [OF assms, of k]) auto

theorem ix_find_lookup_witness:
  "ix_inv (ix_hash 1 2) ix_empty \<and> ix_find ix_empty (ix_hash 1 2 [97]) [97] = Some None"
  using ix_find_lookup [OF ix_inv_empty, of 1 2 "[97]"] by auto

text \<open>
  C3. Inserting an absent key in a well-formed index ends. It either fails and leaves the caller
  with the old index, which needs a failing allocation or \<open>2 ^ 27\<close> entries, or gives a
  well-formed index that maps the key to the given position and every other key as before,
  whether or not the table was rebuilt.
\<close>

theorem ix_insert_refines:
  assumes "ix_inv (ix_hash s0 s1) ix" "ix_look ix k = None"
  shows "\<exists>r al'. ix_insert al ix (ix_hash s0 s1 k) k idx = Some (r, al') \<and>
    (case r of
       None \<Rightarrow> \<not> fst (next_alloc al) \<or> 2 ^ 27 \<le> ix_used ix
     | Some ix' \<Rightarrow> ix_inv (ix_hash s0 s1) ix' \<and> ix_look ix' = (ix_look ix)(k \<mapsto> idx))"
  by (rule ds_hash.ix_insert_spec [OF assms, of al idx]) auto

theorem ix_insert_refines_witness:
  "\<exists>r al'. ix_insert [True] ix_empty (ix_hash 1 2 [97]) [97] 7 = Some (r, al') \<and>
    (\<forall>ix'. r = Some ix' \<longrightarrow> ix_look ix' = [[97] \<mapsto> 7])"
  using ix_insert_refines [OF ix_inv_empty, of "[97]" "[True]" 1 2 7] by (auto split: option.splits)

text \<open>
  C1. Deleting a found key by backward shift ends, keeps the index well-formed and removes that
  key and no other: the entries moved into the gap are still found.
\<close>

theorem ix_erase_refines:
  assumes "ix_inv (ix_hash s0 s1) ix" "ix_find ix (ix_hash s0 s1 k) k = Some (Some p)"
  shows "\<exists>ix'. ix_erase ix p = Some ix' \<and> ix_inv (ix_hash s0 s1) ix' \<and> ix_look ix' = (ix_look ix)(k := None)"
  by (rule ds_hash.ix_erase_spec [OF assms]) auto

theorem ix_erase_refines_witness:
  "\<exists>ix p ix'. ix_inv (ix_hash 1 2) ix \<and> ix_look ix = [[97] \<mapsto> 7] \<and>
    ix_find ix (ix_hash 1 2 [97]) [97] = Some (Some p) \<and> ix_erase ix p = Some ix' \<and> ix_look ix' = Map.empty"
proof -
  have used: "ix_used ix_empty = 0" by (simp add: ix_empty_def)
  obtain ix where ix: "ix_inv (ix_hash 1 2) ix" "ix_look ix = [[97] \<mapsto> 7]"
    by (rule ds_hash.ix_insert_spec [OF ix_inv_empty, of "[97]" "[]" 1 2 7]) (use used in auto)
  obtain p where p: "ix_find ix (ix_hash 1 2 [97]) [97] = Some (Some p)"
    by (rule ds_hash.ix_find_cases [OF ix(1), of "[97]"]) (use ix(2) in auto)
  show ?thesis
    using ix_erase_refines [OF ix(1) p] ix p by auto
qed

end
