(* ===== verification/DsStore.thy ===== *)
theory DsStore
  imports DsIndex
begin

text \<open>
  The pattern the string-keyed containers of \<open>src/core/dyn-ds.c\<close> share: an array of records,
  each with its own copy of a key and the key's hash, and a \<open>dyn_ix\<close> that maps a key to the
  position of its record. The contract of the index is the locale \<open>string_index\<close>; its lemmas
  say what finding, appending and removing by moving the last record do to such a pair.
\<close>

subsection \<open>Model\<close>

record ds_key =
  dk_p :: bytes
  dk_h :: u64

definition key_init :: "allocs \<Rightarrow> bytes \<Rightarrow> u64 \<Rightarrow> ds_key option \<times> allocs" where
  "key_init al k h =
     (case next_alloc al of (ok, al') \<Rightarrow> (if ok then Some \<lparr>dk_p = k, dk_h = h\<rparr> else None, al'))"

text \<open>Dropping record \<open>i\<close>: the last record takes its place and the length shrinks.\<close>

definition swap_remove :: "'r list \<Rightarrow> nat \<Rightarrow> 'r list" where
  "swap_remove rs i = take (length rs - 1) (rs[i := rs ! (length rs - 1)])"

subsection \<open>Swap removal\<close>

lemma length_swap_remove [simp]: "length (swap_remove rs i) = length rs - 1"
  by (simp add: swap_remove_def)

lemma nth_swap_remove:
  "j < length rs - 1 \<Longrightarrow> swap_remove rs i ! j = (if j = i then rs ! (length rs - 1) else rs ! j)"
  by (simp add: swap_remove_def nth_list_update)

lemma swap_remove_update: "swap_remove (rs[i := r]) i = swap_remove rs i"
  by (cases "i = length rs - 1") (simp_all add: swap_remove_def)

lemma swap_remove_last: "i = length rs - 1 \<Longrightarrow> swap_remove rs i = take (length rs - 1) rs"
  by (simp add: swap_remove_def)

lemma mset_swap_remove:
  assumes "i < length rs"
  shows "mset (swap_remove rs i) = mset rs - {#rs ! i#}"
proof -
  let ?n = "length rs - 1" and ?ys = "rs[i := rs ! (length rs - 1)]"
  have n: "?n < length ?ys" using assms by simp
  have "?ys = take ?n ?ys @ [?ys ! ?n]"
    using take_Suc_conv_app_nth [OF n] assms by simp
  then have "mset ?ys = add_mset (?ys ! ?n) (mset (swap_remove rs i))"
    unfolding swap_remove_def by (metis add_mset_add_single mset_append mset_single_iff_right union_commute mset.simps)
  moreover have "?ys ! ?n = rs ! ?n"
    using assms by (simp add: nth_list_update)
  moreover have "mset ?ys = add_mset (rs ! ?n) (mset rs - {#rs ! i#})"
    using assms by (simp add: mset_update)
  ultimately show ?thesis by simp
qed

lemma set_swap_remove_subset: "r \<in> set (swap_remove rs i) \<Longrightarrow> i < length rs \<Longrightarrow> r \<in> set rs"
  by (metis in_diffD mset_swap_remove set_mset_mset)

subsection \<open>Records as a map\<close>

definition recs_map :: "('r \<Rightarrow> bytes) \<Rightarrow> ('r \<Rightarrow> 'v) \<Rightarrow> 'r list \<Rightarrow> bytes \<Rightarrow> 'v option" where
  "recs_map key val rs = map_of (map (\<lambda>r. (key r, val r)) rs)"

lemma recs_map_Nil [simp]: "recs_map key val [] = Map.empty"
  by (simp add: recs_map_def)

lemma recs_map_iff:
  assumes "distinct (map key rs)"
  shows "recs_map key val rs k = Some v \<longleftrightarrow> (\<exists>r \<in> set rs. key r = k \<and> val r = v)"
proof -
  have "distinct (map fst (map (\<lambda>r. (key r, val r)) rs))"
    using assms by (simp add: comp_def)
  then show ?thesis
    unfolding recs_map_def by (subst map_of_eq_Some_iff) auto
qed

lemma recs_map_None: "recs_map key val rs k = None \<longleftrightarrow> (\<forall>r \<in> set rs. key r \<noteq> k)"
  by (auto simp: recs_map_def map_of_eq_None_iff image_image)

lemma recs_map_nth:
  "distinct (map key rs) \<Longrightarrow> i < length rs \<Longrightarrow> recs_map key val rs (key (rs ! i)) = Some (val (rs ! i))"
  by (auto simp: recs_map_iff)

lemma recs_map_eqI:
  assumes "distinct (map key rs)"
    and "\<And>r. r \<in> set rs \<Longrightarrow> m (key r) = Some (val r)"
    and "\<And>k. m k \<noteq> None \<Longrightarrow> \<exists>r \<in> set rs. key r = k"
  shows "recs_map key val rs = m"
proof
  fix k
  show "recs_map key val rs k = m k"
  proof (cases "recs_map key val rs k")
    case None
    then show ?thesis using assms(3) [of k] by (cases "m k") (auto simp: recs_map_None)
  next
    case (Some v)
    then show ?thesis using assms(2) by (auto simp: recs_map_iff [OF assms(1)])
  qed
qed

lemma recs_map_snoc:
  assumes "\<forall>s \<in> set rs. key s \<noteq> key r"
  shows "recs_map key val (rs @ [r]) = (recs_map key val rs)(key r \<mapsto> val r)"
proof -
  have "recs_map key val rs (key r) = None"
    using assms by (simp add: recs_map_None)
  then show ?thesis
    by (auto simp: recs_map_def map_add_def fun_eq_iff split: option.splits)
qed

lemma distinct_keys_update:
  "i < length rs \<Longrightarrow> key r = key (rs ! i) \<Longrightarrow> map key (rs[i := r]) = map key rs"
  by (simp add: map_update list_update_same_conv)

lemma recs_map_update:
  assumes "distinct (map key rs)" "i < length rs" "key r = key (rs ! i)"
  shows "recs_map key val (rs[i := r]) = (recs_map key val rs)(key r \<mapsto> val r)"
proof (rule recs_map_eqI)
  show d: "distinct (map key (rs[i := r]))"
    using assms distinct_keys_update [OF assms(2,3)] by simp
  show "((recs_map key val rs)(key r \<mapsto> val r)) (key s) = Some (val s)" if s: "s \<in> set (rs[i := r])" for s
  proof -
    obtain j where j: "j < length rs" "s = rs[i := r] ! j"
      using s by (auto simp: in_set_conv_nth)
    show ?thesis
    proof (cases "j = i")
      case False
      then have "key (rs ! j) \<noteq> key r"
        using assms j by (auto simp: distinct_conv_nth)
      then show ?thesis
        using j False recs_map_nth [OF assms(1) j(1)] by simp
    qed (use j in simp)
  qed
  show "\<exists>s \<in> set (rs[i := r]). key s = k" if "((recs_map key val rs)(key r \<mapsto> val r)) k \<noteq> None" for k
  proof -
    have "k \<in> set (map key rs)"
      using that assms by (auto simp: recs_map_iff split: if_splits)
    then have "k \<in> set (map key (rs[i := r]))"
      using distinct_keys_update [of i rs key r] assms by simp
    then show ?thesis by auto
  qed
qed

lemma recs_map_swap_remove:
  assumes "distinct (map key rs)" "i < length rs"
  shows "recs_map key val (swap_remove rs i) = (recs_map key val rs)(key (rs ! i) := None)"
    and "distinct (map key (swap_remove rs i))"
proof -
  have m: "mset (swap_remove rs i) = mset rs - {#rs ! i#}"
    using assms(2) by (rule mset_swap_remove)
  have dr: "distinct rs" using assms(1) by (simp add: distinct_map)
  have perm: "mset (swap_remove rs i) = mset (remove1 (rs ! i) rs)"
    using m by simp
  have st: "set (swap_remove rs i) = set rs - {rs ! i}"
    using mset_eq_setD [OF perm] dr by simp
  have inj: "inj_on key (set rs)"
    using assms(1) by (simp add: distinct_map)
  have "distinct (swap_remove rs i)"
    using mset_eq_imp_distinct_iff [OF perm] dr by simp
  then show d: "distinct (map key (swap_remove rs i))"
    using inj st by (auto simp: distinct_map intro: inj_on_subset)
  show "recs_map key val (swap_remove rs i) = (recs_map key val rs)(key (rs ! i) := None)"
  proof (rule recs_map_eqI [OF d])
    fix r
    assume r: "r \<in> set (swap_remove rs i)"
    then have "r \<in> set rs" "r \<noteq> rs ! i" using st by auto
    moreover from this have "key r \<noteq> key (rs ! i)"
      using inj assms(2) by (metis inj_onD nth_mem)
    ultimately show "((recs_map key val rs)(key (rs ! i) := None)) (key r) = Some (val r)"
      using recs_map_iff [OF assms(1), of val "key r" "val r"] by auto
  next
    fix k
    assume "((recs_map key val rs)(key (rs ! i) := None)) k \<noteq> None"
    then have "recs_map key val rs k \<noteq> None" "k \<noteq> key (rs ! i)" by (auto split: if_splits)
    then obtain r where "r \<in> set rs" "key r = k" by (auto simp: recs_map_None)
    then show "\<exists>r \<in> set (swap_remove rs i). key r = k"
      using st \<open>k \<noteq> key (rs ! i)\<close> by auto
  qed
qed

subsection \<open>Records found through an index\<close>

definition keyed ::
  "('ix \<Rightarrow> bytes \<Rightarrow> nat option) \<Rightarrow> ('r \<Rightarrow> bytes) \<Rightarrow> 'r list \<Rightarrow> 'ix \<Rightarrow> bool" where
  "keyed look key rs ix \<longleftrightarrow> (\<forall>k i. look ix k = Some i \<longleftrightarrow> i < length rs \<and> key (rs ! i) = k)"

lemma keyed_nth: "keyed look key rs ix \<Longrightarrow> i < length rs \<Longrightarrow> look ix (key (rs ! i)) = Some i"
  by (simp add: keyed_def)

lemma keyed_distinct: "keyed look key rs ix \<Longrightarrow> distinct (map key rs)"
  unfolding distinct_conv_nth by (metis keyed_nth length_map nth_map option.inject)

lemma keyed_None: "keyed look key rs ix \<Longrightarrow> look ix k = None \<longleftrightarrow> (\<forall>r \<in> set rs. key r \<noteq> k)"
proof (cases "look ix k")
  case None
  assume kd: "keyed look key rs ix"
  have "key (rs ! i) \<noteq> k" if "i < length rs" for i
    using kd None that unfolding keyed_def by (metis option.distinct(1))
  then have "\<forall>r \<in> set rs. key r \<noteq> k"
    by (metis in_set_conv_nth)
  then show ?thesis
    using None by simp
next
  case (Some i)
  assume "keyed look key rs ix"
  then have "i < length rs" "key (rs ! i) = k"
    using Some unfolding keyed_def by simp_all
  then show ?thesis
    using Some nth_mem by fastforce
qed

lemma keyed_card: "keyed look key rs ix \<Longrightarrow> card (dom (look ix)) = length rs"
proof -
  assume k: "keyed look key rs ix"
  then have "dom (look ix) = set (map key rs)"
    using keyed_None [OF k] by (auto simp: dom_def)
  then show ?thesis
    using distinct_card [OF keyed_distinct [OF k]] by simp
qed

lemma keyed_snoc:
  assumes "keyed look key rs ix" "look ix k = None" "look ix' = (look ix)(k \<mapsto> length rs)" "key r = k"
  shows "keyed look key (rs @ [r]) ix'"
proof -
  have "\<forall>i < length rs. key (rs ! i) \<noteq> k"
    using assms(2) keyed_None [OF assms(1), of k] by auto
  then show ?thesis
    using assms unfolding keyed_def by (auto simp: nth_append less_Suc_eq)
qed

lemma keyed_update:
  assumes "keyed look key rs ix" "i < length rs" "key r = key (rs ! i)"
  shows "keyed look key (rs[i := r]) ix"
  using assms unfolding keyed_def by (auto simp: nth_list_update)

lemma keyed_swap_remove:
  assumes k: "keyed look key rs ix" and i: "i < length rs"
    and last: "i = length rs - 1 \<Longrightarrow> look ix' = (look ix)(key (rs ! i) := None)"
    and mid: "i \<noteq> length rs - 1 \<Longrightarrow>
      look ix' = (look ix)(key (rs ! i) := None, key (rs ! (length rs - 1)) \<mapsto> i)"
  shows "keyed look key (swap_remove rs i) ix'"
proof -
  let ?n = "length rs - 1"
  have uniq: "\<And>j j'. j < length rs \<Longrightarrow> j' < length rs \<Longrightarrow> key (rs ! j) = key (rs ! j') \<Longrightarrow> j = j'"
    using k unfolding keyed_def by (metis option.inject)
  show ?thesis
  proof (cases "i = ?n")
    case True
    have "look ix' k' = Some j \<longleftrightarrow> j < ?n \<and> key (rs ! j) = k'" for k' j
      using last [OF True] k i True uniq [of i j] unfolding keyed_def by (cases "j = ?n") auto
    then show ?thesis
      unfolding keyed_def using True by (auto simp: nth_swap_remove)
  next
    case False
    have n: "?n < length rs" using i by simp
    have un: "key (rs ! j) \<noteq> key (rs ! ?n)" if "j < ?n" for j
      using uniq [OF _ n, of j] that by fastforce
    have ui: "key (rs ! j) \<noteq> key (rs ! i)" if "j < ?n" "j \<noteq> i" for j
      using uniq [OF _ i, of j] that by fastforce
    have "look ix' k' = Some j \<longleftrightarrow>
        j < ?n \<and> key (if j = i then rs ! ?n else rs ! j) = k'" for k' j
    proof (cases "k' = key (rs ! ?n)")
      case True
      have "j = i" if "j < ?n" "key (if j = i then rs ! ?n else rs ! j) = k'"
        using that True un [of j] by (auto split: if_splits)
      then show ?thesis
        using mid [OF False] True i False by auto
    next
      case kn: False
      have old: "look ix k' = Some j \<longleftrightarrow> j < length rs \<and> key (rs ! j) = k'"
        using k by (simp add: keyed_def)
      show ?thesis
      proof (cases "k' = key (rs ! i)")
        case True
        then have "look ix' k' = None" using mid [OF False] kn by simp
        moreover have "\<not> (j < ?n \<and> key (if j = i then rs ! ?n else rs ! j) = k')"
          using True kn ui [of j] by (cases "j = i") auto
        ultimately show ?thesis by simp
      next
        case ki: False
        then have "look ix' k' = look ix k'" using mid [OF False] kn by simp
        then show ?thesis using old kn ki by (cases "j = ?n"; cases "j = i") auto
      qed
    qed
    then show ?thesis
      unfolding keyed_def by (auto simp: nth_swap_remove)
  qed
qed

text \<open>
  The contract of the index towards its containers: a finite map from keys to record positions.
  An insertion fails only when the allocator does or when the index already holds \<open>2 ^ 27\<close>
  entries, and a failed insertion leaves the index as it was (the caller keeps the old one).
\<close>

locale string_index =
  fixes inv :: "'ix \<Rightarrow> bool"
    and look :: "'ix \<Rightarrow> bytes \<Rightarrow> nat option"
    and find :: "'ix \<Rightarrow> bytes \<Rightarrow> nat option option"
    and pos :: "'ix \<Rightarrow> nat \<Rightarrow> nat"
    and insert :: "allocs \<Rightarrow> 'ix \<Rightarrow> bytes \<Rightarrow> nat \<Rightarrow> ('ix option \<times> allocs) option"
    and erase :: "'ix \<Rightarrow> nat \<Rightarrow> 'ix option"
    and move :: "'ix \<Rightarrow> bytes \<Rightarrow> nat \<Rightarrow> 'ix option"
  assumes find_law: "inv ix \<Longrightarrow> find ix k = Some None \<and> look ix k = None \<or>
      (\<exists>p. find ix k = Some (Some p) \<and> look ix k = Some (pos ix p))"
    and insert_law: "inv ix \<Longrightarrow> look ix k = None \<Longrightarrow>
      (\<exists>al'. insert al ix k i = Some (None, al') \<and> set al' \<subseteq> set al \<and>
        (\<not> fst (next_alloc al) \<or> 2 ^ 27 \<le> card (dom (look ix)))) \<or>
      (\<exists>ix' al'. insert al ix k i = Some (Some ix', al') \<and> set al' \<subseteq> set al \<and>
        inv ix' \<and> look ix' = (look ix)(k \<mapsto> i))"
    and erase_law: "inv ix \<Longrightarrow> find ix k = Some (Some p) \<Longrightarrow>
      \<exists>ix'. erase ix p = Some ix' \<and> inv ix' \<and> look ix' = (look ix)(k := None)"
    and move_law: "inv ix \<Longrightarrow> look ix k \<noteq> None \<Longrightarrow>
      \<exists>ix'. move ix k i = Some ix' \<and> inv ix' \<and> look ix' = (look ix)(k \<mapsto> i)"
    and size_law: "inv ix \<Longrightarrow> card (dom (look ix)) < 2 ^ 29"
begin

lemma find_keyed:
  assumes "inv ix" "keyed look key rs ix"
  obtains (absent) "find ix k = Some None" "look ix k = None" "\<forall>r \<in> set rs. key r \<noteq> k"
    | (present) p i where "find ix k = Some (Some p)" "pos ix p = i" "i < length rs" "key (rs ! i) = k"
  using find_law [OF assms(1), of k]
proof (elim disjE exE conjE)
  assume "find ix k = Some None" "look ix k = None"
  then show ?thesis
    using absent keyed_None [OF assms(2), of k] by simp
next
  fix p
  assume "find ix k = Some (Some p)" "look ix k = Some (pos ix p)"
  then show ?thesis
    using present [of p "pos ix p"] assms(2) by (simp add: keyed_def)
qed

lemma keyed_length: "inv ix \<Longrightarrow> keyed look key rs ix \<Longrightarrow> length rs < 2 ^ 29"
  using size_law keyed_card by metis

lemma append_keyed:
  assumes "inv ix" "keyed look key rs ix" "look ix k = None"
  obtains (fail) al' where "insert al ix k (length rs) = Some (None, al')" "set al' \<subseteq> set al"
      "\<not> fst (next_alloc al) \<or> 2 ^ 27 \<le> length rs"
    | (ok) ix' al' where "insert al ix k (length rs) = Some (Some ix', al')" "set al' \<subseteq> set al" "inv ix'"
      "\<And>r. key r = k \<Longrightarrow> keyed look key (rs @ [r]) ix'"
  using insert_law [OF assms(1,3), of al "length rs"] unfolding keyed_card [OF assms(2)]
proof (elim disjE exE conjE, goal_cases)
  case (1 al')
  then show ?thesis using fail [of al'] by simp
next
  case (2 al')
  then show ?thesis using fail [of al'] by simp
next
  case (3 ix' al')
  then show ?thesis using ok [of ix' al'] keyed_snoc [OF assms(2,3)] by simp
qed

text \<open>Erasing a record: forget its key, then redirect the key of the record that moved.\<close>

lemma remove_keyed:
  assumes inv: "inv ix" and k: "keyed look key rs ix"
    and find: "find ix k = Some (Some p)" and i: "pos ix p = i"
  obtains ix1 ix' where "erase ix p = Some ix1" "i < length rs" "key (rs ! i) = k"
    "(if i \<noteq> length rs - 1 then move ix1 (key (rs ! (length rs - 1))) i else Some ix1) = Some ix'"
    "inv ix'" "keyed look key (swap_remove rs i) ix'"
proof -
  have pi: "i < length rs" "key (rs ! i) = k"
    by (rule find_keyed [OF inv k, of k]; use find i in simp)+
  obtain ix1 where ix1: "erase ix p = Some ix1" "inv ix1" "look ix1 = (look ix)(k := None)"
    using erase_law [OF inv find] by blast
  show ?thesis
  proof (cases "i = length rs - 1")
    case True
    have "look ix1 = (look ix)(key (rs ! i) := None)"
      by (simp only: ix1(3) pi(2))
    then have "keyed look key (swap_remove rs i) ix1"
      by (rule keyed_swap_remove [OF k pi(1)]) (use True in blast)
    with True show ?thesis
      by (intro that [OF ix1(1) pi _ ix1(2)]) (rule if_not_P, simp)
  next
    case False
    let ?kl = "key (rs ! (length rs - 1))"
    have n: "length rs - 1 < length rs" using pi(1) by simp
    have "?kl \<noteq> k"
    proof
      assume "?kl = k"
      then have "Some i = Some (length rs - 1)"
        using keyed_nth [OF k pi(1)] keyed_nth [OF k n] unfolding pi(2) by argo
      then show False using False by simp
    qed
    then have "look ix1 ?kl \<noteq> None"
      using keyed_nth [OF k n] by (simp add: ix1(3))
    then obtain ix' where ix': "move ix1 ?kl i = Some ix'" "inv ix'" "look ix' = (look ix1)(?kl \<mapsto> i)"
      using move_law [OF ix1(2)] by blast
    have "keyed look key (swap_remove rs i) ix'"
      by (rule keyed_swap_remove [OF k pi(1)]) (use False in blast, simp only: ix'(3) ix1(3) pi(2))
    moreover have "(if i \<noteq> length rs - 1 then move ix1 ?kl i else Some ix1) = Some ix'"
      using False ix'(1) by argo
    ultimately show ?thesis
      by (rule that [OF ix1(1) pi _ ix'(2), rotated])
  qed
qed

end

text \<open>\<open>dyn_ix\<close> under the seeded hash meets the contract.\<close>

lemma ix_used_bound: "ix_inv H ix \<Longrightarrow> ix_used ix < 2 ^ 29"
  by (auto simp: ix_inv_def ix_load_def split: if_splits)

interpretation ix: string_index "ix_inv (ix_hash s0 s1)" ix_look
  "\<lambda>ix k. ix_find ix (ix_hash s0 s1 k) k" "\<lambda>ix p. sl_idx (ix_slot ix ! p)"
  "\<lambda>al ix k. ix_insert al ix (ix_hash s0 s1 k) k" ix_erase "\<lambda>ix k. ix_move ix (ix_hash s0 s1 k) k"
  for s0 s1
proof (unfold_locales, goal_cases)
  case (1 ix k)
  show ?case by (rule ds_hash.ix_find_cases [OF 1, of k]) simp_all
next
  case (2 ix k al i)
  show ?case
    unfolding ix_used_card [OF 2(1), symmetric]
    by (rule ds_hash.ix_insert_spec [OF 2, of al i]) simp_all
next
  case (3 ix k p)
  show ?case by (rule ds_hash.ix_erase_spec [OF 3]) simp
next
  case (4 ix k i)
  show ?case by (rule ds_hash.ix_move_spec [OF 4, of i]) simp
next
  case (5 ix)
  then show ?case using ix_used_card [OF 5] ix_used_bound [OF 5] by simp
qed

end
