(* ===== verification/DsMultiset.thy ===== *)
theory DsMultiset
  imports DsStore
begin

text \<open>
  The counting multiset \<open>dyn_mset\<close> of \<open>src/core/dyn-ds.c\<close>: a record array with a \<open>uint64_t\<close>
  count per key, found through a \<open>dyn_ix\<close>, and a running total. The number of records is the
  length of \<open>ms_rec\<close>. The abstraction \<open>mset_abs\<close> is a HOL multiset of keys; every operation is
  shown to return, to keep \<open>mset_inv\<close> and to act on \<open>mset_abs\<close> as its name says, with counts
  clamped to the range of a \<open>uint64_t\<close>.
\<close>

subsection \<open>Model\<close>

record mset_rec =
  mr_key :: ds_key
  mr_count :: u64

record dyn_mset =
  ms_rec :: "mset_rec list"
  ms_cap :: nat
  ms_ix :: dyn_ix
  ms_total :: u64

abbreviation mr_bytes :: "mset_rec \<Rightarrow> bytes" where
  "mr_bytes r \<equiv> dk_p (mr_key r)"

text \<open>The zeroed structure that \<open>ds_calloc\<close> returns.\<close>

definition mset_zero :: dyn_mset where
  "mset_zero = \<lparr>ms_rec = [], ms_cap = 0, ms_ix = ix_empty, ms_total = 0\<rparr>"

definition dyn_mset_new :: "allocs \<Rightarrow> dyn_mset option \<times> allocs" where
  "dyn_mset_new al =
     (case next_alloc al of (ok, al') \<Rightarrow> (if ok then Some mset_zero else None, al'))"

definition dyn_mset_clear :: "dyn_mset \<Rightarrow> dyn_mset" where
  "dyn_mset_clear m = m\<lparr>ms_rec := [], ms_total := 0, ms_ix := ix_free (ms_ix m)\<rparr>"

definition mset_erase :: "dyn_mset \<Rightarrow> nat \<Rightarrow> nat \<Rightarrow> dyn_mset option" where
  "mset_erase m i pos = do {
     ix \<leftarrow> ix_erase (ms_ix m) pos;
     let len = length (ms_rec m) - 1;
     let last = ms_rec m ! len;
     ix' \<leftarrow> (if i \<noteq> len then ix_move ix (dk_h (mr_key last)) (mr_bytes last) i else Some ix);
     Some (m\<lparr>ms_rec := swap_remove (ms_rec m) i, ms_ix := ix'\<rparr>)
   }"

text \<open>
  The tail that \<open>dyn_mset_add\<close> and \<open>dyn_mset_set_count\<close> have in common: grow the array, copy the
  key, index it and append the record. The flag is the success of the call; on a failure the
  capacity may have grown already.
\<close>

definition mset_append ::
  "allocs \<Rightarrow> dyn_mset \<Rightarrow> bytes \<Rightarrow> u64 \<Rightarrow> u64 \<Rightarrow> (bool \<times> dyn_mset \<times> allocs) option" where
  "mset_append al m k h c = do {
     (r, al) \<leftarrow> ds_reserve al (ms_cap m) ((length (ms_rec m) + 1) mod 2 ^ 32) 32;
     case r of
       None \<Rightarrow> Some (False, m, al)
     | Some cap \<Rightarrow>
         let m = m\<lparr>ms_cap := cap\<rparr> in
         (case key_init al k h of
            (None, al) \<Rightarrow> Some (False, m, al)
          | (Some key, al) \<Rightarrow> do {
              (r, al) \<leftarrow> ix_insert al (ms_ix m) h (dk_p key) (length (ms_rec m));
              case r of
                None \<Rightarrow> Some (False, m, al)
              | Some ix \<Rightarrow>
                  Some (True, m\<lparr>ms_rec := ms_rec m @ [\<lparr>mr_key = key, mr_count = c\<rparr>], ms_ix := ix,
                    ms_total := u64_sat_add (ms_total m) c\<rparr>, al)
            })
   }"

text \<open>\<open>Some v\<close> is the return value 0 with \<open>*out = v\<close>; \<open>None\<close> is the return value \<open>-1\<close>.\<close>

definition dyn_mset_add ::
  "u64 \<Rightarrow> u64 \<Rightarrow> allocs \<Rightarrow> dyn_mset \<Rightarrow> bytes \<Rightarrow> u64 \<Rightarrow> (u64 option \<times> dyn_mset \<times> allocs) option" where
  "dyn_mset_add s0 s1 al m k delta = do {
     let h = ix_hash s0 s1 k;
     pos \<leftarrow> ix_find (ms_ix m) h k;
     let idx = (case pos of None \<Rightarrow> None | Some p \<Rightarrow> Some (sl_idx (ix_slot (ms_ix m) ! p)));
     let cur = (case idx of None \<Rightarrow> 0 | Some i \<Rightarrow> mr_count (ms_rec m ! i));
     if delta <s 0 then
       let sub = - (delta + 1) + 1;
           nv = (if sub \<ge> cur then 0 else cur - sub);
           m = m\<lparr>ms_total := ms_total m - (cur - nv)\<rparr>
       in (case (pos, idx) of
             (Some p, Some i) \<Rightarrow>
               if nv = 0 then do { m' \<leftarrow> mset_erase m i p; Some (Some nv, m', al) }
               else Some (Some nv, m\<lparr>ms_rec := (ms_rec m)[i := (ms_rec m ! i)\<lparr>mr_count := nv\<rparr>]\<rparr>, al)
           | _ \<Rightarrow> Some (Some nv, m, al))
     else if delta = 0 then Some (Some cur, m, al)
     else (case idx of
       Some i \<Rightarrow>
         let nc = u64_sat_add cur delta
         in Some (Some nc, m\<lparr>ms_total := u64_sat_add (ms_total m) (nc - cur),
              ms_rec := (ms_rec m)[i := (ms_rec m ! i)\<lparr>mr_count := nc\<rparr>]\<rparr>, al)
     | None \<Rightarrow> do {
         (ok, m', al') \<leftarrow> mset_append al m k h delta;
         Some (if ok then Some delta else None, m', al')
       })
   }"

definition dyn_mset_set_count ::
  "u64 \<Rightarrow> u64 \<Rightarrow> allocs \<Rightarrow> dyn_mset \<Rightarrow> bytes \<Rightarrow> u64 \<Rightarrow> (bool \<times> dyn_mset \<times> allocs) option" where
  "dyn_mset_set_count s0 s1 al m k c = do {
     let h = ix_hash s0 s1 k;
     pos \<leftarrow> ix_find (ms_ix m) h k;
     case pos of
       Some p \<Rightarrow>
         let i = sl_idx (ix_slot (ms_ix m) ! p);
             m = m\<lparr>ms_total := u64_sat_add (ms_total m - mr_count (ms_rec m ! i)) c\<rparr>
         in if c = 0 then do { m' \<leftarrow> mset_erase m i p; Some (True, m', al) }
            else Some (True, m\<lparr>ms_rec := (ms_rec m)[i := (ms_rec m ! i)\<lparr>mr_count := c\<rparr>]\<rparr>, al)
     | None \<Rightarrow> if c = 0 then Some (True, m, al) else mset_append al m k h c
   }"

definition dyn_mset_count :: "u64 \<Rightarrow> u64 \<Rightarrow> dyn_mset \<Rightarrow> bytes \<Rightarrow> u64 option" where
  "dyn_mset_count s0 s1 m k = do {
     pos \<leftarrow> ix_find (ms_ix m) (ix_hash s0 s1 k) k;
     Some (case pos of None \<Rightarrow> 0 | Some p \<Rightarrow> mr_count (ms_rec m ! sl_idx (ix_slot (ms_ix m) ! p)))
   }"

definition dyn_mset_total :: "dyn_mset \<Rightarrow> u64" where
  "dyn_mset_total m = ms_total m"

definition dyn_mset_distinct :: "dyn_mset \<Rightarrow> nat" where
  "dyn_mset_distinct m = length (ms_rec m)"

definition dyn_mset_at :: "dyn_mset \<Rightarrow> nat \<Rightarrow> (bytes \<times> u64) option" where
  "dyn_mset_at m i =
     (if i \<ge> length (ms_rec m) then None
      else Some (mr_bytes (ms_rec m ! i), mr_count (ms_rec m ! i)))"

subsection \<open>Abstraction and invariant\<close>

definition mr_abs :: "mset_rec \<Rightarrow> bytes multiset" where
  "mr_abs r = replicate_mset (unat (mr_count r)) (mr_bytes r)"

definition recs_abs :: "mset_rec list \<Rightarrow> bytes multiset" where
  "recs_abs rs = sum_mset (image_mset mr_abs (mset rs))"

definition mset_abs :: "dyn_mset \<Rightarrow> bytes multiset" where
  "mset_abs m = recs_abs (ms_rec m)"

definition mput :: "bytes multiset \<Rightarrow> bytes \<Rightarrow> nat \<Rightarrow> bytes multiset" where
  "mput M k n = filter_mset (\<lambda>x. x \<noteq> k) M + replicate_mset n k"

definition mset_inv :: "u64 \<Rightarrow> u64 \<Rightarrow> dyn_mset \<Rightarrow> bool" where
  "mset_inv s0 s1 m \<longleftrightarrow>
     ix_inv (ix_hash s0 s1) (ms_ix m) \<and> keyed ix_look mr_bytes (ms_rec m) (ms_ix m) \<and>
     cap_ok (ms_cap m) \<and> length (ms_rec m) \<le> ms_cap m \<and>
     (\<forall>r \<in> set (ms_rec m). dk_h (mr_key r) = ix_hash s0 s1 (mr_bytes r) \<and> mr_count r \<noteq> 0)"

text \<open>The running total is exact.\<close>

definition mset_exact :: "dyn_mset \<Rightarrow> bool" where
  "mset_exact m \<longleftrightarrow> unat (ms_total m) = size (mset_abs m)"

subsection \<open>Counts of the record array\<close>

lemma count_mput: "count (mput M k n) k' = (if k' = k then n else count M k')"
  by (simp add: mput_def)

lemma mput_same: "count M k = n \<Longrightarrow> mput M k n = M"
  by (rule multiset_eqI) (simp add: count_mput)

lemma size_mput: "size (mput M k n) + count M k = size M + n"
proof -
  have "M = filter_mset (\<lambda>x. x \<noteq> k) M + replicate_mset (count M k) k"
    by (rule multiset_eqI) simp
  then have "size M = size (filter_mset (\<lambda>x. x \<noteq> k) M) + count M k"
    by (metis size_replicate_mset size_union)
  then show ?thesis by (simp add: mput_def)
qed

lemma recs_abs_absent:
  assumes "\<forall>r \<in> set rs. mr_bytes r \<noteq> k"
  shows "count (recs_abs rs) k = 0" "filter_mset (\<lambda>x. x \<noteq> k) (recs_abs rs) = recs_abs rs"
proof -
  show c: "count (recs_abs rs) k = 0"
    using assms by (induction rs) (auto simp: recs_abs_def mr_abs_def)
  then show "filter_mset (\<lambda>x. x \<noteq> k) (recs_abs rs) = recs_abs rs"
    by (intro multiset_eqI) auto
qed

lemma recs_abs_snoc [simp]: "recs_abs (rs @ [r]) = recs_abs rs + mr_abs r"
  by (simp add: recs_abs_def)

lemma recs_abs_swap:
  assumes "i < length rs"
  shows "recs_abs rs = recs_abs (swap_remove rs i) + mr_abs (rs ! i)"
    and "recs_abs (rs[i := r]) = recs_abs (swap_remove rs i) + mr_abs r"
proof -
  have "mset rs = add_mset (rs ! i) (mset (swap_remove rs i))"
    using assms by (simp add: mset_swap_remove)
  then show "recs_abs rs = recs_abs (swap_remove rs i) + mr_abs (rs ! i)"
    by (simp add: recs_abs_def)
  have "mset (rs[i := r]) = add_mset r (mset (swap_remove rs i))"
    using assms by (simp add: mset_swap_remove mset_update)
  then show "recs_abs (rs[i := r]) = recs_abs (swap_remove rs i) + mr_abs r"
    by (simp add: recs_abs_def)
qed

lemma recs_abs_present:
  assumes "distinct (map mr_bytes rs)" "i < length rs" "mr_bytes (rs ! i) = k"
  shows "count (recs_abs rs) k = unat (mr_count (rs ! i))"
    and "recs_abs (swap_remove rs i) = mput (recs_abs rs) k 0"
    and "mr_bytes r = k \<Longrightarrow> recs_abs (rs[i := r]) = mput (recs_abs rs) k (unat (mr_count r))"
proof -
  have "recs_map mr_bytes mr_count (swap_remove rs i) k = None"
    using recs_map_swap_remove(1) [OF assms(1,2), of mr_count] assms(3) by simp
  then have "\<forall>r \<in> set (swap_remove rs i). mr_bytes r \<noteq> k"
    by (simp add: recs_map_None)
  note absent = recs_abs_absent [OF this]
  show "count (recs_abs rs) k = unat (mr_count (rs ! i))"
    using absent(1) assms(3) by (subst recs_abs_swap(1) [OF assms(2)]) (simp add: mr_abs_def)
  show del: "recs_abs (swap_remove rs i) = mput (recs_abs rs) k 0"
    using absent(2) assms(3) by (subst recs_abs_swap(1) [OF assms(2)]) (simp add: mput_def mr_abs_def)
  show "mr_bytes r = k \<Longrightarrow> recs_abs (rs[i := r]) = mput (recs_abs rs) k (unat (mr_count r))"
    using del by (simp add: recs_abs_swap(2) [OF assms(2)] mr_abs_def mput_def)
qed

subsection \<open>The operations on the record array\<close>

lemma mset_inv_total [simp]: "mset_inv s0 s1 (m\<lparr>ms_total := t\<rparr>) = mset_inv s0 s1 m"
  by (simp add: mset_inv_def)

lemma mset_abs_total [simp]: "mset_abs (m\<lparr>ms_total := t\<rparr>) = mset_abs m"
  by (simp add: mset_abs_def)

lemma mset_inv_len: "mset_inv s0 s1 m \<Longrightarrow> length (ms_rec m) < 2 ^ 29"
  using ix.keyed_length unfolding mset_inv_def by blast

lemma mset_find:
  assumes "mset_inv s0 s1 m"
  obtains (absent) "ix_find (ms_ix m) (ix_hash s0 s1 k) k = Some None" "ix_look (ms_ix m) k = None"
      "\<forall>r \<in> set (ms_rec m). mr_bytes r \<noteq> k" "count (mset_abs m) k = 0"
    | (present) p i where "ix_find (ms_ix m) (ix_hash s0 s1 k) k = Some (Some p)"
      "sl_idx (ix_slot (ms_ix m) ! p) = i" "i < length (ms_rec m)" "mr_bytes (ms_rec m ! i) = k"
      "count (mset_abs m) k = unat (mr_count (ms_rec m ! i))"
proof -
  have inv: "ix_inv (ix_hash s0 s1) (ms_ix m)" "keyed ix_look mr_bytes (ms_rec m) (ms_ix m)"
    using assms by (auto simp: mset_inv_def)
  show ?thesis
  proof (rule ix.find_keyed [OF inv, of k])
    assume a: "ix_find (ms_ix m) (ix_hash s0 s1 k) k = Some None" "ix_look (ms_ix m) k = None"
      "\<forall>r \<in> set (ms_rec m). mr_bytes r \<noteq> k"
    show ?thesis
      using absent [OF a] recs_abs_absent(1) [OF a(3)] by (simp add: mset_abs_def)
  next
    fix p i
    assume a: "ix_find (ms_ix m) (ix_hash s0 s1 k) k = Some (Some p)"
      "sl_idx (ix_slot (ms_ix m) ! p) = i" "i < length (ms_rec m)" "mr_bytes (ms_rec m ! i) = k"
    show ?thesis
      using present [OF a] recs_abs_present(1) [OF keyed_distinct [OF inv(2)] a(3,4)]
      by (simp add: mset_abs_def)
  qed
qed

lemma mset_erase_ok:
  assumes inv: "mset_inv s0 s1 m" and find: "ix_find (ms_ix m) (ix_hash s0 s1 k) k = Some (Some p)"
    and i: "sl_idx (ix_slot (ms_ix m) ! p) = i"
  obtains m' where "mset_erase m i p = Some m'" "mset_inv s0 s1 m'"
    "mset_abs m' = mput (mset_abs m) k 0" "ms_total m' = ms_total m"
proof -
  let ?rs = "ms_rec m"
  have a: "ix_inv (ix_hash s0 s1) (ms_ix m)" "keyed ix_look mr_bytes ?rs (ms_ix m)"
    using inv by (auto simp: mset_inv_def)
  obtain ix1 ix' where r: "ix_erase (ms_ix m) p = Some ix1" "i < length ?rs" "mr_bytes (?rs ! i) = k"
    "(if i \<noteq> length ?rs - 1 then ix_move ix1 (ix_hash s0 s1 (mr_bytes (?rs ! (length ?rs - 1))))
       (mr_bytes (?rs ! (length ?rs - 1))) i else Some ix1) = Some ix'"
    "ix_inv (ix_hash s0 s1) ix'" "keyed ix_look mr_bytes (swap_remove ?rs i) ix'"
    by (rule ix.remove_keyed [OF a find i])
  have last: "?rs ! (length ?rs - 1) \<in> set ?rs"
    using r(2) by (intro nth_mem) simp
  then have "dk_h (mr_key (?rs ! (length ?rs - 1))) = ix_hash s0 s1 (mr_bytes (?rs ! (length ?rs - 1)))"
    using inv by (simp add: mset_inv_def)
  then have "mset_erase m i p = Some (m\<lparr>ms_rec := swap_remove ?rs i, ms_ix := ix'\<rparr>)"
    using r(1,4) by (cases "i = length ?rs - 1") (simp_all add: mset_erase_def Let_def cong: if_cong)
  then show ?thesis
  proof (rule that)
    show "mset_inv s0 s1 (m\<lparr>ms_rec := swap_remove ?rs i, ms_ix := ix'\<rparr>)"
      using inv r(2,5,6) mset_swap_remove [OF r(2)] by (auto simp: mset_inv_def dest: set_swap_remove_subset)
    show "mset_abs (m\<lparr>ms_rec := swap_remove ?rs i, ms_ix := ix'\<rparr>) = mput (mset_abs m) k 0"
      using recs_abs_present(2) [OF keyed_distinct [OF a(2)] r(2,3)] by (simp add: mset_abs_def)
  qed simp
qed

lemma mset_update_ok:
  assumes inv: "mset_inv s0 s1 m" and i: "i < length (ms_rec m)" "mr_bytes (ms_rec m ! i) = k" and c: "c \<noteq> 0"
  shows "mset_inv s0 s1 (m\<lparr>ms_rec := (ms_rec m)[i := (ms_rec m ! i)\<lparr>mr_count := c\<rparr>]\<rparr>)"
    and "mset_abs (m\<lparr>ms_rec := (ms_rec m)[i := (ms_rec m ! i)\<lparr>mr_count := c\<rparr>]\<rparr>) =
      mput (mset_abs m) k (unat c)"
proof -
  have a: "keyed ix_look mr_bytes (ms_rec m) (ms_ix m)"
    using inv by (auto simp: mset_inv_def)
  show "mset_inv s0 s1 (m\<lparr>ms_rec := (ms_rec m)[i := (ms_rec m ! i)\<lparr>mr_count := c\<rparr>]\<rparr>)"
    using inv i c keyed_update [OF a i(1)] nth_mem [OF i(1)]
    by (auto simp: mset_inv_def dest!: subsetD [OF set_update_subset_insert])
  show "mset_abs (m\<lparr>ms_rec := (ms_rec m)[i := (ms_rec m ! i)\<lparr>mr_count := c\<rparr>]\<rparr>) =
      mput (mset_abs m) k (unat c)"
    using recs_abs_present(3) [OF keyed_distinct [OF a] i] i(2) by (simp add: mset_abs_def)
qed

lemma mset_append_ok:
  assumes inv: "mset_inv s0 s1 m" and new: "ix_look (ms_ix m) k = None"
    "\<forall>r \<in> set (ms_rec m). mr_bytes r \<noteq> k" and c: "c \<noteq> 0"
  obtains (fail) m' al' where "mset_append al m k (ix_hash s0 s1 k) c = Some (False, m', al')"
      "mset_inv s0 s1 m'" "mset_abs m' = mset_abs m" "ms_total m' = ms_total m"
      "False \<in> set al \<or> 2 ^ 27 \<le> length (ms_rec m)"
    | (ok) m' al' where "mset_append al m k (ix_hash s0 s1 k) c = Some (True, m', al')"
      "mset_inv s0 s1 m'" "mset_abs m' = mput (mset_abs m) k (unat c)"
      "ms_total m' = u64_sat_add (ms_total m) c"
proof -
  let ?len = "length (ms_rec m)"
  have a: "ix_inv (ix_hash s0 s1) (ms_ix m)" "keyed ix_look mr_bytes (ms_rec m) (ms_ix m)" "cap_ok (ms_cap m)"
    using inv by (auto simp: mset_inv_def)
  have need: "(?len + 1) mod 2 ^ 32 = ?len + 1" "?len + 1 \<le> 2 ^ 31"
    using mset_inv_len [OF inv] by auto
  show ?thesis
  proof (rule ds_reserve_cases [OF a(3) need(2), of 32 al])
    fix al1
    assume "ds_reserve al (ms_cap m) (?len + 1) 32 = Some (None, al1)" "\<not> fst (next_alloc al)"
    then show ?thesis
      using inv need by (intro fail) (auto simp: mset_append_def next_alloc_False)
  next
    fix nc al1
    assume res: "ds_reserve al (ms_cap m) (?len + 1) 32 = Some (Some nc, al1)" "cap_ok nc" "?len + 1 \<le> nc"
      "?len + 1 \<le> ms_cap m \<Longrightarrow> nc = ms_cap m \<and> al1 = al" "ms_cap m < ?len + 1 \<Longrightarrow> al1 = snd (next_alloc al)"
    have sub: "set al1 \<subseteq> set al" using res(4,5) next_alloc_set [of al] by (cases "ms_cap m < ?len + 1") auto
    have inv1: "mset_inv s0 s1 (m\<lparr>ms_cap := nc\<rparr>)"
      using inv res(2,3) by (simp add: mset_inv_def)
    obtain b al2 where na: "next_alloc al1 = (b, al2)" by fastforce
    have sub2: "set al2 \<subseteq> set al" using next_alloc_set [of al1] na sub by auto
    show ?thesis
    proof (cases b)
      case False
      then have "False \<in> set al"
        using next_alloc_False [of al1] na sub by auto
      with False show ?thesis
        using inv1 res(1) need na by (intro fail [of "m\<lparr>ms_cap := nc\<rparr>"]) (auto simp: mset_append_def key_init_def mset_abs_def)
    next
      case True
      then have key: "key_init al1 k (ix_hash s0 s1 k) = (Some \<lparr>dk_p = k, dk_h = ix_hash s0 s1 k\<rparr>, al2)"
        by (simp add: key_init_def na)
      show ?thesis
      proof (rule ix.append_keyed [OF a(1,2) new(1), of al2])
        fix al3
        assume "ix_insert al2 (ms_ix m) (ix_hash s0 s1 k) k ?len = Some (None, al3)"
          "\<not> fst (next_alloc al2) \<or> 2 ^ 27 \<le> ?len"
        then show ?thesis
          using inv1 res(1) need key sub2 next_alloc_False [of al2]
          by (intro fail [of "m\<lparr>ms_cap := nc\<rparr>"]) (auto simp: mset_append_def mset_abs_def)
      next
        fix ix' al3
        assume "ix_insert al2 (ms_ix m) (ix_hash s0 s1 k) k ?len = Some (Some ix', al3)"
          "ix_inv (ix_hash s0 s1) ix'" "\<And>r. mr_bytes r = k \<Longrightarrow> keyed ix_look mr_bytes (ms_rec m @ [r]) ix'"
        then show ?thesis
          using inv1 res need key recs_abs_absent(2) [OF new(2)] c
          by (intro ok) (auto simp: mset_append_def mset_abs_def mput_def mr_abs_def mset_inv_def)
      qed
    qed
  qed simp_all
qed

subsection \<open>Signed deltas\<close>

definition u64_clamp :: "int \<Rightarrow> nat" where
  "u64_clamp z = nat (max 0 (min z (2 ^ 64 - 1)))"

lemma neg_delta:
  fixes d :: u64
  assumes "d <s 0"
  shows "int (unat (- (d + 1) + 1)) = - sint d"
proof -
  have neg: "sint d < 0" using assms by (simp add: word_sless_alt)
  have "- (d + 1) + 1 = word_of_int (- sint d)"
    by simp
  then have "uint (- (d + 1) + 1) = (- sint d) mod 2 ^ 64"
    by (simp only: uint_word_of_int) simp
  moreover have "- (2 ^ 63) \<le> sint d"
    using sint_greater_eq [of d] by simp
  ultimately show ?thesis
    using neg by (simp add: int_nat_eq uint_nat [symmetric] del: of_nat_unat flip: uint_nat)
qed

lemma nonneg_delta:
  fixes d :: u64
  assumes "\<not> d <s 0"
  shows "int (unat d) = sint d"
proof -
  have "0 \<le> sint d" "sint d < 2 ^ 63"
    using assms sint_lt [of d] by (simp_all add: word_sless_alt)
  moreover have "uint (word_of_int (sint d) :: u64) = sint d mod 2 ^ 64"
    by (simp only: uint_word_of_int) simp
  ultimately show ?thesis by simp
qed

subsection \<open>Add and set\<close>

lemma mset_distinct_card:
  assumes "mset_inv s0 s1 m"
  shows "dyn_mset_distinct m = card (set_mset (mset_abs m))"
proof -
  have "set_mset (recs_abs rs) = set (map mr_bytes rs)" if "\<forall>r \<in> set rs. mr_count r \<noteq> 0" for rs
    using that by (induction rs) (auto simp: recs_abs_def mr_abs_def unat_eq_0)
  then have "set_mset (mset_abs m) = set (map mr_bytes (ms_rec m))"
    using assms by (simp add: mset_abs_def mset_inv_def)
  moreover have "distinct (map mr_bytes (ms_rec m))"
    using assms keyed_distinct by (auto simp: mset_inv_def)
  ultimately show ?thesis
    using distinct_card [of "map mr_bytes (ms_rec m)"] by (simp add: dyn_mset_distinct_def)
qed

lemma mset_zero_ok: "mset_inv s0 s1 mset_zero" "mset_abs mset_zero = {#}" "mset_exact mset_zero"
  by (auto simp: mset_zero_def mset_inv_def mset_abs_def recs_abs_def mset_exact_def keyed_def)

lemma mset_clear_ok:
  assumes "mset_inv s0 s1 m"
  shows "mset_inv s0 s1 (dyn_mset_clear m)" "mset_abs (dyn_mset_clear m) = {#}" "mset_exact (dyn_mset_clear m)"
  using assms
  by (auto simp: dyn_mset_clear_def mset_inv_def mset_abs_def recs_abs_def mset_exact_def keyed_def)

lemma mset_add_spec:
  assumes inv: "mset_inv s0 s1 m"
  obtains (fail) m' al' where "dyn_mset_add s0 s1 al m k d = Some (None, m', al')" "mset_inv s0 s1 m'"
      "mset_abs m' = mset_abs m" "ms_total m' = ms_total m" "False \<in> set al \<or> 2 ^ 27 \<le> length (ms_rec m)"
    | (ok) v m' al' where "dyn_mset_add s0 s1 al m k d = Some (Some v, m', al')" "mset_inv s0 s1 m'"
      "unat v = u64_clamp (int (count (mset_abs m) k) + sint d)" "mset_abs m' = mput (mset_abs m) k (unat v)"
      "ms_total m' = (if d <s 0 then ms_total m - (of_nat (count (mset_abs m) k) - v)
        else u64_sat_add (ms_total m) (v - of_nat (count (mset_abs m) k)))"
  using inv
proof (cases rule: mset_find [where k = k])
  case absent
  note [simp] = absent(1) absent(4)
  consider (neg) "d <s 0" | (zero) "\<not> d <s 0" "d = 0" | (pos) "\<not> d <s 0" "d \<noteq> 0" by blast
  then show ?thesis
  proof cases
    case neg
    then have "dyn_mset_add s0 s1 al m k d = Some (Some 0, m, al)"
      by (simp add: dyn_mset_add_def Let_def)
    then show ?thesis
      by (rule ok) (use inv neg in \<open>auto simp: u64_clamp_def mput_same word_sless_alt\<close>)
  next
    case zero
    then have "dyn_mset_add s0 s1 al m k d = Some (Some 0, m, al)"
      by (simp add: dyn_mset_add_def Let_def)
    then show ?thesis
      by (rule ok) (use inv zero in \<open>auto simp: u64_clamp_def mput_same u64_sat_add_def\<close>)
  next
    case pos
    have v: "unat d = u64_clamp (sint d)"
      using nonneg_delta [OF pos(1), symmetric] unat64_less [of d] by (simp add: u64_clamp_def del: of_nat_unat)
    show ?thesis
    proof (rule mset_append_ok [OF inv absent(2,3) pos(2), of al])
      fix m' al'
      assume "mset_append al m k (ix_hash s0 s1 k) d = Some (False, m', al')"
        "mset_inv s0 s1 m'" "mset_abs m' = mset_abs m" "ms_total m' = ms_total m"
        "False \<in> set al \<or> 2 ^ 27 \<le> length (ms_rec m)"
      then show ?thesis
        using pos by (intro fail [of m']) (auto simp: dyn_mset_add_def)
    next
      fix m' al'
      assume "mset_append al m k (ix_hash s0 s1 k) d = Some (True, m', al')"
        "mset_inv s0 s1 m'" "mset_abs m' = mput (mset_abs m) k (unat d)"
        "ms_total m' = u64_sat_add (ms_total m) d"
      then show ?thesis
        using pos v by (intro ok [of d m']) (auto simp: dyn_mset_add_def)
    qed
  qed
next
  case (present p i)
  let ?cur = "mr_count (ms_rec m ! i)"
  have cur0: "?cur \<noteq> 0" using inv present(3) by (simp add: mset_inv_def)
  have cnt: "int (count (mset_abs m) k) = int (unat ?cur)" "of_nat (count (mset_abs m) k) = ?cur"
    using present(5) by simp_all
  consider (neg) "d <s 0" | (zero) "\<not> d <s 0" "d = 0" | (pos) "\<not> d <s 0" "d \<noteq> 0" by blast
  then show ?thesis
  proof cases
    case neg
    define sub where "sub = - (d + 1) + 1"
    define nv where "nv = (if sub \<ge> ?cur then 0 else ?cur - sub)"
    have "unat nv = unat ?cur - unat sub"
      by (auto simp: nv_def word_le_nat_alt unat_sub)
    moreover have "sint d = - int (unat sub)"
      using neg_delta [OF neg] unfolding sub_def by linarith
    ultimately have v: "unat nv = u64_clamp (int (count (mset_abs m) k) + sint d)"
      using unat64_less [of ?cur] by (simp add: u64_clamp_def present(5) del: of_nat_unat)
    let ?m = "m\<lparr>ms_total := ms_total m - (?cur - nv)\<rparr>"
    have add: "dyn_mset_add s0 s1 al m k d = (if nv = 0 then do { m' \<leftarrow> mset_erase ?m i p; Some (Some nv, m', al) }
      else Some (Some nv, ?m\<lparr>ms_rec := (ms_rec m)[i := (ms_rec m ! i)\<lparr>mr_count := nv\<rparr>]\<rparr>, al))"
      using neg present(1,2) by (simp add: dyn_mset_add_def Let_def sub_def nv_def)
    show ?thesis
    proof (cases "nv = 0")
      case True
      show ?thesis
        by (rule mset_erase_ok [of s0 s1 ?m k p i]) (use inv present True add v neg cnt in \<open>auto intro!: ok [of nv]\<close>)
    next
      case False
      then show ?thesis
        using mset_update_ok [of s0 s1 ?m i k nv] inv present(3,4) add v neg cnt
        by (intro ok) auto
    qed
  next
    case zero
    then have "dyn_mset_add s0 s1 al m k d = Some (Some ?cur, m, al)"
      using present(1,2) by (simp add: dyn_mset_add_def Let_def)
    then show ?thesis
    proof (rule ok)
      show "unat ?cur = u64_clamp (int (count (mset_abs m) k) + sint d)"
        using zero unat64_less [of ?cur] by (simp add: u64_clamp_def present(5) del: of_nat_unat)
    qed (use inv zero present(5) cnt(2) in \<open>simp_all add: mput_same u64_sat_add_def\<close>)
  next
    case pos
    define nc where "nc = u64_sat_add ?cur d"
    have v: "unat nc = u64_clamp (int (count (mset_abs m) k) + sint d)"
      using nonneg_delta [OF pos(1), symmetric]
      by (simp add: u64_clamp_def nc_def u64_sat_add_unat present(5) min_def nat_add_distrib del: of_nat_unat)
    have "nc \<noteq> 0"
      using cur0 u64_sat_add_unat [of ?cur d] by (auto simp: nc_def unat_eq_0 [symmetric] simp del: unat_eq_0)
    let ?m = "m\<lparr>ms_total := u64_sat_add (ms_total m) (nc - ?cur)\<rparr>"
    have "dyn_mset_add s0 s1 al m k d =
        Some (Some nc, ?m\<lparr>ms_rec := (ms_rec m)[i := (ms_rec m ! i)\<lparr>mr_count := nc\<rparr>]\<rparr>, al)"
      using present(1,2) pos by (simp add: dyn_mset_add_def nc_def Let_def)
    then show ?thesis
      using mset_update_ok [of s0 s1 ?m i k nc] inv present(3,4) \<open>nc \<noteq> 0\<close> pos v cnt
      by (intro ok [of nc]) auto
  qed
qed

lemma mset_set_count_spec:
  assumes inv: "mset_inv s0 s1 m"
  obtains (fail) m' al' where "dyn_mset_set_count s0 s1 al m k c = Some (False, m', al')" "mset_inv s0 s1 m'"
      "mset_abs m' = mset_abs m" "ms_total m' = ms_total m" "False \<in> set al \<or> 2 ^ 27 \<le> length (ms_rec m)"
    | (ok) m' al' where "dyn_mset_set_count s0 s1 al m k c = Some (True, m', al')" "mset_inv s0 s1 m'"
      "mset_abs m' = mput (mset_abs m) k (unat c)"
      "ms_total m' = u64_sat_add (ms_total m - of_nat (count (mset_abs m) k)) c"
  using inv
proof (cases rule: mset_find [where k = k])
  case absent
  show ?thesis
  proof (cases "c = 0")
    case True
    then have "dyn_mset_set_count s0 s1 al m k c = Some (True, m, al)"
      using absent(1) by (simp add: dyn_mset_set_count_def)
    then show ?thesis
      by (rule ok) (use inv True absent(4) in \<open>simp_all add: mput_same\<close>)
  next
    case False
    then have eq: "dyn_mset_set_count s0 s1 al m k c = mset_append al m k (ix_hash s0 s1 k) c"
      using absent(1) by (simp add: dyn_mset_set_count_def)
    show ?thesis
      by (rule mset_append_ok [OF inv absent(2,3) False, of al])
        (use eq absent(4) in \<open>auto intro: fail ok\<close>)
  qed
next
  case (present p i)
  let ?m = "m\<lparr>ms_total := u64_sat_add (ms_total m - mr_count (ms_rec m ! i)) c\<rparr>"
  have cnt: "of_nat (count (mset_abs m) k) = mr_count (ms_rec m ! i)"
    using present(5) by simp
  have eq: "dyn_mset_set_count s0 s1 al m k c =
      (if c = 0 then do { m' \<leftarrow> mset_erase ?m i p; Some (True, m', al) }
       else Some (True, ?m\<lparr>ms_rec := (ms_rec m)[i := (ms_rec m ! i)\<lparr>mr_count := c\<rparr>]\<rparr>, al))"
    using present(1,2) by (simp add: dyn_mset_set_count_def)
  show ?thesis
  proof (cases "c = 0")
    case True
    show ?thesis
      by (rule mset_erase_ok [of s0 s1 ?m k p i]) (use inv present True eq cnt in \<open>auto intro!: ok\<close>)
  next
    case False
    then show ?thesis
      using mset_update_ok [of s0 s1 ?m i k c] inv present(3,4) eq cnt by (intro ok) auto
  qed
qed

subsection \<open>Properties\<close>

text \<open>
  C2. On a well-formed multiset \<open>dyn_mset_add\<close> returns, whatever the allocator does. On success
  it returns the old count plus the signed delta, clamped to the range of a \<open>uint64_t\<close>, and this
  is the new count of the key, all other keys being unchanged. A failure changes no count, and
  happens only when an allocation fails or \<open>2 ^ 27\<close> keys are present. The invariant is kept.
\<close>

theorem dyn_mset_add_refines:
  assumes "mset_inv s0 s1 m"
  shows "\<exists>r m' al'. dyn_mset_add s0 s1 al m k d = Some (r, m', al') \<and> mset_inv s0 s1 m' \<and>
    (case r of
       Some v \<Rightarrow> unat v = u64_clamp (int (count (mset_abs m) k) + sint d) \<and>
                 mset_abs m' = mput (mset_abs m) k (unat v)
     | None \<Rightarrow> mset_abs m' = mset_abs m \<and>
                 (False \<in> set al \<or> 2 ^ 27 \<le> dyn_mset_distinct m))"
  by (rule mset_add_spec [OF assms, of al k d]) (auto simp: dyn_mset_distinct_def)

theorem dyn_mset_add_refines_witness:
  "mset_inv 1 2 mset_zero \<and> (\<exists>r m' al'. dyn_mset_add 1 2 [True, False] mset_zero [97] 5 = Some (r, m', al') \<and>
    mset_inv 1 2 m' \<and> (r = None \<or> mset_abs m' = {#[97], [97], [97], [97], [97]#}))"
proof -
  have "mput {#} [97] 5 = {#[97], [97], [97], [97], [97]#}"
    by (simp add: mput_def numeral_eq_Suc)
  then show ?thesis
    using dyn_mset_add_refines [OF mset_zero_ok(1), of 1 2 "[True, False]" "[97]" 5]
    by (auto simp: mset_zero_ok u64_clamp_def split: option.splits)
qed

text \<open>
  C13. The running total stays equal to the number of elements as long as the true number of
  elements fits a \<open>uint64_t\<close>: \<open>dyn_mset_add\<close> keeps it exact when the delta is negative, and when
  adding the delta does not reach \<open>2 ^ 64\<close>.
\<close>

theorem dyn_mset_add_total:
  assumes "mset_inv s0 s1 m" "mset_exact m"
    and "d <s 0 \<or> size (mset_abs m) + unat d < 2 ^ 64"
    and "dyn_mset_add s0 s1 al m k d = Some (r, m', al')"
  shows "mset_exact m'"
  using assms(1)
proof (cases rule: mset_add_spec [where al = al and k = k and d = d])
  case (fail m'' al'')
  then show ?thesis using assms by (simp add: mset_exact_def)
next
  case (ok v m'' al'')
  let ?M = "mset_abs m" and ?cur = "of_nat (count (mset_abs m) k) :: u64"
  have cnt: "count ?M k \<le> size ?M" by (rule count_le_size)
  have tot: "unat (ms_total m) = size ?M" using assms(2) by (simp add: mset_exact_def)
  then have cur: "unat ?cur = count ?M k"
    using cnt unat64_less [of "ms_total m"] by (simp add: unat_of_nat)
  have "unat (ms_total m'') + count ?M k = size ?M + unat v"
  proof (cases "d <s 0")
    case True
    then have "sint d < 0" by (simp add: word_sless_alt)
    then have le: "unat v \<le> count ?M k"
      using ok(3) by (simp add: u64_clamp_def)
    then have "v \<le> ?cur" using cur by (simp add: word_le_nat_alt)
    then have u: "unat (?cur - v) = count ?M k - unat v"
      using cur by (simp add: unat_sub)
    then have "?cur - v \<le> ms_total m"
      using cnt tot by (simp add: word_le_nat_alt)
    then have "unat (ms_total m - (?cur - v)) = size ?M - (count ?M k - unat v)"
      using u tot by (simp add: unat_sub)
    then show ?thesis using ok(5) True le cnt by simp
  next
    case False
    then have lt: "size ?M + unat d < 2 ^ 64" using assms(3) by simp
    then have v: "unat v = count ?M k + unat d"
      using ok(3) cnt nonneg_delta [OF False, symmetric]
      by (simp add: u64_clamp_def nat_add_distrib del: of_nat_unat)
    then have "unat (v - ?cur) = unat d"
      using cur by (simp add: unat_sub word_le_nat_alt)
    then show ?thesis
      using ok(5) False tot lt v by (simp add: u64_sat_add_exact)
  qed
  then have "mset_exact m''"
    using size_mput [of ?M k "unat v"] by (simp add: mset_exact_def ok(4))
  then show ?thesis using ok(1) assms(4) by simp
qed

theorem dyn_mset_add_total_witness:
  "\<exists>r m' al'. dyn_mset_add 1 2 [] mset_zero [97] 5 = Some (r, m', al') \<and> mset_exact m'"
  by (rule mset_add_spec [OF mset_zero_ok(1), of 1 2 "[]" "[97]" 5])
    (use dyn_mset_add_total [OF mset_zero_ok(1,3), of 5 1 2 "[]" "[97]"] mset_zero_ok(2) in auto)

text \<open>
  C14. On a well-formed multiset \<open>dyn_mset_set_count\<close> returns. On success the key has exactly the
  given count and every other key its old one; a failure changes nothing; \<open>dyn_mset_count\<close> reads
  the count back.
\<close>

theorem dyn_mset_set_count_refines:
  assumes "mset_inv s0 s1 m"
  shows "\<exists>ok m' al'. dyn_mset_set_count s0 s1 al m k c = Some (ok, m', al') \<and> mset_inv s0 s1 m' \<and>
    mset_abs m' = (if ok then mput (mset_abs m) k (unat c) else mset_abs m) \<and>
    (ok \<or> False \<in> set al \<or> 2 ^ 27 \<le> dyn_mset_distinct m) \<and>
    dyn_mset_count s0 s1 m' k = Some (if ok then c else of_nat (count (mset_abs m) k))"
proof -
  have rd: "dyn_mset_count s0 s1 m' k = Some (of_nat (count (mset_abs m') k))" if "mset_inv s0 s1 m'" for m'
    by (rule mset_find [OF that, of k]) (simp_all add: dyn_mset_count_def)
  show ?thesis
    by (rule mset_set_count_spec [OF assms, of al k c]) (auto simp: dyn_mset_distinct_def rd count_mput)
qed

theorem dyn_mset_set_count_refines_witness:
  "\<exists>ok m' al'. dyn_mset_set_count 1 2 [False] mset_zero [97] 7 = Some (ok, m', al') \<and>
    mset_inv 1 2 m' \<and> mset_abs m' = (if ok then mput {#} [97] 7 else {#})"
  using dyn_mset_set_count_refines [OF mset_zero_ok(1), of 1 2 "[False]" "[97]" 7]
  by (auto simp: mset_zero_ok)

text \<open>A run of additions with an allocator that always succeeds.\<close>

fun mset_adds :: "u64 \<Rightarrow> u64 \<Rightarrow> dyn_mset \<Rightarrow> (bytes \<times> u64) list \<Rightarrow> dyn_mset option" where
  "mset_adds s0 s1 m [] = Some m"
| "mset_adds s0 s1 m ((k, d) # xs) =
     (case dyn_mset_add s0 s1 [] m k d of Some (Some v, m', _) \<Rightarrow> mset_adds s0 s1 m' xs | _ \<Rightarrow> None)"

lemma mset_adds_step:
  assumes "mset_inv s0 s1 m" "card (set_mset (mset_abs m)) < 2 ^ 27"
    "unat v = u64_clamp (int (count (mset_abs m) k) + sint d)"
  obtains m' where "mset_adds s0 s1 m ((k, d) # xs) = mset_adds s0 s1 m' xs" "mset_inv s0 s1 m'"
    "mset_abs m' = mput (mset_abs m) k (unat v)"
    "ms_total m' = (if d <s 0 then ms_total m - (of_nat (count (mset_abs m) k) - v)
      else u64_sat_add (ms_total m) (v - of_nat (count (mset_abs m) k)))"
  using assms(1)
proof (cases rule: mset_add_spec [where al = "[]" and k = k and d = d])
  case (fail m' al')
  then show ?thesis
    using assms(2) mset_distinct_card [OF assms(1)] by (simp add: dyn_mset_distinct_def)
next
  case (ok w m' al')
  then have "w = v" using assms(3) by (simp add: word_unat_eq_iff)
  then show ?thesis using ok that by simp
qed

lemma mset_fill:
  assumes "mset_inv s0 s1 m" "card (set_mset (mset_abs m)) < 2 ^ 27" "count (mset_abs m) k = 0"
  obtains m' where "mset_adds s0 s1 m ((k, 2 ^ 63 - 1) # xs) = mset_adds s0 s1 m' xs" "mset_inv s0 s1 m'"
    "mset_abs m' = mput (mset_abs m) k (2 ^ 63 - 1)" "ms_total m' = u64_sat_add (ms_total m) (2 ^ 63 - 1)"
  by (rule mset_adds_step [OF assms(1,2), of "2 ^ 63 - 1" k "2 ^ 63 - 1" xs])
    (simp_all add: assms(3) that u64_clamp_def word_sless_alt)

lemma mset_drain:
  assumes "mset_inv s0 s1 m" "card (set_mset (mset_abs m)) < 2 ^ 27" "count (mset_abs m) k = 2 ^ 63 - 1"
  obtains m' where "mset_adds s0 s1 m ((k, 1 - 2 ^ 63) # xs) = mset_adds s0 s1 m' xs" "mset_inv s0 s1 m'"
    "mset_abs m' = mput (mset_abs m) k 0" "ms_total m' = ms_total m - (2 ^ 63 - 1)"
  by (rule mset_adds_step [OF assms(1,2), of 0 k "1 - 2 ^ 63" xs])
    (simp_all add: assms(3) that u64_clamp_def word_sless_alt)

text \<open>
  C16. The total does not survive saturation. Adding \<open>2 ^ 63 - 1\<close> to three keys saturates it at
  \<open>2 ^ 64 - 1\<close>; removing the three keys again leaves an empty multiset whose reported total is
  \<open>2 ^ 63 + 2\<close>.
\<close>

theorem dyn_mset_total_after_saturation:
  "\<exists>m. mset_adds s0 s1 mset_zero
      [([97], 2 ^ 63 - 1), ([98], 2 ^ 63 - 1), ([99], 2 ^ 63 - 1),
       ([97], 1 - 2 ^ 63), ([98], 1 - 2 ^ 63), ([99], 1 - 2 ^ 63)] = Some m \<and>
    mset_inv s0 s1 m \<and> dyn_mset_distinct m = 0 \<and> dyn_mset_total m = 2 ^ 63 + 2"
proof -
  let ?a = "[97] :: bytes" and ?b = "[98] :: bytes" and ?c = "[99] :: bytes" and ?n = "2 ^ 63 - 1 :: nat"
  have sub: "set_mset (mput M k n) \<subseteq> insert k (set_mset M)" for M k n
    by (auto simp: mput_def split: if_splits)
  have small: "card (set_mset M) < 2 ^ 27" if "set_mset M \<subseteq> {?a, ?b, ?c}" for M
    using card_mono [OF _ that] by simp
  have sm: "card (set_mset M) < 2 ^ 27 \<and> set_mset M \<subseteq> {?a, ?b, ?c}"
    if "M = mput N k n" "set_mset N \<subseteq> {?a, ?b, ?c}" "k \<in> {?a, ?b, ?c}" for M N k n
    using small sub [of N k n] that by auto
  let ?D = "2 ^ 63 - 1 :: u64" and ?E = "1 - 2 ^ 63 :: u64"
  let ?x5 = "[(?c, ?E)]" let ?x4 = "(?b, ?E) # ?x5" let ?x3 = "(?a, ?E) # ?x4"
  let ?x2 = "(?c, ?D) # ?x3" let ?x1 = "(?b, ?D) # ?x2"
  obtain m1 where m1: "mset_adds s0 s1 mset_zero ((?a, ?D) # ?x1) = mset_adds s0 s1 m1 ?x1"
    "mset_inv s0 s1 m1" "mset_abs m1 = mput {#} ?a ?n" "ms_total m1 = u64_sat_add 0 ?D"
    by (rule mset_fill [OF mset_zero_ok(1), where k = ?a and xs = ?x1]) (simp_all add: mset_zero_ok, simp add: mset_zero_def)
  note s1 = sm [OF m1(3)]
  obtain m2 where m2: "mset_adds s0 s1 m1 ?x1 = mset_adds s0 s1 m2 ?x2"
    "mset_inv s0 s1 m2" "mset_abs m2 = mput (mset_abs m1) ?b ?n" "ms_total m2 = u64_sat_add (ms_total m1) ?D"
    by (rule mset_fill [OF m1(2), where k = ?b and xs = ?x2]) (use s1 in \<open>simp_all add: m1(3) count_mput\<close>)
  note s2 = sm [OF m2(3)]
  obtain m3 where m3: "mset_adds s0 s1 m2 ?x2 = mset_adds s0 s1 m3 ?x3"
    "mset_inv s0 s1 m3" "mset_abs m3 = mput (mset_abs m2) ?c ?n" "ms_total m3 = u64_sat_add (ms_total m2) ?D"
    by (rule mset_fill [OF m2(2), where k = ?c and xs = ?x3]) (use s1 s2 in \<open>simp_all add: m1(3) m2(3) count_mput\<close>)
  note s3 = sm [OF m3(3)]
  obtain m4 where m4: "mset_adds s0 s1 m3 ?x3 = mset_adds s0 s1 m4 ?x4"
    "mset_inv s0 s1 m4" "mset_abs m4 = mput (mset_abs m3) ?a 0" "ms_total m4 = ms_total m3 - ?D"
    by (rule mset_drain [OF m3(2), where k = ?a and xs = ?x4]) (use s1 s2 s3 in \<open>simp_all add: m1(3) m2(3) m3(3) count_mput\<close>)
  note s4 = sm [OF m4(3)]
  obtain m5 where m5: "mset_adds s0 s1 m4 ?x4 = mset_adds s0 s1 m5 ?x5"
    "mset_inv s0 s1 m5" "mset_abs m5 = mput (mset_abs m4) ?b 0" "ms_total m5 = ms_total m4 - ?D"
    by (rule mset_drain [OF m4(2), where k = ?b and xs = ?x5])
      (use s1 s2 s3 s4 in \<open>simp_all add: m1(3) m2(3) m3(3) m4(3) count_mput\<close>)
  note s5 = sm [OF m5(3)]
  obtain m6 where m6: "mset_adds s0 s1 m5 ?x5 = mset_adds s0 s1 m6 []"
    "mset_inv s0 s1 m6" "mset_abs m6 = mput (mset_abs m5) ?c 0" "ms_total m6 = ms_total m5 - ?D"
    by (rule mset_drain [OF m5(2), where k = ?c and xs = "[]"])
      (use s1 s2 s3 s4 s5 in \<open>simp_all add: m1(3) m2(3) m3(3) m4(3) m5(3) count_mput\<close>)
  have "mset_abs m6 = {#}"
    by (rule multiset_eqI) (simp add: m1(3) m2(3) m3(3) m4(3) m5(3) m6(3) count_mput)
  then have "dyn_mset_distinct m6 = 0"
    using mset_distinct_card [OF m6(2)] by simp
  moreover have "dyn_mset_total m6 = 2 ^ 63 + 2"
    by (simp add: dyn_mset_total_def m1(4) m2(4) m3(4) m4(4) m5(4) m6(4) u64_sat_add_def)
  ultimately show ?thesis
    using m1(1) m2(1) m3(1) m4(1) m5(1) m6(1,2) by (intro exI [of _ m6]) simp
qed

end
