(* ===== verification/DsMultimap.thy ===== *)
theory DsMultimap
  imports DsStore
begin

text \<open>
  The multimap \<open>dyn_mmap\<close> of \<open>src/core/dyn-ds.c\<close>: a record array in which each key owns a growable
  array of cells. \<open>mmap_abs\<close> reads it as a function from keys to lists of cells, the empty list
  for an absent key. A callback that releases cells is represented by the list of the cells it
  is called on, in order.
\<close>

subsection \<open>Model\<close>

record mmap_rec =
  mm_key :: ds_key
  mm_val :: "dyn_cell list"
  mm_vcap :: nat

record dyn_mmap =
  mp_rec :: "mmap_rec list"
  mp_cap :: nat
  mp_ix :: dyn_ix
  mp_total :: u64

abbreviation mm_bytes :: "mmap_rec \<Rightarrow> bytes" where
  "mm_bytes r \<equiv> dk_p (mm_key r)"

definition mmap_zero :: dyn_mmap where
  "mmap_zero = \<lparr>mp_rec = [], mp_cap = 0, mp_ix = ix_empty, mp_total = 0\<rparr>"

definition dyn_mmap_new :: "allocs \<Rightarrow> dyn_mmap option \<times> allocs" where
  "dyn_mmap_new al =
     (case next_alloc al of (ok, al') \<Rightarrow> (if ok then Some mmap_zero else None, al'))"

text \<open>Freeing visits the cells record by record.\<close>

definition dyn_mmap_free :: "dyn_mmap \<Rightarrow> dyn_cell list" where
  "dyn_mmap_free m = concat (map mm_val (mp_rec m))"

definition mmap_lookup :: "u64 \<Rightarrow> u64 \<Rightarrow> dyn_mmap \<Rightarrow> bytes \<Rightarrow> mmap_rec option option" where
  "mmap_lookup s0 s1 m k = do {
     pos \<leftarrow> ix_find (mp_ix m) (ix_hash s0 s1 k) k;
     Some (case pos of None \<Rightarrow> None | Some p \<Rightarrow> Some (mp_rec m ! sl_idx (ix_slot (mp_ix m) ! p)))
   }"

text \<open>The record that \<open>dyn_mmap_put\<close> prepares for a new key, before it is indexed.\<close>

definition mmap_put_new ::
  "allocs \<Rightarrow> dyn_mmap \<Rightarrow> bytes \<Rightarrow> u64 \<Rightarrow> dyn_cell \<Rightarrow> (bool \<times> dyn_mmap \<times> allocs) option" where
  "mmap_put_new al m k h v = do {
     (r, al) \<leftarrow> ds_reserve al (mp_cap m) ((length (mp_rec m) + 1) mod 2 ^ 32) 40;
     case r of
       None \<Rightarrow> Some (False, m, al)
     | Some cap \<Rightarrow>
         let m = m\<lparr>mp_cap := cap\<rparr> in
         (case key_init al k h of
            (None, al) \<Rightarrow> Some (False, m, al)
          | (Some key, al) \<Rightarrow> do {
              (r, al) \<leftarrow> ds_reserve al 0 1 16;
              case r of
                None \<Rightarrow> Some (False, m, al)
              | Some vcap \<Rightarrow> do {
                  (r, al) \<leftarrow> ix_insert al (mp_ix m) h (dk_p key) (length (mp_rec m));
                  case r of
                    None \<Rightarrow> Some (False, m, al)
                  | Some ix \<Rightarrow>
                      Some (True, m\<lparr>mp_rec := mp_rec m @ [\<lparr>mm_key = key, mm_val = [v], mm_vcap = vcap\<rparr>],
                        mp_ix := ix, mp_total := mp_total m + 1\<rparr>, al)
                }
            })
   }"

definition dyn_mmap_put ::
  "u64 \<Rightarrow> u64 \<Rightarrow> allocs \<Rightarrow> dyn_mmap \<Rightarrow> bytes \<Rightarrow> dyn_cell \<Rightarrow> (bool \<times> dyn_mmap \<times> allocs) option" where
  "dyn_mmap_put s0 s1 al m k v = do {
     let h = ix_hash s0 s1 k;
     pos \<leftarrow> ix_find (mp_ix m) h k;
     case pos of
       None \<Rightarrow> mmap_put_new al m k h v
     | Some p \<Rightarrow>
         let i = sl_idx (ix_slot (mp_ix m) ! p); r = mp_rec m ! i in do {
           (res, al) \<leftarrow> ds_reserve al (mm_vcap r) ((length (mm_val r) + 1) mod 2 ^ 32) 16;
           case res of
             None \<Rightarrow> Some (False, m, al)
           | Some vcap \<Rightarrow>
               Some (True, m\<lparr>mp_rec := (mp_rec m)[i := r\<lparr>mm_val := mm_val r @ [v], mm_vcap := vcap\<rparr>],
                 mp_total := mp_total m + 1\<rparr>, al)
         }
   }"

definition dyn_mmap_count :: "u64 \<Rightarrow> u64 \<Rightarrow> dyn_mmap \<Rightarrow> bytes \<Rightarrow> nat option" where
  "dyn_mmap_count s0 s1 m k = do {
     r \<leftarrow> mmap_lookup s0 s1 m k;
     Some (case r of None \<Rightarrow> 0 | Some r \<Rightarrow> length (mm_val r))
   }"

definition dyn_mmap_at :: "u64 \<Rightarrow> u64 \<Rightarrow> dyn_mmap \<Rightarrow> bytes \<Rightarrow> nat \<Rightarrow> dyn_cell option option" where
  "dyn_mmap_at s0 s1 m k i = do {
     r \<leftarrow> mmap_lookup s0 s1 m k;
     Some (case r of None \<Rightarrow> None | Some r \<Rightarrow> if i < length (mm_val r) then Some (mm_val r ! i) else None)
   }"

definition mmap_erase :: "dyn_mmap \<Rightarrow> nat \<Rightarrow> nat \<Rightarrow> dyn_mmap option" where
  "mmap_erase m i pos = do {
     ix \<leftarrow> ix_erase (mp_ix m) pos;
     let len = length (mp_rec m) - 1;
     let last = mp_rec m ! len;
     ix' \<leftarrow> (if i \<noteq> len then ix_move ix (dk_h (mm_key last)) (mm_bytes last) i else Some ix);
     Some (m\<lparr>mp_rec := swap_remove (mp_rec m) i, mp_ix := ix'\<rparr>)
   }"

definition dyn_mmap_remove_at ::
  "u64 \<Rightarrow> u64 \<Rightarrow> dyn_mmap \<Rightarrow> bytes \<Rightarrow> nat \<Rightarrow> (dyn_cell option \<times> dyn_mmap) option" where
  "dyn_mmap_remove_at s0 s1 m k i = do {
     pos \<leftarrow> ix_find (mp_ix m) (ix_hash s0 s1 k) k;
     case pos of
       None \<Rightarrow> Some (None, m)
     | Some p \<Rightarrow>
         let idx = sl_idx (ix_slot (mp_ix m) ! p); r = mp_rec m ! idx in
         if i \<ge> length (mm_val r) then Some (None, m)
         else
           let out = mm_val r ! i;
               r' = r\<lparr>mm_val := take i (mm_val r) @ drop (i + 1) (mm_val r)\<rparr>;
               m' = m\<lparr>mp_rec := (mp_rec m)[idx := r'], mp_total := mp_total m - 1\<rparr>
           in if mm_val r' = [] then do { m'' \<leftarrow> mmap_erase m' idx p; Some (Some out, m'') }
              else Some (Some out, m')
   }"

definition dyn_mmap_remove_key ::
  "u64 \<Rightarrow> u64 \<Rightarrow> dyn_mmap \<Rightarrow> bytes \<Rightarrow> (nat \<times> dyn_cell list \<times> dyn_mmap) option" where
  "dyn_mmap_remove_key s0 s1 m k = do {
     pos \<leftarrow> ix_find (mp_ix m) (ix_hash s0 s1 k) k;
     case pos of
       None \<Rightarrow> Some (0, [], m)
     | Some p \<Rightarrow>
         let idx = sl_idx (ix_slot (mp_ix m) ! p);
             cnt = length (mm_val (mp_rec m ! idx));
             freed = mm_val (mp_rec m ! idx)
         in do {
           m' \<leftarrow> mmap_erase (m\<lparr>mp_total := mp_total m - of_nat cnt\<rparr>) idx p;
           Some (cnt, freed, m')
         }
   }"

definition dyn_mmap_keys :: "dyn_mmap \<Rightarrow> nat" where
  "dyn_mmap_keys m = length (mp_rec m)"

definition dyn_mmap_size :: "dyn_mmap \<Rightarrow> u64" where
  "dyn_mmap_size m = mp_total m"

definition dyn_mmap_key_at :: "dyn_mmap \<Rightarrow> nat \<Rightarrow> (bytes \<times> nat) option" where
  "dyn_mmap_key_at m i =
     (if i \<ge> length (mp_rec m) then None
      else Some (mm_bytes (mp_rec m ! i), length (mm_val (mp_rec m ! i))))"

definition dyn_mmap_cells_at :: "dyn_mmap \<Rightarrow> nat \<Rightarrow> dyn_cell list" where
  "dyn_mmap_cells_at m i = (if i \<ge> length (mp_rec m) then [] else mm_val (mp_rec m ! i))"

definition dyn_mmap_cells_for :: "u64 \<Rightarrow> u64 \<Rightarrow> dyn_mmap \<Rightarrow> bytes \<Rightarrow> dyn_cell list option" where
  "dyn_mmap_cells_for s0 s1 m k = do {
     r \<leftarrow> mmap_lookup s0 s1 m k;
     Some (case r of None \<Rightarrow> [] | Some r \<Rightarrow> mm_val r)
   }"

subsection \<open>Abstraction and invariant\<close>

definition mrecs_abs :: "mmap_rec list \<Rightarrow> bytes \<Rightarrow> dyn_cell list" where
  "mrecs_abs rs k = (case recs_map mm_bytes mm_val rs k of None \<Rightarrow> [] | Some vs \<Rightarrow> vs)"

definition mmap_abs :: "dyn_mmap \<Rightarrow> bytes \<Rightarrow> dyn_cell list" where
  "mmap_abs m = mrecs_abs (mp_rec m)"

definition mmap_rec_ok :: "u64 \<Rightarrow> u64 \<Rightarrow> mmap_rec \<Rightarrow> bool" where
  "mmap_rec_ok s0 s1 r \<longleftrightarrow> dk_h (mm_key r) = ix_hash s0 s1 (mm_bytes r) \<and>
     cap_ok (mm_vcap r) \<and> length (mm_val r) \<le> mm_vcap r"

definition mrecs_size :: "mmap_rec list \<Rightarrow> nat" where
  "mrecs_size rs = (\<Sum>r\<leftarrow>rs. length (mm_val r))"

text \<open>
  Between the removal of a cell and the removal of its record a record may be empty, so that
  the part of the invariant that does not speak about empty records has its own name.
\<close>

definition mmap_pre :: "u64 \<Rightarrow> u64 \<Rightarrow> dyn_mmap \<Rightarrow> bool" where
  "mmap_pre s0 s1 m \<longleftrightarrow>
     ix_inv (ix_hash s0 s1) (mp_ix m) \<and> keyed ix_look mm_bytes (mp_rec m) (mp_ix m) \<and>
     cap_ok (mp_cap m) \<and> length (mp_rec m) \<le> mp_cap m \<and> (\<forall>r \<in> set (mp_rec m). mmap_rec_ok s0 s1 r)"

definition mmap_inv :: "u64 \<Rightarrow> u64 \<Rightarrow> dyn_mmap \<Rightarrow> bool" where
  "mmap_inv s0 s1 m \<longleftrightarrow> mmap_pre s0 s1 m \<and> (\<forall>r \<in> set (mp_rec m). mm_val r \<noteq> []) \<and>
     mp_total m = of_nat (mrecs_size (mp_rec m))"

subsection \<open>The record array\<close>

lemma mrecs_abs_absent: "\<forall>r \<in> set rs. mm_bytes r \<noteq> k \<Longrightarrow> mrecs_abs rs k = []"
  by (simp add: mrecs_abs_def recs_map_None [THEN iffD2])

lemma mrecs_abs_nth:
  "distinct (map mm_bytes rs) \<Longrightarrow> i < length rs \<Longrightarrow> mrecs_abs rs (mm_bytes (rs ! i)) = mm_val (rs ! i)"
  by (simp add: mrecs_abs_def recs_map_nth [of mm_bytes])

lemma mrecs_abs_snoc:
  "\<forall>s \<in> set rs. mm_bytes s \<noteq> mm_bytes r \<Longrightarrow> mrecs_abs (rs @ [r]) = (mrecs_abs rs)(mm_bytes r := mm_val r)"
  by (auto simp: mrecs_abs_def recs_map_snoc [of _ mm_bytes])

lemma mrecs_abs_update:
  "distinct (map mm_bytes rs) \<Longrightarrow> i < length rs \<Longrightarrow> mm_bytes r = mm_bytes (rs ! i) \<Longrightarrow>
    mrecs_abs (rs[i := r]) = (mrecs_abs rs)(mm_bytes r := mm_val r)"
  by (auto simp: mrecs_abs_def recs_map_update [of mm_bytes])

lemma mrecs_abs_swap_remove:
  "distinct (map mm_bytes rs) \<Longrightarrow> i < length rs \<Longrightarrow>
    mrecs_abs (swap_remove rs i) = (mrecs_abs rs)(mm_bytes (rs ! i) := [])"
  by (auto simp: mrecs_abs_def recs_map_swap_remove [of mm_bytes])

lemma mrecs_size_mset: "mrecs_size rs = sum_mset (image_mset (\<lambda>r. length (mm_val r)) (mset rs))"
  unfolding mrecs_size_def by (metis mset_map sum_mset_sum_list)

lemma mrecs_size_snoc [simp]: "mrecs_size (rs @ [r]) = mrecs_size rs + length (mm_val r)"
  by (simp add: mrecs_size_def)

lemma mrecs_size_le: "\<forall>r \<in> set rs. length (mm_val r) \<le> c \<Longrightarrow> mrecs_size rs \<le> length rs * c"
  by (induction rs) (auto simp: mrecs_size_def)

lemma mrecs_size_swap:
  assumes "i < length rs"
  shows "mrecs_size rs = mrecs_size (swap_remove rs i) + length (mm_val (rs ! i))"
    and "mrecs_size (rs[i := r]) = mrecs_size (swap_remove rs i) + length (mm_val r)"
proof -
  have "mset rs = add_mset (rs ! i) (mset (swap_remove rs i))"
    using assms by (simp add: mset_swap_remove)
  then show "mrecs_size rs = mrecs_size (swap_remove rs i) + length (mm_val (rs ! i))"
    by (simp add: mrecs_size_mset)
  have "mset (rs[i := r]) = add_mset r (mset (swap_remove rs i))"
    using assms by (simp add: mset_swap_remove mset_update)
  then show "mrecs_size (rs[i := r]) = mrecs_size (swap_remove rs i) + length (mm_val r)"
    by (simp add: mrecs_size_mset)
qed

lemma mmap_zero_ok: "mmap_inv s0 s1 mmap_zero" "mmap_abs mmap_zero = (\<lambda>_. [])"
  by (auto simp: mmap_zero_def mmap_inv_def mmap_pre_def mmap_abs_def mrecs_abs_def mrecs_size_def keyed_def)

lemma mmap_find:
  assumes "mmap_inv s0 s1 m"
  obtains (absent) "ix_find (mp_ix m) (ix_hash s0 s1 k) k = Some None" "ix_look (mp_ix m) k = None"
      "\<forall>r \<in> set (mp_rec m). mm_bytes r \<noteq> k" "mmap_abs m k = []"
    | (present) p i where "ix_find (mp_ix m) (ix_hash s0 s1 k) k = Some (Some p)"
      "sl_idx (ix_slot (mp_ix m) ! p) = i" "i < length (mp_rec m)" "mm_bytes (mp_rec m ! i) = k"
      "mmap_abs m k = mm_val (mp_rec m ! i)" "mmap_abs m k \<noteq> []"
proof -
  have inv: "ix_inv (ix_hash s0 s1) (mp_ix m)" "keyed ix_look mm_bytes (mp_rec m) (mp_ix m)"
    "\<forall>r \<in> set (mp_rec m). mm_val r \<noteq> []"
    using assms by (auto simp: mmap_inv_def mmap_pre_def)
  show ?thesis
  proof (rule ix.find_keyed [OF inv(1,2), of k])
    assume a: "ix_find (mp_ix m) (ix_hash s0 s1 k) k = Some None" "ix_look (mp_ix m) k = None"
      "\<forall>r \<in> set (mp_rec m). mm_bytes r \<noteq> k"
    show ?thesis
      using absent [OF a] mrecs_abs_absent [OF a(3)] by (simp add: mmap_abs_def)
  next
    fix p i
    assume a: "ix_find (mp_ix m) (ix_hash s0 s1 k) k = Some (Some p)"
      "sl_idx (ix_slot (mp_ix m) ! p) = i" "i < length (mp_rec m)" "mm_bytes (mp_rec m ! i) = k"
    show ?thesis
      using present [OF a] mrecs_abs_nth [OF keyed_distinct [OF inv(2)] a(3)] a(3,4) inv(3)
      by (simp add: mmap_abs_def)
  qed
qed

lemma mmap_erase_ok:
  assumes pre: "mmap_pre s0 s1 m" and find: "ix_find (mp_ix m) (ix_hash s0 s1 k) k = Some (Some p)"
    and i: "sl_idx (ix_slot (mp_ix m) ! p) = i"
  obtains m' where "mmap_erase m i p = Some m'" "mmap_pre s0 s1 m'" "mp_rec m' = swap_remove (mp_rec m) i"
    "mmap_abs m' = (mmap_abs m)(k := [])" "mp_total m' = mp_total m"
proof -
  let ?rs = "mp_rec m"
  have a: "ix_inv (ix_hash s0 s1) (mp_ix m)" "keyed ix_look mm_bytes ?rs (mp_ix m)"
    using pre by (auto simp: mmap_pre_def)
  obtain ix1 ix' where r: "ix_erase (mp_ix m) p = Some ix1" "i < length ?rs" "mm_bytes (?rs ! i) = k"
    "(if i \<noteq> length ?rs - 1 then ix_move ix1 (ix_hash s0 s1 (mm_bytes (?rs ! (length ?rs - 1))))
       (mm_bytes (?rs ! (length ?rs - 1))) i else Some ix1) = Some ix'"
    "ix_inv (ix_hash s0 s1) ix'" "keyed ix_look mm_bytes (swap_remove ?rs i) ix'"
    by (rule ix.remove_keyed [OF a find i])
  have last: "?rs ! (length ?rs - 1) \<in> set ?rs"
    using r(2) by (intro nth_mem) simp
  then have "dk_h (mm_key (?rs ! (length ?rs - 1))) = ix_hash s0 s1 (mm_bytes (?rs ! (length ?rs - 1)))"
    using pre by (simp add: mmap_pre_def mmap_rec_ok_def)
  then have "mmap_erase m i p = Some (m\<lparr>mp_rec := swap_remove ?rs i, mp_ix := ix'\<rparr>)"
    using r(1,4) by (cases "i = length ?rs - 1") (simp_all add: mmap_erase_def Let_def cong: if_cong)
  then show ?thesis
  proof (rule that)
    show "mmap_pre s0 s1 (m\<lparr>mp_rec := swap_remove ?rs i, mp_ix := ix'\<rparr>)"
      using pre r(2,5,6) by (auto simp: mmap_pre_def dest: set_swap_remove_subset)
    show "mmap_abs (m\<lparr>mp_rec := swap_remove ?rs i, mp_ix := ix'\<rparr>) = (mmap_abs m)(k := [])"
      using mrecs_abs_swap_remove [OF keyed_distinct [OF a(2)] r(2)] r(3) by (simp add: mmap_abs_def)
  qed simp_all
qed

lemma mmap_update_ok:
  assumes pre: "mmap_pre s0 s1 m" and i: "i < length (mp_rec m)" "mm_bytes (mp_rec m ! i) = k"
    and r: "mm_key r = mm_key (mp_rec m ! i)" "cap_ok (mm_vcap r)" "length (mm_val r) \<le> mm_vcap r"
  shows "mmap_pre s0 s1 (m\<lparr>mp_rec := (mp_rec m)[i := r], mp_total := t\<rparr>)"
    and "mmap_abs (m\<lparr>mp_rec := (mp_rec m)[i := r], mp_total := t\<rparr>) = (mmap_abs m)(k := mm_val r)"
proof -
  have a: "keyed ix_look mm_bytes (mp_rec m) (mp_ix m)"
    using pre by (auto simp: mmap_pre_def)
  have "mmap_rec_ok s0 s1 (mp_rec m ! i)"
    using pre i by (simp add: mmap_pre_def)
  then show "mmap_pre s0 s1 (m\<lparr>mp_rec := (mp_rec m)[i := r], mp_total := t\<rparr>)"
    using pre i r keyed_update [OF a i(1)]
    by (auto simp: mmap_pre_def mmap_rec_ok_def dest!: subsetD [OF set_update_subset_insert])
  show "mmap_abs (m\<lparr>mp_rec := (mp_rec m)[i := r], mp_total := t\<rparr>) = (mmap_abs m)(k := mm_val r)"
    using mrecs_abs_update [OF keyed_distinct [OF a] i(1)] i(2) r(1) by (simp add: mmap_abs_def)
qed

subsection \<open>Operations\<close>

lemma ds_reserve_first:
  "ds_reserve al 0 (Suc 0) 16 = Some (if fst (next_alloc al) then Some 8 else None, snd (next_alloc al))"
  by (cases "next_alloc al") (simp add: ds_reserve_def ds_grow_loop.simps)

lemma mmap_put_new_ok:
  assumes inv: "mmap_inv s0 s1 m" and new: "ix_look (mp_ix m) k = None"
    "\<forall>r \<in> set (mp_rec m). mm_bytes r \<noteq> k"
  obtains (fail) m' al' where "mmap_put_new al m k (ix_hash s0 s1 k) v = Some (False, m', al')"
      "mmap_inv s0 s1 m'" "mmap_abs m' = mmap_abs m" "False \<in> set al \<or> 2 ^ 27 \<le> length (mp_rec m)"
    | (ok) m' al' where "mmap_put_new al m k (ix_hash s0 s1 k) v = Some (True, m', al')"
      "mmap_inv s0 s1 m'" "mmap_abs m' = (mmap_abs m)(k := [v])"
proof -
  let ?len = "length (mp_rec m)" and ?h = "ix_hash s0 s1 k"
  have a: "ix_inv (ix_hash s0 s1) (mp_ix m)" "keyed ix_look mm_bytes (mp_rec m) (mp_ix m)" "cap_ok (mp_cap m)"
    using inv by (auto simp: mmap_inv_def mmap_pre_def)
  have need: "(?len + 1) mod 2 ^ 32 = ?len + 1" "?len + 1 \<le> 2 ^ 31"
    using ix.keyed_length [OF a(1,2)] by auto
  show ?thesis
  proof (rule ds_reserve_cases [OF a(3) need(2), of 40 al])
    fix al1
    assume "ds_reserve al (mp_cap m) (?len + 1) 40 = Some (None, al1)" "\<not> fst (next_alloc al)"
    then show ?thesis
      using inv need by (intro fail [of m]) (auto simp: mmap_put_new_def next_alloc_False)
  next
    fix nc al1
    assume res: "ds_reserve al (mp_cap m) (?len + 1) 40 = Some (Some nc, al1)" "cap_ok nc" "?len + 1 \<le> nc"
      "?len + 1 \<le> mp_cap m \<Longrightarrow> nc = mp_cap m \<and> al1 = al" "mp_cap m < ?len + 1 \<Longrightarrow> al1 = snd (next_alloc al)"
    let ?m = "m\<lparr>mp_cap := nc\<rparr>"
    define al2 where "al2 = snd (next_alloc al1)"
    define al3 where "al3 = snd (next_alloc al2)"
    have sub: "set al1 \<subseteq> set al" using res(4,5) next_alloc_set [of al] by (cases "mp_cap m < ?len + 1") auto
    then have sub': "set al2 \<subseteq> set al" "set al3 \<subseteq> set al"
      using next_alloc_set [of al1] next_alloc_set [of al2] by (auto simp: al2_def al3_def)
    have inv1: "mmap_inv s0 s1 ?m" "mmap_abs ?m = mmap_abs m"
      using inv res(2,3) by (simp_all add: mmap_inv_def mmap_pre_def mmap_abs_def)
    show ?thesis
    proof (cases "fst (next_alloc al1) \<and> fst (next_alloc al2)")
      case False
      then have "mmap_put_new al m k ?h v = Some (False, ?m, if fst (next_alloc al1) then al3 else al2)"
        using res(1) need by (auto simp: mmap_put_new_def key_init_def ds_reserve_first al2_def al3_def Let_def split: prod.splits)
      moreover have "False \<in> set al"
        using False next_alloc_False [of al1] next_alloc_False [of al2] sub sub' by auto
      ultimately show ?thesis
        using inv1 by (intro fail [of ?m]) auto
    next
      case True
      then have key: "key_init al1 k ?h = (Some \<lparr>dk_p = k, dk_h = ?h\<rparr>, al2)" "ds_reserve al2 0 (Suc 0) 16 = Some (Some 8, al3)"
        by (auto simp: key_init_def al2_def al3_def ds_reserve_first split: prod.splits)
      show ?thesis
      proof (rule ix.append_keyed [OF a(1,2) new(1), of al3])
        fix al4
        assume "ix_insert al3 (mp_ix m) ?h k ?len = Some (None, al4)" "\<not> fst (next_alloc al3) \<or> 2 ^ 27 \<le> ?len"
        then show ?thesis
          using inv1 res(1) need key sub' next_alloc_False [of al3]
          by (intro fail [of ?m]) (auto simp: mmap_put_new_def)
      next
        fix ix' al4
        let ?r = "\<lparr>mm_key = \<lparr>dk_p = k, dk_h = ?h\<rparr>, mm_val = [v], mm_vcap = 8\<rparr>"
        let ?m' = "?m\<lparr>mp_rec := mp_rec m @ [?r], mp_ix := ix', mp_total := mp_total m + 1\<rparr>"
        assume ins: "ix_insert al3 (mp_ix m) ?h k ?len = Some (Some ix', al4)"
          "ix_inv (ix_hash s0 s1) ix'" "\<And>r. mm_bytes r = k \<Longrightarrow> keyed ix_look mm_bytes (mp_rec m @ [r]) ix'"
        have "cap_ok 8" unfolding cap_ok_def by (intro disjI2 exI [of _ 3]) simp
        then have "mmap_inv s0 s1 ?m'"
          using inv res(2,3) ins(2,3) by (auto simp: mmap_inv_def mmap_pre_def mmap_rec_ok_def)
        moreover have "mmap_abs ?m' = (mmap_abs m)(k := [v])"
          using mrecs_abs_snoc [of "mp_rec m" ?r] new(2) by (simp add: mmap_abs_def)
        moreover have "mmap_put_new al m k ?h v = Some (True, ?m', al4)"
          using res(1) need key ins(1) by (simp add: mmap_put_new_def)
        ultimately show ?thesis by (intro ok)
      qed
    qed
  qed simp_all
qed

subsection \<open>Properties\<close>

text \<open>
  C15. On a well-formed multimap, as long as the key has fewer than \<open>2 ^ 31\<close> cells, \<open>dyn_mmap_put\<close>
  returns. On success the cell is appended to the cells of its key and no other key changes; a
  failure changes nothing and is due to an allocation or to \<open>2 ^ 27\<close> keys.
\<close>

theorem dyn_mmap_put_refines:
  assumes inv: "mmap_inv s0 s1 m" and small: "length (mmap_abs m k) < 2 ^ 31"
  shows "\<exists>ok m' al'. dyn_mmap_put s0 s1 al m k v = Some (ok, m', al') \<and> mmap_inv s0 s1 m' \<and>
    mmap_abs m' = (if ok then (mmap_abs m)(k := mmap_abs m k @ [v]) else mmap_abs m) \<and>
    (ok \<or> False \<in> set al \<or> 2 ^ 27 \<le> dyn_mmap_keys m)"
  using inv
proof (cases rule: mmap_find [where k = k])
  case absent
  then have eq: "dyn_mmap_put s0 s1 al m k v = mmap_put_new al m k (ix_hash s0 s1 k) v"
    by (simp add: dyn_mmap_put_def)
  show ?thesis
    by (rule mmap_put_new_ok [OF inv absent(2,3), where al = al and v = v]) (auto simp: eq absent(4) dyn_mmap_keys_def)
next
  case (present p i)
  let ?r = "mp_rec m ! i"
  have pre: "mmap_pre s0 s1 m" and ok: "mmap_rec_ok s0 s1 ?r"
    using inv present(3) by (auto simp: mmap_inv_def mmap_pre_def)
  have need: "(length (mm_val ?r) + 1) mod 2 ^ 32 = length (mm_val ?r) + 1" "length (mm_val ?r) + 1 \<le> 2 ^ 31"
    using small present(5) by auto
  have cap: "cap_ok (mm_vcap ?r)" using ok by (simp add: mmap_rec_ok_def)
  show ?thesis
  proof (rule ds_reserve_cases [OF cap need(2), of 16 al])
    fix al'
    assume "ds_reserve al (mm_vcap ?r) (length (mm_val ?r) + 1) 16 = Some (None, al')" "\<not> fst (next_alloc al)"
    then have "dyn_mmap_put s0 s1 al m k v = Some (False, m, al')" "False \<in> set al"
      using present(1,2) need next_alloc_False by (auto simp: dyn_mmap_put_def Let_def)
    then show ?thesis using inv by auto
  next
    fix nc al'
    assume res: "ds_reserve al (mm_vcap ?r) (length (mm_val ?r) + 1) 16 = Some (Some nc, al')" "cap_ok nc"
      "length (mm_val ?r) + 1 \<le> nc"
    let ?r' = "?r\<lparr>mm_val := mm_val ?r @ [v], mm_vcap := nc\<rparr>"
    let ?m' = "m\<lparr>mp_rec := (mp_rec m)[i := ?r'], mp_total := mp_total m + 1\<rparr>"
    have put: "dyn_mmap_put s0 s1 al m k v = Some (True, ?m', al')"
      using present(1,2) need res(1) by (simp add: dyn_mmap_put_def Let_def)
    have upd: "mmap_pre s0 s1 ?m'" "mmap_abs ?m' = (mmap_abs m)(k := mm_val ?r @ [v])"
      using mmap_update_ok [OF pre present(3,4), of ?r' "mp_total m + 1"] res by simp_all
    have "mrecs_size (mp_rec ?m') = Suc (mrecs_size (mp_rec m))"
      using mrecs_size_swap(1) [OF present(3)] mrecs_size_swap(2) [OF present(3), of ?r'] by simp
    then have "mmap_inv s0 s1 ?m'"
      using inv upd(1) by (auto simp: mmap_inv_def dest!: subsetD [OF set_update_subset_insert])
    then show ?thesis
      using put upd(2) present(5) by (intro exI [of _ True] exI [of _ ?m'] exI [of _ al']) simp
  qed simp_all
qed

theorem dyn_mmap_put_refines_witness:
  "mmap_inv 1 2 mmap_zero \<and> length (mmap_abs mmap_zero [107]) < 2 ^ 31 \<and>
    (\<exists>ok m' al'. dyn_mmap_put 1 2 [True, True, False] mmap_zero [107] (3, 4) = Some (ok, m', al') \<and>
      mmap_inv 1 2 m' \<and> (ok \<longrightarrow> mmap_abs m' [107] = [(3, 4)]))"
  using dyn_mmap_put_refines [OF mmap_zero_ok(1), of "[107]" 1 2 "[True, True, False]" "(3, 4)"]
  by (auto simp: mmap_zero_ok)

text \<open>
  C4. \<open>dyn_mmap_remove_at\<close> removes exactly the cell at the given position of the key's list and
  returns it, keeping the order of the others; out of range or for an absent key it returns
  nothing and leaves the multimap as it is. The last cell of a key takes the key with it.
\<close>

theorem dyn_mmap_remove_at_refines:
  assumes inv: "mmap_inv s0 s1 m"
  shows "\<exists>r m'. dyn_mmap_remove_at s0 s1 m k i = Some (r, m') \<and> mmap_inv s0 s1 m' \<and>
    (if i < length (mmap_abs m k)
     then r = Some (mmap_abs m k ! i) \<and>
       mmap_abs m' = (mmap_abs m)(k := take i (mmap_abs m k) @ drop (i + 1) (mmap_abs m k))
     else r = None \<and> m' = m)"
  using inv
proof (cases rule: mmap_find [where k = k])
  case absent
  then show ?thesis using inv by (simp add: dyn_mmap_remove_at_def)
next
  case (present p j)
  let ?r = "mp_rec m ! j" and ?vs = "mmap_abs m k"
  show ?thesis
  proof (cases "i < length ?vs")
    case False
    then show ?thesis using present(1,2,5) inv by (simp add: dyn_mmap_remove_at_def Let_def)
  next
    case True
    let ?vs' = "take i ?vs @ drop (i + 1) ?vs"
    let ?r' = "?r\<lparr>mm_val := ?vs'\<rparr>"
    let ?m' = "m\<lparr>mp_rec := (mp_rec m)[j := ?r'], mp_total := mp_total m - 1\<rparr>"
    have pre: "mmap_pre s0 s1 m" and ok: "mmap_rec_ok s0 s1 ?r"
      using inv present(3) by (auto simp: mmap_inv_def mmap_pre_def)
    have fits: "cap_ok (mm_vcap ?r')" "length (mm_val ?r') \<le> mm_vcap ?r'"
      using ok present(5) True by (auto simp: mmap_rec_ok_def)
    have upd: "mmap_pre s0 s1 ?m'" "mmap_abs ?m' = (mmap_abs m)(k := ?vs')"
      using mmap_update_ok [OF pre present(3,4) _ fits] by simp_all
    have sz: "mrecs_size (mp_rec m) = Suc (mrecs_size (mp_rec ?m'))"
      using mrecs_size_swap(1) [OF present(3)] mrecs_size_swap(2) [OF present(3), of ?r'] True present(5) by simp
    have rem: "dyn_mmap_remove_at s0 s1 m k i = (if ?vs' = [] then
        do { m'' \<leftarrow> mmap_erase ?m' j p; Some (Some (?vs ! i), m'') } else Some (Some (?vs ! i), ?m'))"
      using present(1,2,5) True by (simp add: dyn_mmap_remove_at_def Let_def)
    have tot: "mp_total ?m' = of_nat (mrecs_size (mp_rec ?m'))"
      using inv sz by (simp add: mmap_inv_def)
    show ?thesis
    proof (cases "?vs' = []")
      case False
      have "\<forall>r \<in> set (mp_rec ?m'). mm_val r \<noteq> []"
        using inv False by (auto simp: mmap_inv_def dest!: subsetD [OF set_update_subset_insert])
      then have "mmap_inv s0 s1 ?m'"
        using upd(1) tot unfolding mmap_inv_def by blast
      moreover have "dyn_mmap_remove_at s0 s1 m k i = Some (Some (?vs ! i), ?m')"
        using rem False by argo
      ultimately show ?thesis
        using True upd(2) by (intro exI [of _ "Some (?vs ! i)"] exI [of _ ?m']) simp
    next
      case empty: True
      have f: "ix_find (mp_ix ?m') (ix_hash s0 s1 k) k = Some (Some p)" "sl_idx (ix_slot (mp_ix ?m') ! p) = j"
        using present(1,2) by simp_all
      obtain m'' where m'': "mmap_erase ?m' j p = Some m''" "mmap_pre s0 s1 m''"
        "mp_rec m'' = swap_remove (mp_rec ?m') j" "mmap_abs m'' = (mmap_abs ?m')(k := [])" "mp_total m'' = mp_total ?m'"
        by (rule mmap_erase_ok [OF upd(1) f])
      have rec: "mp_rec m'' = swap_remove (mp_rec m) j"
        using m''(3) present(3) by (simp add: swap_remove_update)
      have "\<forall>r \<in> set (mp_rec m''). mm_val r \<noteq> []"
        using inv rec present(3) by (auto simp: mmap_inv_def dest: set_swap_remove_subset)
      moreover have "mrecs_size (mp_rec m'') = mrecs_size (mp_rec ?m')"
        using mrecs_size_swap(2) [OF present(3), of ?r'] rec empty by auto
      ultimately have "mmap_inv s0 s1 m''"
        using m''(2,5) tot unfolding mmap_inv_def by metis
      moreover have "dyn_mmap_remove_at s0 s1 m k i = Some (Some (?vs ! i), m'')"
        unfolding rem if_P [OF empty] m''(1) by simp
      moreover have "mmap_abs m'' = (mmap_abs m)(k := ?vs')"
        unfolding m''(4) upd(2) by (simp only: empty fun_upd_upd)
      ultimately show ?thesis
        using True by (intro exI [of _ "Some (?vs ! i)"] exI [of _ m'']) simp
    qed
  qed
qed

theorem dyn_mmap_remove_at_refines_witness:
  "mmap_inv 1 2 mmap_zero \<and> dyn_mmap_remove_at 1 2 mmap_zero [107] 0 = Some (None, mmap_zero)"
  using dyn_mmap_remove_at_refines [OF mmap_zero_ok(1), of 1 2 "[107]" 0]
  by (auto simp: mmap_zero_ok)

text \<open>
  \<open>dyn_mmap_remove_key\<close> hands every cell of the key to the release callback, in order,
  returns their number and leaves the key absent and every other key unchanged.
\<close>

theorem dyn_mmap_remove_key_refines:
  assumes inv: "mmap_inv s0 s1 m"
  shows "\<exists>m'. dyn_mmap_remove_key s0 s1 m k = Some (length (mmap_abs m k), mmap_abs m k, m') \<and>
    mmap_inv s0 s1 m' \<and> mmap_abs m' = (mmap_abs m)(k := [])"
  using inv
proof (cases rule: mmap_find [where k = k])
  case absent
  then show ?thesis using inv by (auto simp: dyn_mmap_remove_key_def)
next
  case (present p j)
  let ?vs = "mmap_abs m k"
  let ?m = "m\<lparr>mp_total := mp_total m - of_nat (length ?vs)\<rparr>"
  have pre: "mmap_pre s0 s1 ?m" using inv by (simp add: mmap_inv_def mmap_pre_def)
  have f: "ix_find (mp_ix ?m) (ix_hash s0 s1 k) k = Some (Some p)" "sl_idx (ix_slot (mp_ix ?m) ! p) = j"
    using present(1,2) by simp_all
  obtain m' where m': "mmap_erase ?m j p = Some m'" "mmap_pre s0 s1 m'"
    "mp_rec m' = swap_remove (mp_rec ?m) j" "mmap_abs m' = (mmap_abs ?m)(k := [])" "mp_total m' = mp_total ?m"
    by (rule mmap_erase_ok [OF pre f])
  have "\<forall>r \<in> set (mp_rec m'). mm_val r \<noteq> []"
    using inv m'(3) present(3) by (auto simp: mmap_inv_def dest: set_swap_remove_subset)
  moreover have "mp_total m' = of_nat (mrecs_size (mp_rec m'))"
    using inv m'(3,5) mrecs_size_swap(1) [OF present(3)] present(5) by (simp add: mmap_inv_def)
  ultimately have "mmap_inv s0 s1 m'"
    using m'(2) by (simp add: mmap_inv_def)
  then show ?thesis
    using m' present by (auto simp: dyn_mmap_remove_key_def Let_def mmap_abs_def)
qed

theorem dyn_mmap_remove_key_refines_witness:
  "mmap_inv 1 2 mmap_zero \<and> (\<exists>m'. dyn_mmap_remove_key 1 2 mmap_zero [107] = Some (0, [], m'))"
  using dyn_mmap_remove_key_refines [OF mmap_zero_ok(1), of 1 2 "[107]"]
  by (auto simp: mmap_zero_ok)

text \<open>
  The size counter of a well-formed multimap is the exact number of cells: the sum over the
  keys of the lengths of their lists, which never reaches \<open>2 ^ 64\<close>.
\<close>

theorem dyn_mmap_size_exact:
  assumes inv: "mmap_inv s0 s1 m"
  shows "unat (dyn_mmap_size m) = (\<Sum>k | mmap_abs m k \<noteq> []. length (mmap_abs m k))"
proof -
  let ?rs = "mp_rec m"
  have a: "ix_inv (ix_hash s0 s1) (mp_ix m)" "keyed ix_look mm_bytes ?rs (mp_ix m)"
    and r: "\<forall>r \<in> set ?rs. length (mm_val r) \<le> 2 ^ 31 \<and> mm_val r \<noteq> []"
    using inv cap_ok_le by (fastforce simp: mmap_inv_def mmap_pre_def mmap_rec_ok_def)+
  have d: "distinct (map mm_bytes ?rs)" by (rule keyed_distinct [OF a(2)])
  have "mrecs_size ?rs \<le> length ?rs * 2 ^ 31"
    using r by (intro mrecs_size_le) simp
  also have "\<dots> < 2 ^ 64"
    using ix.keyed_length [OF a] by simp
  finally have "unat (dyn_mmap_size m) = mrecs_size ?rs"
    using inv by (simp add: dyn_mmap_size_def mmap_inv_def unat_of_nat)
  also have "mrecs_size ?rs = (\<Sum>r \<in> set ?rs. length (mm_val r))"
    using d by (simp add: mrecs_size_def sum_list_distinct_conv_sum_set distinct_map)
  also have "\<dots> = (\<Sum>r \<in> set ?rs. length (mmap_abs m (mm_bytes r)))"
    by (rule sum.cong) (auto simp: mmap_abs_def in_set_conv_nth mrecs_abs_nth [OF d])
  also have "\<dots> = (\<Sum>k \<in> mm_bytes ` set ?rs. length (mmap_abs m k))"
    using d by (simp add: sum.reindex distinct_map)
  also have "mm_bytes ` set ?rs = {k. mmap_abs m k \<noteq> []}"
  proof (intro set_eqI iffI)
    fix k
    assume "k \<in> mm_bytes ` set ?rs"
    then show "k \<in> {k. mmap_abs m k \<noteq> []}"
      using r nth_mem by (fastforce simp: mmap_abs_def in_set_conv_nth mrecs_abs_nth [OF d])
  next
    fix k
    assume "k \<in> {k. mmap_abs m k \<noteq> []}"
    then show "k \<in> mm_bytes ` set ?rs"
      using mrecs_abs_absent [of ?rs k] by (auto simp: mmap_abs_def)
  qed
  finally show ?thesis .
qed

theorem dyn_mmap_size_exact_witness: "mmap_inv 1 2 mmap_zero \<and> unat (dyn_mmap_size mmap_zero) = 0"
  using dyn_mmap_size_exact [of 1 2 mmap_zero] by (simp add: mmap_zero_ok)

end
