(* ===== verification/DsBimap.thy ===== *)
theory DsBimap
  imports DsStore
begin

text \<open>
  The bidirectional map \<open>dyn_bimap\<close> of \<open>src/core/dyn-ds.c\<close>: one record array, indexed by key
  (\<open>bi_fwd\<close>) and by value (\<open>bi_rev\<close>). \<open>bimap_abs\<close> is the partial function from keys to values; the
  invariant makes it injective.
\<close>

subsection \<open>Model\<close>

record bimap_rec =
  bm_key :: ds_key
  bm_val :: ds_key

record dyn_bimap =
  bi_rec :: "bimap_rec list"
  bi_cap :: nat
  bi_fwd :: dyn_ix
  bi_rev :: dyn_ix

abbreviation bm_kb :: "bimap_rec \<Rightarrow> bytes" where
  "bm_kb r \<equiv> dk_p (bm_key r)"

abbreviation bm_vb :: "bimap_rec \<Rightarrow> bytes" where
  "bm_vb r \<equiv> dk_p (bm_val r)"

text \<open>The return values 0, \<open>DYN_BIMAP_VALUE_TAKEN\<close> and \<open>-1\<close> of \<open>dyn_bimap_put\<close>.\<close>

datatype bimap_result = BimapOk | BimapValueTaken | BimapNoMem

definition bimap_zero :: dyn_bimap where
  "bimap_zero = \<lparr>bi_rec = [], bi_cap = 0, bi_fwd = ix_empty, bi_rev = ix_empty\<rparr>"

definition dyn_bimap_new :: "allocs \<Rightarrow> dyn_bimap option \<times> allocs" where
  "dyn_bimap_new al =
     (case next_alloc al of (ok, al') \<Rightarrow> (if ok then Some bimap_zero else None, al'))"

definition dyn_bimap_clear :: "dyn_bimap \<Rightarrow> dyn_bimap" where
  "dyn_bimap_clear b = b\<lparr>bi_rec := [], bi_fwd := ix_free (bi_fwd b), bi_rev := ix_free (bi_rev b)\<rparr>"

text \<open>Erasing the slot a search found, if it found one.\<close>

definition ix_erase_found :: "dyn_ix \<Rightarrow> nat option \<Rightarrow> dyn_ix option" where
  "ix_erase_found ix pos = (case pos of None \<Rightarrow> Some ix | Some p \<Rightarrow> ix_erase ix p)"

definition bimap_erase :: "dyn_bimap \<Rightarrow> nat \<Rightarrow> dyn_bimap option" where
  "bimap_erase b idx = do {
     let r = bi_rec b ! idx;
     fp \<leftarrow> ix_find (bi_fwd b) (dk_h (bm_key r)) (bm_kb r);
     rp \<leftarrow> ix_find (bi_rev b) (dk_h (bm_val r)) (bm_vb r);
     fw \<leftarrow> ix_erase_found (bi_fwd b) fp;
     rv \<leftarrow> ix_erase_found (bi_rev b) rp;
     let len = length (bi_rec b) - 1;
     let last = bi_rec b ! len;
     fw' \<leftarrow> (if idx \<noteq> len then ix_move fw (dk_h (bm_key last)) (bm_kb last) idx else Some fw);
     rv' \<leftarrow> (if idx \<noteq> len then ix_move rv (dk_h (bm_val last)) (bm_vb last) idx else Some rv);
     Some (b\<lparr>bi_rec := swap_remove (bi_rec b) idx, bi_fwd := fw', bi_rev := rv'\<rparr>)
   }"

text \<open>\<open>ix_insert\<close> where the caller ignores the return value: a failed insertion changes nothing.\<close>

definition ix_insert_unchecked ::
  "allocs \<Rightarrow> dyn_ix \<Rightarrow> u64 \<Rightarrow> bytes \<Rightarrow> nat \<Rightarrow> (dyn_ix \<times> allocs) option" where
  "ix_insert_unchecked al ix h k idx = do {
     (r, al) \<leftarrow> ix_insert al ix h k idx;
     Some (case r of None \<Rightarrow> ix | Some ix' \<Rightarrow> ix', al)
   }"

text \<open>The block that gives record \<open>idx\<close> a new value; \<open>dyn_bimap_put\<close> has it twice.\<close>

definition bimap_set_val :: "allocs \<Rightarrow> dyn_bimap \<Rightarrow> nat \<Rightarrow> ds_key \<Rightarrow> (dyn_bimap \<times> allocs) option" where
  "bimap_set_val al b idx nv = do {
     let r = bi_rec b ! idx;
     pos \<leftarrow> ix_find (bi_rev b) (dk_h (bm_val r)) (bm_vb r);
     rv \<leftarrow> ix_erase_found (bi_rev b) pos;
     (rv', al) \<leftarrow> ix_insert_unchecked al rv (dk_h nv) (dk_p nv) idx;
     Some (b\<lparr>bi_rec := (bi_rec b)[idx := r\<lparr>bm_val := nv\<rparr>], bi_rev := rv'\<rparr>, al)
   }"

text \<open>Both the key and the value are bound, to different records.\<close>

definition bimap_put_both ::
  "u64 \<Rightarrow> u64 \<Rightarrow> allocs \<Rightarrow> dyn_bimap \<Rightarrow> bytes \<Rightarrow> bytes \<Rightarrow> (bimap_result \<times> dyn_bimap \<times> allocs) option" where
  "bimap_put_both s0 s1 al b k v = do {
     let kh = ix_hash s0 s1 k;
     let vh = ix_hash s0 s1 v;
     (r, al) \<leftarrow> ix_reserve al (bi_rev b);
     case r of
       None \<Rightarrow> Some (BimapNoMem, b, al)
     | Some rv \<Rightarrow>
         let b = b\<lparr>bi_rev := rv\<rparr> in
         (case key_init al v vh of
            (None, al) \<Rightarrow> Some (BimapNoMem, b, al)
          | (Some nv, al) \<Rightarrow> do {
              vp \<leftarrow> ix_find (bi_rev b) vh v;
              b \<leftarrow> bimap_erase b (sl_idx (ix_slot (bi_rev b) ! the vp));
              kp \<leftarrow> ix_find (bi_fwd b) kh k;
              (b, al) \<leftarrow> bimap_set_val al b (sl_idx (ix_slot (bi_fwd b) ! the kp)) nv;
              Some (BimapOk, b, al)
            })
   }"

text \<open>
  The steps before a record is appended: room in the record array and copies of the key and of
  the value. \<open>dyn_bimap_put\<close> has them twice.
\<close>

definition bimap_prepare ::
  "u64 \<Rightarrow> u64 \<Rightarrow> allocs \<Rightarrow> dyn_bimap \<Rightarrow> bytes \<Rightarrow> bytes \<Rightarrow> (bimap_rec option \<times> dyn_bimap \<times> allocs) option" where
  "bimap_prepare s0 s1 al b k v = do {
     (r, al) \<leftarrow> ds_reserve al (bi_cap b) ((length (bi_rec b) + 1) mod 2 ^ 32) 48;
     case r of
       None \<Rightarrow> Some (None, b, al)
     | Some cap \<Rightarrow>
         let b = b\<lparr>bi_cap := cap\<rparr> in
         (case key_init al k (ix_hash s0 s1 k) of
            (None, al) \<Rightarrow> Some (None, b, al)
          | (Some nk, al) \<Rightarrow>
         (case key_init al v (ix_hash s0 s1 v) of
            (None, al) \<Rightarrow> Some (None, b, al)
          | (Some nv, al) \<Rightarrow> Some (Some \<lparr>bm_key = nk, bm_val = nv\<rparr>, b, al)))
   }"

text \<open>The value is bound and the key is not.\<close>

definition bimap_put_val ::
  "u64 \<Rightarrow> u64 \<Rightarrow> allocs \<Rightarrow> dyn_bimap \<Rightarrow> bytes \<Rightarrow> bytes \<Rightarrow> (bimap_result \<times> dyn_bimap \<times> allocs) option" where
  "bimap_put_val s0 s1 al b k v = do {
     let kh = ix_hash s0 s1 k;
     let vh = ix_hash s0 s1 v;
     (tmp, b, al) \<leftarrow> bimap_prepare s0 s1 al b k v;
     case tmp of
       None \<Rightarrow> Some (BimapNoMem, b, al)
     | Some tmp \<Rightarrow> do {
         (r, al) \<leftarrow> ix_reserve al (bi_fwd b);
         case r of
           None \<Rightarrow> Some (BimapNoMem, b, al)
         | Some fw \<Rightarrow> do {
             let b = b\<lparr>bi_fwd := fw\<rparr>;
             (r, al) \<leftarrow> ix_reserve al (bi_rev b);
             case r of
               None \<Rightarrow> Some (BimapNoMem, b, al)
             | Some rv \<Rightarrow> do {
                 let b = b\<lparr>bi_rev := rv\<rparr>;
                 vp \<leftarrow> ix_find (bi_rev b) vh v;
                 b \<leftarrow> bimap_erase b (sl_idx (ix_slot (bi_rev b) ! the vp));
                 (fw, al) \<leftarrow> ix_insert_unchecked al (bi_fwd b) kh k (length (bi_rec b));
                 (rv, al) \<leftarrow> ix_insert_unchecked al (bi_rev b) vh v (length (bi_rec b));
                 Some (BimapOk, b\<lparr>bi_rec := bi_rec b @ [tmp], bi_fwd := fw, bi_rev := rv\<rparr>, al)
               }
           }
       }
   }"

text \<open>The key is bound and the value is not.\<close>

definition bimap_put_key ::
  "u64 \<Rightarrow> u64 \<Rightarrow> allocs \<Rightarrow> dyn_bimap \<Rightarrow> nat \<Rightarrow> bytes \<Rightarrow> (bimap_result \<times> dyn_bimap \<times> allocs) option" where
  "bimap_put_key s0 s1 al b idx v = do {
     (r, al) \<leftarrow> ix_reserve al (bi_rev b);
     case r of
       None \<Rightarrow> Some (BimapNoMem, b, al)
     | Some rv \<Rightarrow>
         let b = b\<lparr>bi_rev := rv\<rparr> in
         (case key_init al v (ix_hash s0 s1 v) of
            (None, al) \<Rightarrow> Some (BimapNoMem, b, al)
          | (Some nv, al) \<Rightarrow> do {
              (b, al) \<leftarrow> bimap_set_val al b idx nv;
              Some (BimapOk, b, al)
            })
   }"

text \<open>Neither is bound.\<close>

definition bimap_put_new ::
  "u64 \<Rightarrow> u64 \<Rightarrow> allocs \<Rightarrow> dyn_bimap \<Rightarrow> bytes \<Rightarrow> bytes \<Rightarrow> (bimap_result \<times> dyn_bimap \<times> allocs) option" where
  "bimap_put_new s0 s1 al b k v = do {
     let kh = ix_hash s0 s1 k;
     let vh = ix_hash s0 s1 v;
     (r, b, al) \<leftarrow> bimap_prepare s0 s1 al b k v;
     case r of
       None \<Rightarrow> Some (BimapNoMem, b, al)
     | Some rec \<Rightarrow> do {
         (r, al) \<leftarrow> ix_insert al (bi_fwd b) kh k (length (bi_rec b));
         case r of
           None \<Rightarrow> Some (BimapNoMem, b, al)
         | Some fw \<Rightarrow> do {
             (r, al) \<leftarrow> ix_insert al (bi_rev b) vh v (length (bi_rec b));
             case r of
               None \<Rightarrow> do {
                 fp \<leftarrow> ix_find fw kh k;
                 fw' \<leftarrow> ix_erase_found fw fp;
                 Some (BimapNoMem, b\<lparr>bi_fwd := fw'\<rparr>, al)
               }
             | Some rv \<Rightarrow>
                 Some (BimapOk, b\<lparr>bi_rec := bi_rec b @ [rec], bi_fwd := fw, bi_rev := rv\<rparr>, al)
           }
       }
   }"

definition dyn_bimap_put ::
  "u64 \<Rightarrow> u64 \<Rightarrow> allocs \<Rightarrow> dyn_bimap \<Rightarrow> bytes \<Rightarrow> bytes \<Rightarrow> bool \<Rightarrow> (bimap_result \<times> dyn_bimap \<times> allocs) option" where
  "dyn_bimap_put s0 s1 al b k v force = do {
     kp \<leftarrow> ix_find (bi_fwd b) (ix_hash s0 s1 k) k;
     vp \<leftarrow> ix_find (bi_rev b) (ix_hash s0 s1 v) v;
     case (kp, vp) of
       (Some kp, Some vp) \<Rightarrow>
         if sl_idx (ix_slot (bi_fwd b) ! kp) = sl_idx (ix_slot (bi_rev b) ! vp) then Some (BimapOk, b, al)
         else if \<not> force then Some (BimapValueTaken, b, al)
         else bimap_put_both s0 s1 al b k v
     | (None, Some vp) \<Rightarrow>
         if \<not> force then Some (BimapValueTaken, b, al) else bimap_put_val s0 s1 al b k v
     | (Some kp, None) \<Rightarrow> bimap_put_key s0 s1 al b (sl_idx (ix_slot (bi_fwd b) ! kp)) v
     | (None, None) \<Rightarrow> bimap_put_new s0 s1 al b k v
   }"

definition dyn_bimap_get :: "u64 \<Rightarrow> u64 \<Rightarrow> dyn_bimap \<Rightarrow> bytes \<Rightarrow> bytes option option" where
  "dyn_bimap_get s0 s1 b k = do {
     pos \<leftarrow> ix_find (bi_fwd b) (ix_hash s0 s1 k) k;
     Some (case pos of None \<Rightarrow> None | Some p \<Rightarrow> Some (bm_vb (bi_rec b ! sl_idx (ix_slot (bi_fwd b) ! p))))
   }"

definition dyn_bimap_key_for :: "u64 \<Rightarrow> u64 \<Rightarrow> dyn_bimap \<Rightarrow> bytes \<Rightarrow> bytes option option" where
  "dyn_bimap_key_for s0 s1 b v = do {
     pos \<leftarrow> ix_find (bi_rev b) (ix_hash s0 s1 v) v;
     Some (case pos of None \<Rightarrow> None | Some p \<Rightarrow> Some (bm_kb (bi_rec b ! sl_idx (ix_slot (bi_rev b) ! p))))
   }"

definition dyn_bimap_remove :: "u64 \<Rightarrow> u64 \<Rightarrow> dyn_bimap \<Rightarrow> bytes \<Rightarrow> (bool \<times> dyn_bimap) option" where
  "dyn_bimap_remove s0 s1 b k = do {
     pos \<leftarrow> ix_find (bi_fwd b) (ix_hash s0 s1 k) k;
     case pos of
       None \<Rightarrow> Some (False, b)
     | Some p \<Rightarrow> do { b' \<leftarrow> bimap_erase b (sl_idx (ix_slot (bi_fwd b) ! p)); Some (True, b') }
   }"

definition dyn_bimap_remove_value :: "u64 \<Rightarrow> u64 \<Rightarrow> dyn_bimap \<Rightarrow> bytes \<Rightarrow> (bool \<times> dyn_bimap) option" where
  "dyn_bimap_remove_value s0 s1 b v = do {
     pos \<leftarrow> ix_find (bi_rev b) (ix_hash s0 s1 v) v;
     case pos of
       None \<Rightarrow> Some (False, b)
     | Some p \<Rightarrow> do { b' \<leftarrow> bimap_erase b (sl_idx (ix_slot (bi_rev b) ! p)); Some (True, b') }
   }"

definition dyn_bimap_size :: "dyn_bimap \<Rightarrow> nat" where
  "dyn_bimap_size b = length (bi_rec b)"

definition dyn_bimap_at :: "dyn_bimap \<Rightarrow> nat \<Rightarrow> (bytes \<times> bytes) option" where
  "dyn_bimap_at b i =
     (if i \<ge> length (bi_rec b) then None else Some (bm_kb (bi_rec b ! i), bm_vb (bi_rec b ! i)))"

subsection \<open>Room in the index\<close>

text \<open>
  After a successful \<open>ix_reserve\<close> the load test is false, and it stays false when entries are
  erased. With fewer than \<open>2 ^ 27\<close> entries the products in the test cannot wrap badly, and an
  insertion neither allocates nor fails.
\<close>

definition ix_roomy :: "dyn_ix \<Rightarrow> bool" where
  "ix_roomy ix \<longleftrightarrow> ix_used ix < 2 ^ 27 \<and> (ix_used ix + 1) * 10 < (ix_cap ix * 7) mod 2 ^ 32"

lemma ix_ready_roomy:
  assumes "ix_inv H ix" "ix_ready ix" "ix_used ix < 2 ^ 27"
  shows "ix_roomy ix"
  using assms(1)
  by (cases rule: ix_cap_cases) (use assms(2,3) in \<open>auto simp: ix_ready_def ix_load_def ix_roomy_def\<close>)

lemma ix_roomy_less:
  assumes "ix_roomy ix" "ix_cap ix' = ix_cap ix" "ix_used ix' \<le> ix_used ix"
  shows "ix_roomy ix'"
  using assms by (simp add: ix_roomy_def)

lemma ix_reserve_roomy:
  assumes inv: "ix_inv (ix_hash s0 s1) ix" and used: "ix_used ix < 2 ^ 27"
  obtains (fail) al' where "ix_reserve al ix = Some (None, al')" "False \<in> set al"
    | (ok) ix' al' where "ix_reserve al ix = Some (Some ix', al')" "set al' \<subseteq> set al"
      "ix_inv (ix_hash s0 s1) ix'" "ix_look ix' = ix_look ix" "ix_roomy ix'"
  using inv
proof (cases rule: ds_hash.ix_reserve_spec [where al = al])
  case (fail al')
  then show ?thesis using that(1) used next_alloc_False [of al] by auto
next
  case (ok ix' al')
  then show ?thesis using that(2) ix_ready_roomy [OF ok(3,6)] used by simp
qed

lemma ix_insert_roomy:
  assumes inv: "ix_inv (ix_hash s0 s1) ix" and room: "ix_roomy ix" and new: "ix_look ix k = None"
  obtains ix' where "ix_insert_unchecked al ix (ix_hash s0 s1 k) k i = Some (ix', al)"
    "ix_inv (ix_hash s0 s1) ix'" "ix_look ix' = (ix_look ix)(k \<mapsto> i)"
proof -
  have res: "ix_reserve a ix = Some (Some ix, a)" for a
    using room by (simp add: ix_reserve_def ix_roomy_def)
  show ?thesis
    using inv new
  proof (cases rule: ds_hash.ix_insert_spec [where al = "[]" and idx = i])
    case (fail al')
    then show ?thesis using room by (simp add: ix_roomy_def)
  next
    case (ok ix' al')
    then have "ix_insert al ix (ix_hash s0 s1 k) k i = Some (Some ix', al)"
      by (auto simp: ix_insert_def res bind_eq_Some_conv)
    then show ?thesis using that ok(3,4) by (simp add: ix_insert_unchecked_def)
  qed
qed

lemma ix_erase_room: "ix_erase ix p = Some ix' \<Longrightarrow> ix_roomy ix \<Longrightarrow> ix_roomy ix'"
  by (rule ix_roomy_less [of ix]) (auto simp: ix_erase_def bind_eq_Some_conv)

lemma ix_move_room: "ix_move ix h k i = Some ix' \<Longrightarrow> ix_roomy ix \<Longrightarrow> ix_roomy ix'"
  by (rule ix_roomy_less [of ix]) (auto simp: ix_move_def bind_eq_Some_conv split: option.splits)

subsection \<open>Invariant\<close>

definition bimap_inv :: "u64 \<Rightarrow> u64 \<Rightarrow> dyn_bimap \<Rightarrow> bool" where
  "bimap_inv s0 s1 b \<longleftrightarrow>
     ix_inv (ix_hash s0 s1) (bi_fwd b) \<and> keyed ix_look bm_kb (bi_rec b) (bi_fwd b) \<and>
     ix_inv (ix_hash s0 s1) (bi_rev b) \<and> keyed ix_look bm_vb (bi_rec b) (bi_rev b) \<and>
     cap_ok (bi_cap b) \<and> length (bi_rec b) \<le> bi_cap b \<and>
     (\<forall>r \<in> set (bi_rec b). dk_h (bm_key r) = ix_hash s0 s1 (bm_kb r) \<and>
        dk_h (bm_val r) = ix_hash s0 s1 (bm_vb r))"

definition bimap_abs :: "dyn_bimap \<Rightarrow> bytes \<Rightarrow> bytes option" where
  "bimap_abs b = recs_map bm_kb bm_vb (bi_rec b)"

lemma bimap_zero_ok: "bimap_inv s0 s1 bimap_zero" "bimap_abs bimap_zero = Map.empty"
  by (auto simp: bimap_zero_def bimap_inv_def bimap_abs_def keyed_def)

lemma bimap_invD:
  assumes "bimap_inv s0 s1 b"
  shows "ix_inv (ix_hash s0 s1) (bi_fwd b)" "keyed ix_look bm_kb (bi_rec b) (bi_fwd b)"
    "ix_inv (ix_hash s0 s1) (bi_rev b)" "keyed ix_look bm_vb (bi_rec b) (bi_rev b)"
    "distinct (map bm_kb (bi_rec b))" "distinct (map bm_vb (bi_rec b))"
  using assms keyed_distinct [of ix_look bm_kb "bi_rec b"] keyed_distinct [of ix_look bm_vb "bi_rec b"]
  unfolding bimap_inv_def by blast+

lemma bimap_used:
  assumes "bimap_inv s0 s1 b"
  shows "ix_used (bi_fwd b) = length (bi_rec b)" "ix_used (bi_rev b) = length (bi_rec b)"
  using ix_used_card keyed_card bimap_invD(1-4) [OF assms] by metis+

text \<open>Erasing one record on one of the two indices.\<close>

lemma erase_found_keyed:
  assumes inv: "ix_inv (ix_hash s0 s1) ix" and k: "keyed ix_look key rs ix" and i: "i < length rs"
  obtains pos ix1 ix2 where "ix_find ix (ix_hash s0 s1 (key (rs ! i))) (key (rs ! i)) = Some pos"
    "ix_erase_found ix pos = Some ix1"
    "(if i \<noteq> length rs - 1 then ix_move ix1 (ix_hash s0 s1 (key (rs ! (length rs - 1))))
       (key (rs ! (length rs - 1))) i else Some ix1) = Some ix2"
    "ix_inv (ix_hash s0 s1) ix2" "keyed ix_look key (swap_remove rs i) ix2"
    "ix_roomy ix \<longrightarrow> ix_roomy ix2"
proof (rule ix.find_keyed [OF inv k, of "key (rs ! i)"])
  assume "\<forall>r \<in> set rs. key r \<noteq> key (rs ! i)"
  then show ?thesis using i nth_mem by blast
next
  fix p j
  assume f: "ix_find ix (ix_hash s0 s1 (key (rs ! i))) (key (rs ! i)) = Some (Some p)"
    "sl_idx (ix_slot ix ! p) = j" "j < length rs" "key (rs ! j) = key (rs ! i)"
  have "j = i"
    using keyed_distinct [OF k] f(3,4) i by (auto simp: distinct_conv_nth)
  obtain ix1 ix2 where r: "ix_erase ix p = Some ix1"
    "(if i \<noteq> length rs - 1 then ix_move ix1 (ix_hash s0 s1 (key (rs ! (length rs - 1))))
       (key (rs ! (length rs - 1))) i else Some ix1) = Some ix2"
    "ix_inv (ix_hash s0 s1) ix2" "keyed ix_look key (swap_remove rs i) ix2"
    by (rule ix.remove_keyed [OF inv k f(1) f(2) [unfolded \<open>j = i\<close>]])
  have "ix_roomy ix2" if "ix_roomy ix"
    using ix_erase_room [OF r(1) that] ix_move_room r(2) by (auto split: if_splits)
  with f(1) r show ?thesis
    by (intro that [of "Some p" ix1 ix2]) (simp_all add: ix_erase_found_def)
qed

lemma bimap_erase_ok:
  assumes inv: "bimap_inv s0 s1 b" and i: "i < length (bi_rec b)"
  obtains b' where "bimap_erase b i = Some b'" "bimap_inv s0 s1 b'" "bi_rec b' = swap_remove (bi_rec b) i"
    "bimap_abs b' = (bimap_abs b)(bm_kb (bi_rec b ! i) := None)" "bi_cap b' = bi_cap b"
    "ix_roomy (bi_fwd b) \<longrightarrow> ix_roomy (bi_fwd b')" "ix_roomy (bi_rev b) \<longrightarrow> ix_roomy (bi_rev b')"
proof -
  let ?rs = "bi_rec b" and ?n = "length (bi_rec b) - 1" and ?H = "ix_hash s0 s1"
  note D = bimap_invD [OF inv]
  obtain fp f1 f2 where f: "ix_find (bi_fwd b) (?H (bm_kb (?rs ! i))) (bm_kb (?rs ! i)) = Some fp"
    "ix_erase_found (bi_fwd b) fp = Some f1"
    "(if i \<noteq> ?n then ix_move f1 (?H (bm_kb (?rs ! ?n))) (bm_kb (?rs ! ?n)) i else Some f1) = Some f2"
    "ix_inv ?H f2" "keyed ix_look bm_kb (swap_remove ?rs i) f2" "ix_roomy (bi_fwd b) \<longrightarrow> ix_roomy f2"
    by (rule erase_found_keyed [OF D(1,2) i])
  obtain rp r1 r2 where r: "ix_find (bi_rev b) (?H (bm_vb (?rs ! i))) (bm_vb (?rs ! i)) = Some rp"
    "ix_erase_found (bi_rev b) rp = Some r1"
    "(if i \<noteq> ?n then ix_move r1 (?H (bm_vb (?rs ! ?n))) (bm_vb (?rs ! ?n)) i else Some r1) = Some r2"
    "ix_inv ?H r2" "keyed ix_look bm_vb (swap_remove ?rs i) r2" "ix_roomy (bi_rev b) \<longrightarrow> ix_roomy r2"
    by (rule erase_found_keyed [OF D(3,4) i])
  have "?rs ! i \<in> set ?rs" "?rs ! ?n \<in> set ?rs" using i by (auto intro: nth_mem)
  then have h: "dk_h (bm_key (?rs ! i)) = ?H (bm_kb (?rs ! i))" "dk_h (bm_val (?rs ! i)) = ?H (bm_vb (?rs ! i))"
    "dk_h (bm_key (?rs ! ?n)) = ?H (bm_kb (?rs ! ?n))" "dk_h (bm_val (?rs ! ?n)) = ?H (bm_vb (?rs ! ?n))"
    using inv by (auto simp: bimap_inv_def)
  let ?b = "b\<lparr>bi_rec := swap_remove ?rs i, bi_fwd := f2, bi_rev := r2\<rparr>"
  have "bimap_erase b i = Some ?b"
    unfolding bimap_erase_def Let_def h f(1) r(1) bind.bind_lunit f(2) r(2) f(3) r(3) by simp
  moreover have "bimap_inv s0 s1 ?b"
    using inv i f(4,5) r(4,5) by (auto simp: bimap_inv_def dest: set_swap_remove_subset)
  moreover have "bimap_abs ?b = (bimap_abs b)(bm_kb (bi_rec b ! i) := None)"
    using recs_map_swap_remove(1) [OF D(5) i] by (simp add: bimap_abs_def)
  ultimately show ?thesis
    using f(6) r(6) by (intro that [of ?b]) auto
qed

lemma distinct_key_inj:
  "distinct (map key rs) \<Longrightarrow> i < length rs \<Longrightarrow> j < length rs \<Longrightarrow> key (rs ! i) = key (rs ! j) \<Longrightarrow> i = j"
  by (metis length_map nth_eq_iff_index_eq nth_map)

lemma keyed_replace:
  assumes k: "keyed look key rs ix" and i: "i < length rs" and new: "\<forall>r \<in> set rs. key r \<noteq> key x"
    and look: "look ix' = (look ix)(key (rs ! i) := None, key x \<mapsto> i)"
  shows "keyed look key (rs[i := x]) ix'"
  unfolding keyed_def
proof (intro allI)
  fix k' j
  have old: "look ix k' = Some j \<longleftrightarrow> j < length rs \<and> key (rs ! j) = k'"
    using k by (simp add: keyed_def)
  have d: "j < length rs \<Longrightarrow> key (rs ! j) = key (rs ! i) \<longleftrightarrow> j = i"
    using keyed_distinct [OF k] i by (auto simp: distinct_conv_nth)
  have n: "j < length rs \<Longrightarrow> key (rs ! j) \<noteq> key x" "key (rs ! i) \<noteq> key x"
    using new i by auto
  show "look ix' k' = Some j \<longleftrightarrow> j < length (rs[i := x]) \<and> key (rs[i := x] ! j) = k'"
    using old d n i by (cases "k' = key x"; cases "k' = key (rs ! i)"; cases "j = i") (auto simp: look)
qed

text \<open>What the two searches say about the abstract map.\<close>

lemma bimap_abs_nth:
  assumes "bimap_inv s0 s1 b" "i < length (bi_rec b)"
  shows "bimap_abs b (bm_kb (bi_rec b ! i)) = Some (bm_vb (bi_rec b ! i))"
    and "bimap_abs b x = Some (bm_vb (bi_rec b ! i)) \<longleftrightarrow> x = bm_kb (bi_rec b ! i)"
proof -
  note D = bimap_invD [OF assms(1)]
  show nth: "bimap_abs b (bm_kb (bi_rec b ! i)) = Some (bm_vb (bi_rec b ! i))"
    unfolding bimap_abs_def by (rule recs_map_nth [OF D(5) assms(2)])
  have "x = bm_kb (bi_rec b ! i)" if a: "bimap_abs b x = Some (bm_vb (bi_rec b ! i))"
  proof -
    obtain r where r: "r \<in> set (bi_rec b)" "bm_kb r = x" "bm_vb r = bm_vb (bi_rec b ! i)"
      using a recs_map_iff [OF D(5), of bm_vb x] unfolding bimap_abs_def by blast
    have "inj_on bm_vb (set (bi_rec b))" using D(6) by (simp add: distinct_map)
    then have "r = bi_rec b ! i"
      using r(1,3) assms(2) by (meson inj_onD nth_mem)
    then show ?thesis using r(2) by simp
  qed
  then show "bimap_abs b x = Some (bm_vb (bi_rec b ! i)) \<longleftrightarrow> x = bm_kb (bi_rec b ! i)"
    using nth by auto
qed

lemma bimap_find_key:
  assumes "bimap_inv s0 s1 b"
  obtains (absent) "ix_find (bi_fwd b) (ix_hash s0 s1 k) k = Some None" "ix_look (bi_fwd b) k = None"
      "\<forall>r \<in> set (bi_rec b). bm_kb r \<noteq> k" "bimap_abs b k = None"
    | (present) p i where "ix_find (bi_fwd b) (ix_hash s0 s1 k) k = Some (Some p)"
      "sl_idx (ix_slot (bi_fwd b) ! p) = i" "i < length (bi_rec b)" "bm_kb (bi_rec b ! i) = k"
      "bimap_abs b k = Some (bm_vb (bi_rec b ! i))"
proof (rule ix.find_keyed [OF bimap_invD(1,2) [OF assms], of k])
  assume "ix_find (bi_fwd b) (ix_hash s0 s1 k) k = Some None" "ix_look (bi_fwd b) k = None"
    "\<forall>r \<in> set (bi_rec b). bm_kb r \<noteq> k"
  then show ?thesis
    by (intro absent) (simp_all add: bimap_abs_def recs_map_None)
next
  fix p i
  assume "ix_find (bi_fwd b) (ix_hash s0 s1 k) k = Some (Some p)"
    "sl_idx (ix_slot (bi_fwd b) ! p) = i" "i < length (bi_rec b)" "bm_kb (bi_rec b ! i) = k"
  then show ?thesis
    using bimap_abs_nth(1) [OF assms, of i] by (intro present) simp_all
qed

lemma bimap_find_val:
  assumes "bimap_inv s0 s1 b"
  obtains (absent) "ix_find (bi_rev b) (ix_hash s0 s1 v) v = Some None" "ix_look (bi_rev b) v = None"
      "\<forall>r \<in> set (bi_rec b). bm_vb r \<noteq> v" "\<And>x. bimap_abs b x \<noteq> Some v"
    | (present) p i where "ix_find (bi_rev b) (ix_hash s0 s1 v) v = Some (Some p)"
      "sl_idx (ix_slot (bi_rev b) ! p) = i" "i < length (bi_rec b)" "bm_vb (bi_rec b ! i) = v"
      "\<And>x. bimap_abs b x = Some v \<longleftrightarrow> x = bm_kb (bi_rec b ! i)"
proof (rule ix.find_keyed [OF bimap_invD(3,4) [OF assms], of v])
  assume a: "ix_find (bi_rev b) (ix_hash s0 s1 v) v = Some None" "ix_look (bi_rev b) v = None"
    "\<forall>r \<in> set (bi_rec b). bm_vb r \<noteq> v"
  show ?thesis
    by (rule absent [OF a]) (use a(3) recs_map_iff [OF bimap_invD(5) [OF assms], of bm_vb] in \<open>auto simp: bimap_abs_def\<close>)
next
  fix p i
  assume a: "ix_find (bi_rev b) (ix_hash s0 s1 v) v = Some (Some p)"
    "sl_idx (ix_slot (bi_rev b) ! p) = i" "i < length (bi_rec b)" "bm_vb (bi_rec b ! i) = v"
  show ?thesis
    by (rule present [OF a]) (use bimap_abs_nth(2) [OF assms a(3)] a(4) in auto)
qed

lemma bimap_set_val_ok:
  assumes inv: "bimap_inv s0 s1 b" and i: "i < length (bi_rec b)" and new: "\<forall>r \<in> set (bi_rec b). bm_vb r \<noteq> v"
    and room: "ix_roomy (bi_rev b)"
  obtains b' where "bimap_set_val al b i \<lparr>dk_p = v, dk_h = ix_hash s0 s1 v\<rparr> = Some (b', al)" "bimap_inv s0 s1 b'"
    "bimap_abs b' = (bimap_abs b)(bm_kb (bi_rec b ! i) \<mapsto> v)"
proof -
  let ?rs = "bi_rec b" and ?H = "ix_hash s0 s1" and ?nv = "\<lparr>dk_p = v, dk_h = ix_hash s0 s1 v\<rparr>"
  let ?ov = "bm_vb (?rs ! i)" and ?r = "(?rs ! i)\<lparr>bm_val := ?nv\<rparr>"
  note D = bimap_invD [OF inv]
  have h: "dk_h (bm_key (?rs ! i)) = ?H (bm_kb (?rs ! i))" "dk_h (bm_val (?rs ! i)) = ?H ?ov"
    using inv i by (auto simp: bimap_inv_def)
  obtain p where p: "ix_find (bi_rev b) (?H ?ov) ?ov = Some (Some p)"
    by (rule bimap_find_val [OF inv, of ?ov]) (use i nth_mem in auto)
  obtain r1 where r1: "ix_erase (bi_rev b) p = Some r1" "ix_inv ?H r1" "ix_look r1 = (ix_look (bi_rev b))(?ov := None)"
    by (rule ds_hash.ix_erase_spec [OF D(3) p])
  have "ix_look r1 v = None"
    using r1(3) keyed_None [OF D(4)] new by simp
  then obtain r2 where r2: "ix_insert_unchecked al r1 (?H v) v i = Some (r2, al)" "ix_inv ?H r2"
    "ix_look r2 = (ix_look r1)(v \<mapsto> i)"
    by (rule ix_insert_roomy [OF r1(2) ix_erase_room [OF r1(1) room]])
  let ?b = "b\<lparr>bi_rec := ?rs[i := ?r], bi_rev := r2\<rparr>"
  have "bimap_set_val al b i ?nv = Some (?b, al)"
    using p r1(1) r2(1) by (simp add: bimap_set_val_def h ix_erase_found_def)
  moreover have "keyed ix_look bm_vb (?rs[i := ?r]) r2"
    using new r1(3) r2(3) by (intro keyed_replace [OF D(4) i]) simp_all
  then have "bimap_inv s0 s1 ?b"
    using inv i r2(2) keyed_update [OF D(2) i, of ?r] h
    by (auto simp: bimap_inv_def dest!: subsetD [OF set_update_subset_insert])
  moreover have "bimap_abs ?b = (bimap_abs b)(bm_kb (?rs ! i) \<mapsto> v)"
    using recs_map_update [OF D(5) i, of ?r bm_vb] by (simp add: bimap_abs_def)
  ultimately show ?thesis by (rule that)
qed

subsection \<open>Put\<close>

definition bput :: "(bytes \<Rightarrow> bytes option) \<Rightarrow> bytes \<Rightarrow> bytes \<Rightarrow> bytes \<Rightarrow> bytes option" where
  "bput M k v = (\<lambda>x. if M x = Some v then None else M x)(k \<mapsto> v)"

text \<open>The outcome of each case of \<open>dyn_bimap_put\<close> that binds the key: success or out of memory.\<close>

definition bput_outcome ::
  "u64 \<Rightarrow> u64 \<Rightarrow> allocs \<Rightarrow> dyn_bimap \<Rightarrow> bytes \<Rightarrow> bytes \<Rightarrow> (bimap_result \<times> dyn_bimap \<times> allocs) option \<Rightarrow> bool" where
  "bput_outcome s0 s1 al b k v res \<longleftrightarrow>
     (\<exists>r b' al'. res = Some (r, b', al') \<and> bimap_inv s0 s1 b' \<and>
        (r = BimapOk \<and> bimap_abs b' = bput (bimap_abs b) k v \<or>
         r = BimapNoMem \<and> bimap_abs b' = bimap_abs b \<and> False \<in> set al))"

lemma bput_outcome_ok:
  "res = Some (BimapOk, b', al') \<Longrightarrow> bimap_inv s0 s1 b' \<Longrightarrow> bimap_abs b' = bput (bimap_abs b) k v \<Longrightarrow>
    bput_outcome s0 s1 al b k v res"
  by (auto simp: bput_outcome_def)

lemma bput_outcome_fail:
  "res = Some (BimapNoMem, b', al') \<Longrightarrow> bimap_inv s0 s1 b' \<Longrightarrow> bimap_abs b' = bimap_abs b \<Longrightarrow> False \<in> set al \<Longrightarrow>
    bput_outcome s0 s1 al b k v res"
  by (auto simp: bput_outcome_def)

lemma bimap_inv_reindex:
  assumes "bimap_inv s0 s1 b"
  shows "ix_inv (ix_hash s0 s1) r \<Longrightarrow> ix_look r = ix_look (bi_rev b) \<Longrightarrow> bimap_inv s0 s1 (b\<lparr>bi_rev := r\<rparr>)"
    and "ix_inv (ix_hash s0 s1) f \<Longrightarrow> ix_look f = ix_look (bi_fwd b) \<Longrightarrow> bimap_inv s0 s1 (b\<lparr>bi_fwd := f\<rparr>)"
    and "cap_ok c \<Longrightarrow> length (bi_rec b) \<le> c \<Longrightarrow> bimap_inv s0 s1 (b\<lparr>bi_cap := c\<rparr>)"
  using assms by (simp_all add: bimap_inv_def keyed_def)

lemma bimap_abs_reindex [simp]:
  "bimap_abs (b\<lparr>bi_rev := r\<rparr>) = bimap_abs b" "bimap_abs (b\<lparr>bi_fwd := f\<rparr>) = bimap_abs b"
  "bimap_abs (b\<lparr>bi_cap := c\<rparr>) = bimap_abs b"
  by (simp_all add: bimap_abs_def)

lemma key_init_cases:
  obtains (fail) al' where "key_init al k h = (None, al')" "False \<in> set al"
    | (ok) al' where "key_init al k h = (Some \<lparr>dk_p = k, dk_h = h\<rparr>, al')" "set al' \<subseteq> set al"
proof (cases "next_alloc al")
  case (Pair ok al')
  then have "set al' \<subseteq> set al" "\<not> ok \<Longrightarrow> False \<in> set al"
    using next_alloc_set [of al] next_alloc_False [of al] by auto
  with Pair show ?thesis
    using that by (cases ok) (simp_all add: key_init_def)
qed

lemma bimap_put_key_ok:
  assumes inv: "bimap_inv s0 s1 b" and small: "length (bi_rec b) < 2 ^ 27"
    and i: "i < length (bi_rec b)" "bm_kb (bi_rec b ! i) = k"
    and new: "\<forall>r \<in> set (bi_rec b). bm_vb r \<noteq> v" "\<And>x. bimap_abs b x \<noteq> Some v"
  shows "bput_outcome s0 s1 al b k v (bimap_put_key s0 s1 al b i v)"
proof (rule ix_reserve_roomy [OF bimap_invD(3) [OF inv], of al])
  show "ix_used (bi_rev b) < 2 ^ 27" using bimap_used [OF inv] small by simp
next
  fix al'
  assume "ix_reserve al (bi_rev b) = Some (None, al')" "False \<in> set al"
  then show ?thesis
    using inv by (intro bput_outcome_fail [of _ b al']) (simp_all add: bimap_put_key_def)
next
  fix r al1
  assume res: "ix_reserve al (bi_rev b) = Some (Some r, al1)" "set al1 \<subseteq> set al"
    "ix_inv (ix_hash s0 s1) r" "ix_look r = ix_look (bi_rev b)" "ix_roomy r"
  let ?b = "b\<lparr>bi_rev := r\<rparr>"
  note inv1 = bimap_inv_reindex(1) [OF inv res(3,4)]
  show ?thesis
  proof (rule key_init_cases [of al1 v "ix_hash s0 s1 v"])
    fix al2
    assume "key_init al1 v (ix_hash s0 s1 v) = (None, al2)" "False \<in> set al1"
    then show ?thesis
      using inv1 res by (intro bput_outcome_fail [of _ ?b al2]) (auto simp: bimap_put_key_def)
  next
    fix al2
    assume key: "key_init al1 v (ix_hash s0 s1 v) = (Some \<lparr>dk_p = v, dk_h = ix_hash s0 s1 v\<rparr>, al2)"
    obtain b' where b': "bimap_set_val al2 ?b i \<lparr>dk_p = v, dk_h = ix_hash s0 s1 v\<rparr> = Some (b', al2)"
      "bimap_inv s0 s1 b'" "bimap_abs b' = (bimap_abs ?b)(bm_kb (bi_rec ?b ! i) \<mapsto> v)"
      by (rule bimap_set_val_ok [OF inv1, of i v al2]) (use i new res(5) in simp_all)
    have "bput (bimap_abs b) k v = (bimap_abs b)(k \<mapsto> v)"
      using new(2) by (auto simp: bput_def)
    then show ?thesis
      using res(1) key b' i(2) by (intro bput_outcome_ok [of _ b' al2]) (simp_all add: bimap_put_key_def)
  qed
qed

lemma bimap_find_val_at:
  assumes inv: "bimap_inv s0 s1 b" and j: "j < length (bi_rec b)" "bm_vb (bi_rec b ! j) = v"
  obtains p where "ix_find (bi_rev b) (ix_hash s0 s1 v) v = Some (Some p)" "sl_idx (ix_slot (bi_rev b) ! p) = j"
proof (rule bimap_find_val [OF inv, of v])
  assume "\<forall>r \<in> set (bi_rec b). bm_vb r \<noteq> v"
  then show ?thesis using nth_mem [OF j(1)] j(2) by blast
next
  fix p j'
  assume a: "ix_find (bi_rev b) (ix_hash s0 s1 v) v = Some (Some p)" "sl_idx (ix_slot (bi_rev b) ! p) = j'"
    "j' < length (bi_rec b)" "bm_vb (bi_rec b ! j') = v"
  have "j' = j"
    by (rule distinct_key_inj [OF bimap_invD(6) [OF inv] a(3) j(1)]) (simp only: a(4) j(2))
  then show ?thesis using that [OF a(1)] a(2) by blast
qed

lemma bput_at:
  assumes "bimap_inv s0 s1 b" "j < length (bi_rec b)" "bm_vb (bi_rec b ! j) = v"
  shows "bput (bimap_abs b) k v = (bimap_abs b)(bm_kb (bi_rec b ! j) := None, k \<mapsto> v)"
proof
  fix x
  show "bput (bimap_abs b) k v x = ((bimap_abs b)(bm_kb (bi_rec b ! j) := None, k \<mapsto> v)) x"
    using bimap_abs_nth(2) [OF assms(1,2), of x] unfolding assms(3) bput_def by (cases "x = k") simp_all
qed

lemma bimap_put_both_ok:
  assumes inv: "bimap_inv s0 s1 b" and small: "length (bi_rec b) < 2 ^ 27"
    and i: "i < length (bi_rec b)" "bm_kb (bi_rec b ! i) = k"
    and j: "j < length (bi_rec b)" "bm_vb (bi_rec b ! j) = v" and ij: "i \<noteq> j"
  shows "bput_outcome s0 s1 al b k v (bimap_put_both s0 s1 al b k v)"
proof (rule ix_reserve_roomy [OF bimap_invD(3) [OF inv], of al])
  show "ix_used (bi_rev b) < 2 ^ 27" using bimap_used [OF inv] small by simp
next
  fix al'
  assume "ix_reserve al (bi_rev b) = Some (None, al')" "False \<in> set al"
  then show ?thesis
    using inv by (intro bput_outcome_fail [of _ b al']) (simp_all add: bimap_put_both_def)
next
  fix r al1
  assume res: "ix_reserve al (bi_rev b) = Some (Some r, al1)" "set al1 \<subseteq> set al"
    "ix_inv (ix_hash s0 s1) r" "ix_look r = ix_look (bi_rev b)" "ix_roomy r"
  let ?b = "b\<lparr>bi_rev := r\<rparr>"
  note inv1 = bimap_inv_reindex(1) [OF inv res(3,4)]
  show ?thesis
  proof (rule key_init_cases [of al1 v "ix_hash s0 s1 v"])
    fix al2
    assume "key_init al1 v (ix_hash s0 s1 v) = (None, al2)" "False \<in> set al1"
    then show ?thesis
      using inv1 res by (intro bput_outcome_fail [of _ ?b al2]) (auto simp: bimap_put_both_def)
  next
    fix al2
    assume key: "key_init al1 v (ix_hash s0 s1 v) = (Some \<lparr>dk_p = v, dk_h = ix_hash s0 s1 v\<rparr>, al2)"
    have v1: "j < length (bi_rec ?b)" "bm_vb (bi_rec ?b ! j) = v" using j by simp_all
    obtain vp where "ix_find (bi_rev ?b) (ix_hash s0 s1 v) v = Some (Some vp)" "sl_idx (ix_slot (bi_rev ?b) ! vp) = j"
      by (rule bimap_find_val_at [OF inv1 v1])
    then have vp: "ix_find r (ix_hash s0 s1 v) v = Some (Some vp)" "sl_idx (ix_slot r ! vp) = j" by simp_all
    obtain b2 where b2: "bimap_erase ?b j = Some b2" "bimap_inv s0 s1 b2" "bi_rec b2 = swap_remove (bi_rec b) j"
      "bimap_abs b2 = (bimap_abs b)(bm_kb (bi_rec b ! j) := None)" "ix_roomy (bi_rev b2)"
      by (rule bimap_erase_ok [OF inv1, of j]) (use j res(5) in simp_all)
    have kj: "bm_kb (bi_rec b ! j) \<noteq> k"
      using distinct_key_inj [OF bimap_invD(5) [OF inv] i(1) j(1)] i(2) ij by auto
    have "recs_map bm_vb bm_kb (bi_rec b2) v = None"
      using recs_map_swap_remove(1) [OF bimap_invD(6) [OF inv] j(1), of bm_kb] j(2) b2(3) by simp
    then have new: "\<forall>r \<in> set (bi_rec b2). bm_vb r \<noteq> v"
      by (simp add: recs_map_None)
    obtain kp i' where kp: "ix_find (bi_fwd b2) (ix_hash s0 s1 k) k = Some (Some kp)"
      "sl_idx (ix_slot (bi_fwd b2) ! kp) = i'" "i' < length (bi_rec b2)" "bm_kb (bi_rec b2 ! i') = k"
      by (rule bimap_find_key [OF b2(2), of k]) (use b2(4) kj bimap_abs_nth(1) [OF inv i(1)] i(2) in simp_all)
    obtain b3 where b3: "bimap_set_val al2 b2 i' \<lparr>dk_p = v, dk_h = ix_hash s0 s1 v\<rparr> = Some (b3, al2)"
      "bimap_inv s0 s1 b3" "bimap_abs b3 = (bimap_abs b2)(bm_kb (bi_rec b2 ! i') \<mapsto> v)"
      by (rule bimap_set_val_ok [OF b2(2) kp(3) new b2(5)])
    have "bput (bimap_abs b) k v = (bimap_abs b)(bm_kb (bi_rec b ! j) := None, k \<mapsto> v)"
      by (rule bput_at [OF inv j])
    then have "bimap_abs b3 = bput (bimap_abs b) k v"
      using b3(3) b2(4) kp(4) by simp
    moreover have "bimap_put_both s0 s1 al b k v = Some (BimapOk, b3, al2)"
      using res(1) key vp b2(1) kp(1,2) b3(1) by (simp add: bimap_put_both_def)
    ultimately show ?thesis
      using b3(2) by (intro bput_outcome_ok [of _ b3 al2])
  qed
qed

lemma bimap_append_ok:
  assumes inv: "bimap_inv s0 s1 b" and new: "\<forall>r \<in> set (bi_rec b). bm_kb r \<noteq> k" "\<forall>r \<in> set (bi_rec b). bm_vb r \<noteq> v"
    and f: "ix_inv (ix_hash s0 s1) f" "ix_look f = (ix_look (bi_fwd b))(k \<mapsto> length (bi_rec b))"
    and r: "ix_inv (ix_hash s0 s1) r" "ix_look r = (ix_look (bi_rev b))(v \<mapsto> length (bi_rec b))"
    and cap: "length (bi_rec b) < bi_cap b"
    and rc: "rc = \<lparr>bm_key = \<lparr>dk_p = k, dk_h = ix_hash s0 s1 k\<rparr>, bm_val = \<lparr>dk_p = v, dk_h = ix_hash s0 s1 v\<rparr>\<rparr>"
  shows "bimap_inv s0 s1 (b\<lparr>bi_rec := bi_rec b @ [rc], bi_fwd := f, bi_rev := r\<rparr>)"
    and "bimap_abs (b\<lparr>bi_rec := bi_rec b @ [rc], bi_fwd := f, bi_rev := r\<rparr>) = (bimap_abs b)(k \<mapsto> v)"
proof -
  note D = bimap_invD [OF inv]
  have "keyed ix_look bm_kb (bi_rec b @ [rc]) f" "keyed ix_look bm_vb (bi_rec b @ [rc]) r"
    using keyed_None [OF D(2), of k] keyed_None [OF D(4), of v] new f(2) r(2) rc
    by (auto intro!: keyed_snoc [OF D(2)] keyed_snoc [OF D(4)])
  then show "bimap_inv s0 s1 (b\<lparr>bi_rec := bi_rec b @ [rc], bi_fwd := f, bi_rev := r\<rparr>)"
    using inv f(1) r(1) cap rc by (auto simp: bimap_inv_def)
  show "bimap_abs (b\<lparr>bi_rec := bi_rec b @ [rc], bi_fwd := f, bi_rev := r\<rparr>) = (bimap_abs b)(k \<mapsto> v)"
    using recs_map_snoc [of "bi_rec b" bm_kb rc bm_vb] new(1) rc by (simp add: bimap_abs_def)
qed

lemma bimap_prepare_ok:
  assumes inv: "bimap_inv s0 s1 b"
  obtains (fail) b' al' where "bimap_prepare s0 s1 al b k v = Some (None, b', al')" "bimap_inv s0 s1 b'"
      "bimap_abs b' = bimap_abs b" "False \<in> set al"
    | (ok) c al' where "cap_ok c" "length (bi_rec b) < c" "set al' \<subseteq> set al" "bimap_inv s0 s1 (b\<lparr>bi_cap := c\<rparr>)"
      "bimap_prepare s0 s1 al b k v = Some (Some \<lparr>bm_key = \<lparr>dk_p = k, dk_h = ix_hash s0 s1 k\<rparr>,
         bm_val = \<lparr>dk_p = v, dk_h = ix_hash s0 s1 v\<rparr>\<rparr>, b\<lparr>bi_cap := c\<rparr>, al')"
proof -
  let ?len = "length (bi_rec b)"
  have cap: "cap_ok (bi_cap b)" using inv by (simp add: bimap_inv_def)
  have need: "(?len + 1) mod 2 ^ 32 = ?len + 1" "?len + 1 \<le> 2 ^ 31"
    using ix.keyed_length [OF bimap_invD(1,2) [OF inv]] by auto
  show ?thesis
  proof (rule ds_reserve_cases [OF cap need(2), of 48 al])
    fix al1
    assume "ds_reserve al (bi_cap b) (?len + 1) 48 = Some (None, al1)" "\<not> fst (next_alloc al)"
    then show ?thesis
      using inv need by (intro fail [of b al1]) (auto simp: bimap_prepare_def next_alloc_False)
  next
    fix c al1
    assume res: "ds_reserve al (bi_cap b) (?len + 1) 48 = Some (Some c, al1)" "cap_ok c" "?len + 1 \<le> c"
      "?len + 1 \<le> bi_cap b \<Longrightarrow> c = bi_cap b \<and> al1 = al" "bi_cap b < ?len + 1 \<Longrightarrow> al1 = snd (next_alloc al)"
    have sub: "set al1 \<subseteq> set al" using res(4,5) next_alloc_set [of al] by (cases "bi_cap b < ?len + 1") auto
    let ?b = "b\<lparr>bi_cap := c\<rparr>"
    have inv1: "bimap_inv s0 s1 ?b" using bimap_inv_reindex(3) [OF inv res(2)] res(3) by simp
    show ?thesis
    proof (rule key_init_cases [of al1 k "ix_hash s0 s1 k"])
      fix al2
      assume "key_init al1 k (ix_hash s0 s1 k) = (None, al2)" "False \<in> set al1"
      then show ?thesis
        using inv1 res(1) need sub by (intro fail [of ?b al2]) (auto simp: bimap_prepare_def)
    next
      fix al2
      assume k: "key_init al1 k (ix_hash s0 s1 k) = (Some \<lparr>dk_p = k, dk_h = ix_hash s0 s1 k\<rparr>, al2)" "set al2 \<subseteq> set al1"
      show ?thesis
      proof (rule key_init_cases [of al2 v "ix_hash s0 s1 v"])
        fix al3
        assume "key_init al2 v (ix_hash s0 s1 v) = (None, al3)" "False \<in> set al2"
        then show ?thesis
          using inv1 res(1) need sub k by (intro fail [of ?b al3]) (auto simp: bimap_prepare_def)
      next
        fix al3
        assume v: "key_init al2 v (ix_hash s0 s1 v) = (Some \<lparr>dk_p = v, dk_h = ix_hash s0 s1 v\<rparr>, al3)" "set al3 \<subseteq> set al2"
        have "set al3 \<subseteq> set al" using sub k(2) v(2) by blast
        moreover have "bimap_prepare s0 s1 al b k v = Some (Some \<lparr>bm_key = \<lparr>dk_p = k, dk_h = ix_hash s0 s1 k\<rparr>,
            bm_val = \<lparr>dk_p = v, dk_h = ix_hash s0 s1 v\<rparr>\<rparr>, ?b, al3)"
          using res(1) need(1) k(1) v(1) by (simp add: bimap_prepare_def)
        ultimately show ?thesis
          using inv1 res(2,3) by (intro ok [of c al3]) simp_all
      qed
    qed
  qed simp_all
qed

lemma bimap_put_val_ok:
  assumes inv: "bimap_inv s0 s1 b" and small: "length (bi_rec b) < 2 ^ 27"
    and knew: "\<forall>r \<in> set (bi_rec b). bm_kb r \<noteq> k"
    and j: "j < length (bi_rec b)" "bm_vb (bi_rec b ! j) = v"
  shows "bput_outcome s0 s1 al b k v (bimap_put_val s0 s1 al b k v)"
proof (rule bimap_prepare_ok [OF inv, of al k v])
  fix b' al'
  assume "bimap_prepare s0 s1 al b k v = Some (None, b', al')" "bimap_inv s0 s1 b'"
    "bimap_abs b' = bimap_abs b" "False \<in> set al"
  then show ?thesis
    by (intro bput_outcome_fail [of _ b' al']) (simp_all add: bimap_put_val_def)
next
  fix c al1
  let ?H = "ix_hash s0 s1" and ?b = "b\<lparr>bi_cap := c\<rparr>"
  let ?rc = "\<lparr>bm_key = \<lparr>dk_p = k, dk_h = ?H k\<rparr>, bm_val = \<lparr>dk_p = v, dk_h = ?H v\<rparr>\<rparr>"
  assume c: "cap_ok c" "length (bi_rec b) < c" and al1: "set al1 \<subseteq> set al" and inv1: "bimap_inv s0 s1 ?b"
    and prep: "bimap_prepare s0 s1 al b k v = Some (Some ?rc, ?b, al1)"
  have used: "ix_used (bi_fwd b) < 2 ^ 27" "ix_used (bi_rev b) < 2 ^ 27"
    using bimap_used [OF inv] small by simp_all
  show ?thesis
  proof (rule ix_reserve_roomy [OF bimap_invD(1) [OF inv] used(1), of al1])
    fix al2
    assume "ix_reserve al1 (bi_fwd b) = Some (None, al2)" "False \<in> set al1"
    then show ?thesis
      using inv1 prep al1 by (intro bput_outcome_fail [of _ ?b al2]) (auto simp: bimap_put_val_def)
  next
    fix f al2
    assume f: "ix_reserve al1 (bi_fwd b) = Some (Some f, al2)" "set al2 \<subseteq> set al1" "ix_inv ?H f"
      "ix_look f = ix_look (bi_fwd b)" "ix_roomy f"
    let ?b2 = "?b\<lparr>bi_fwd := f\<rparr>"
    have inv2: "bimap_inv s0 s1 ?b2" using bimap_inv_reindex(2) [OF inv1 f(3)] f(4) by simp
    show ?thesis
    proof (rule ix_reserve_roomy [OF bimap_invD(3) [OF inv] used(2), of al2])
      fix al3
      assume "ix_reserve al2 (bi_rev b) = Some (None, al3)" "False \<in> set al2"
      then show ?thesis
        using inv2 prep al1 f(1,2) by (intro bput_outcome_fail [of _ ?b2 al3]) (auto simp: bimap_put_val_def)
    next
      fix r al3
      assume r: "ix_reserve al2 (bi_rev b) = Some (Some r, al3)" "ix_inv ?H r"
        "ix_look r = ix_look (bi_rev b)" "ix_roomy r"
      let ?b3 = "?b2\<lparr>bi_rev := r\<rparr>"
      have inv3: "bimap_inv s0 s1 ?b3" using bimap_inv_reindex(1) [OF inv2 r(2)] r(3) by simp
      have v3: "j < length (bi_rec ?b3)" "bm_vb (bi_rec ?b3 ! j) = v" using j by simp_all
      obtain vp where "ix_find (bi_rev ?b3) (?H v) v = Some (Some vp)" "sl_idx (ix_slot (bi_rev ?b3) ! vp) = j"
        by (rule bimap_find_val_at [OF inv3 v3])
      then have vp: "ix_find r (?H v) v = Some (Some vp)" "sl_idx (ix_slot r ! vp) = j" by simp_all
      obtain b4 where b4: "bimap_erase ?b3 j = Some b4" "bimap_inv s0 s1 b4" "bi_rec b4 = swap_remove (bi_rec b) j"
        "bimap_abs b4 = (bimap_abs b)(bm_kb (bi_rec b ! j) := None)" "bi_cap b4 = c"
        "ix_roomy (bi_fwd b4)" "ix_roomy (bi_rev b4)"
        by (rule bimap_erase_ok [OF inv3, of j]) (use j f(5) r(4) in simp_all)
      have "recs_map bm_vb bm_kb (bi_rec b4) v = None"
        using recs_map_swap_remove(1) [OF bimap_invD(6) [OF inv] j(1), of bm_kb] j(2) b4(3) by simp
      then have vnew: "\<forall>r \<in> set (bi_rec b4). bm_vb r \<noteq> v"
        by (simp add: recs_map_None)
      have knew4: "\<forall>r \<in> set (bi_rec b4). bm_kb r \<noteq> k"
        using knew set_swap_remove_subset [OF _ j(1)] by (simp add: b4(3))
      have none: "ix_look (bi_fwd b4) k = None" "ix_look (bi_rev b4) v = None"
        using keyed_None [OF bimap_invD(2) [OF b4(2)]] keyed_None [OF bimap_invD(4) [OF b4(2)]] knew4 vnew by simp_all
      let ?n = "length (bi_rec b4)"
      obtain f5 where f5: "ix_insert_unchecked al3 (bi_fwd b4) (?H k) k ?n = Some (f5, al3)" "ix_inv ?H f5"
        "ix_look f5 = (ix_look (bi_fwd b4))(k \<mapsto> ?n)"
        by (rule ix_insert_roomy [OF bimap_invD(1) [OF b4(2)] b4(6) none(1)])
      obtain r5 where r5: "ix_insert_unchecked al3 (bi_rev b4) (?H v) v ?n = Some (r5, al3)" "ix_inv ?H r5"
        "ix_look r5 = (ix_look (bi_rev b4))(v \<mapsto> ?n)"
        by (rule ix_insert_roomy [OF bimap_invD(3) [OF b4(2)] b4(7) none(2)])
      have room: "?n < bi_cap b4" using b4(3,5) c(2) by simp
      note app = bimap_append_ok [OF b4(2) knew4 vnew f5(2,3) r5(2,3) room refl]
      have "bimap_put_val s0 s1 al b k v =
          Some (BimapOk, b4\<lparr>bi_rec := bi_rec b4 @ [?rc], bi_fwd := f5, bi_rev := r5\<rparr>, al3)"
        using prep f(1) r(1) vp b4(1) f5(1) r5(1) by (simp add: bimap_put_val_def)
      then show ?thesis
        by (rule bput_outcome_ok [OF _ app(1)]) (simp only: app(2) b4(4) bput_at [OF inv j])
    qed
  qed
qed

lemma bimap_put_new_ok:
  assumes inv: "bimap_inv s0 s1 b" and small: "length (bi_rec b) < 2 ^ 27"
    and knew: "\<forall>r \<in> set (bi_rec b). bm_kb r \<noteq> k" "ix_look (bi_fwd b) k = None"
    and vnew: "\<forall>r \<in> set (bi_rec b). bm_vb r \<noteq> v" "ix_look (bi_rev b) v = None" "\<And>x. bimap_abs b x \<noteq> Some v"
  shows "bput_outcome s0 s1 al b k v (bimap_put_new s0 s1 al b k v)"
proof (rule bimap_prepare_ok [OF inv, of al k v])
  fix b' al'
  assume "bimap_prepare s0 s1 al b k v = Some (None, b', al')" "bimap_inv s0 s1 b'"
    "bimap_abs b' = bimap_abs b" "False \<in> set al"
  then show ?thesis
    by (intro bput_outcome_fail [of _ b' al']) (simp_all add: bimap_put_new_def)
next
  fix c al1
  let ?H = "ix_hash s0 s1" and ?b = "b\<lparr>bi_cap := c\<rparr>" and ?n = "length (bi_rec b)"
  let ?rc = "\<lparr>bm_key = \<lparr>dk_p = k, dk_h = ?H k\<rparr>, bm_val = \<lparr>dk_p = v, dk_h = ?H v\<rparr>\<rparr>"
  assume c: "cap_ok c" "?n < c" and al1: "set al1 \<subseteq> set al" and inv1: "bimap_inv s0 s1 ?b"
    and prep: "bimap_prepare s0 s1 al b k v = Some (Some ?rc, ?b, al1)"
  note D = bimap_invD [OF inv]
  have used: "ix_used (bi_fwd b) < 2 ^ 27" "ix_used (bi_rev b) < 2 ^ 27"
    using bimap_used [OF inv] small by simp_all
  show ?thesis
  proof (rule ds_hash.ix_insert_spec [OF D(1) knew(2), of al1 ?n])
    fix al2
    assume "ix_insert al1 (bi_fwd b) (?H k) k ?n = Some (None, al2)" "\<not> fst (next_alloc al1) \<or> 2 ^ 27 \<le> ix_used (bi_fwd b)"
    then show ?thesis
      using inv1 prep al1 used next_alloc_False [of al1]
      by (intro bput_outcome_fail [of _ ?b al2]) (auto simp: bimap_put_new_def)
  next
    fix f al2
    assume f: "ix_insert al1 (bi_fwd b) (?H k) k ?n = Some (Some f, al2)" "set al2 \<subseteq> set al1" "ix_inv ?H f"
      "ix_look f = (ix_look (bi_fwd b))(k \<mapsto> ?n)"
    show ?thesis
    proof (rule ds_hash.ix_insert_spec [OF D(3) vnew(2), of al2 ?n])
      fix al3
      assume r: "ix_insert al2 (bi_rev b) (?H v) v ?n = Some (None, al3)" "\<not> fst (next_alloc al2) \<or> 2 ^ 27 \<le> ix_used (bi_rev b)"
      obtain p where p: "ix_find f (?H k) k = Some (Some p)"
        by (rule ds_hash.ix_find_cases [OF f(3), of k]) (use f(4) in simp_all)
      obtain f' where f': "ix_erase f p = Some f'" "ix_inv ?H f'" "ix_look f' = (ix_look f)(k := None)"
        by (rule ds_hash.ix_erase_spec [OF f(3) p])
      have "ix_look f' = ix_look (bi_fwd b)" using f'(3) f(4) knew(2) by auto
      then have inv2: "bimap_inv s0 s1 (?b\<lparr>bi_fwd := f'\<rparr>)"
        using bimap_inv_reindex(2) [OF inv1 f'(2)] by simp
      have "False \<in> set al"
        using r(2) used(2) next_alloc_False [of al2] f(2) al1 by auto
      then show ?thesis
        using prep f(1) r(1) p f'(1) inv2
        by (intro bput_outcome_fail [of _ "?b\<lparr>bi_fwd := f'\<rparr>" al3]) (simp_all add: bimap_put_new_def ix_erase_found_def)
    next
      fix r al3
      assume r: "ix_insert al2 (bi_rev b) (?H v) v ?n = Some (Some r, al3)" "ix_inv ?H r"
        "ix_look r = (ix_look (bi_rev b))(v \<mapsto> ?n)"
      note app = bimap_append_ok [OF inv1, of k v f r ?rc]
      have "bput (bimap_abs b) k v = (bimap_abs b)(k \<mapsto> v)"
        using vnew(3) by (auto simp: bput_def)
      then show ?thesis
        using prep f r knew vnew c app
        by (intro bput_outcome_ok [of _ "?b\<lparr>bi_rec := bi_rec b @ [?rc], bi_fwd := f, bi_rev := r\<rparr>" al3])
          (simp_all add: bimap_put_new_def)
    qed
  qed
qed

subsection \<open>Properties\<close>

text \<open>
  C19. On a well-formed bidirectional map with fewer than \<open>2 ^ 27\<close> records \<open>dyn_bimap_put\<close> returns
  and keeps the map one-to-one. It answers \<open>DYN_BIMAP_VALUE_TAKEN\<close>, with nothing changed, if and
  only if the value belongs to another key and the caller did not force it. On success the key is bound to the value and the key that owned
  the value loses it; running out of memory, which needs a failing allocation, changes no
  binding.
\<close>

theorem dyn_bimap_put_refines:
  assumes inv: "bimap_inv s0 s1 b" and small: "dyn_bimap_size b < 2 ^ 27"
  shows "\<exists>r b' al'. dyn_bimap_put s0 s1 al b k v force = Some (r, b', al') \<and> bimap_inv s0 s1 b' \<and>
    (case r of
       BimapOk \<Rightarrow> bimap_abs b' = bput (bimap_abs b) k v
     | BimapValueTaken \<Rightarrow> b' = b \<and> al' = al
     | BimapNoMem \<Rightarrow> bimap_abs b' = bimap_abs b \<and> False \<in> set al) \<and>
    (r = BimapValueTaken \<longleftrightarrow> \<not> force \<and> bimap_abs b k \<noteq> Some v \<and> v \<in> ran (bimap_abs b))"
    (is "?goal (dyn_bimap_put s0 s1 al b k v force)")
proof -
  have small': "length (bi_rec b) < 2 ^ 27" using small by (simp add: dyn_bimap_size_def)
  have out: "?goal res"
    if "bput_outcome s0 s1 al b k v res" "force \<or> (\<forall>x. bimap_abs b x \<noteq> Some v)" for res
  proof -
    have "\<not> (\<not> force \<and> bimap_abs b k \<noteq> Some v \<and> v \<in> ran (bimap_abs b))"
      using that(2) by (auto simp: ran_def)
    then show ?thesis using that(1) unfolding bput_outcome_def by fastforce
  qed
  have taken: "?goal (Some (BimapValueTaken, b, al))"
    if "\<not> force" "j < length (bi_rec b)" "bm_vb (bi_rec b ! j) = v" "bm_kb (bi_rec b ! j) \<noteq> k" for j
    using that inv bimap_abs_nth [OF inv that(2)] by (auto intro: ranI)
  show ?thesis
  proof (rule bimap_find_key [OF inv, of k]; rule bimap_find_val [OF inv, of v])
    assume k: "ix_find (bi_fwd b) (ix_hash s0 s1 k) k = Some None" "ix_look (bi_fwd b) k = None"
      "\<forall>r \<in> set (bi_rec b). bm_kb r \<noteq> k"
    assume v: "ix_find (bi_rev b) (ix_hash s0 s1 v) v = Some None" "ix_look (bi_rev b) v = None"
      "\<forall>r \<in> set (bi_rec b). bm_vb r \<noteq> v" "\<And>x. bimap_abs b x \<noteq> Some v"
    show ?thesis
      using out [OF bimap_put_new_ok [OF inv small' k(3,2) v(3,2,4)]] k(1) v(1,4) by (simp add: dyn_bimap_put_def)
  next
    fix p j
    assume k: "ix_find (bi_fwd b) (ix_hash s0 s1 k) k = Some None" "\<forall>r \<in> set (bi_rec b). bm_kb r \<noteq> k"
    assume v: "ix_find (bi_rev b) (ix_hash s0 s1 v) v = Some (Some p)" "j < length (bi_rec b)" "bm_vb (bi_rec b ! j) = v"
    show ?thesis
      using out [OF bimap_put_val_ok [OF inv small' k(2) v(2,3)]] taken [OF _ v(2,3)] k v(1) nth_mem [OF v(2)]
      by (cases force) (simp_all add: dyn_bimap_put_def)
  next
    fix q i
    assume k: "ix_find (bi_fwd b) (ix_hash s0 s1 k) k = Some (Some q)" "sl_idx (ix_slot (bi_fwd b) ! q) = i"
      "i < length (bi_rec b)" "bm_kb (bi_rec b ! i) = k"
    assume v: "ix_find (bi_rev b) (ix_hash s0 s1 v) v = Some None"
      "\<forall>r \<in> set (bi_rec b). bm_vb r \<noteq> v" "\<And>x. bimap_abs b x \<noteq> Some v"
    show ?thesis
      using out [OF bimap_put_key_ok [OF inv small' k(3,4) v(2,3)]] k(1,2) v(1,3) by (simp add: dyn_bimap_put_def)
  next
    fix q i p j
    assume k: "ix_find (bi_fwd b) (ix_hash s0 s1 k) k = Some (Some q)" "sl_idx (ix_slot (bi_fwd b) ! q) = i"
      "i < length (bi_rec b)" "bm_kb (bi_rec b ! i) = k"
    assume v: "ix_find (bi_rev b) (ix_hash s0 s1 v) v = Some (Some p)" "sl_idx (ix_slot (bi_rev b) ! p) = j"
      "j < length (bi_rec b)" "bm_vb (bi_rec b ! j) = v"
    show ?thesis
    proof (cases "i = j")
      case True
      then have "bput (bimap_abs b) k v = bimap_abs b"
        using bput_at [OF inv v(3,4)] bimap_abs_nth(1) [OF inv v(3)] k(4) v(4) by (auto simp: fun_eq_iff)
      moreover have "bimap_abs b k = Some v"
        using bimap_abs_nth(1) [OF inv v(3)] k(4) v(4) True by simp
      ultimately show ?thesis
        using k(1,2) v(1,2) True inv by (simp add: dyn_bimap_put_def)
    next
      case False
      have "bm_kb (bi_rec b ! j) \<noteq> k"
        using distinct_key_inj [OF bimap_invD(5) [OF inv] k(3) v(3)] k(4) False by metis
      then show ?thesis
        using out [OF bimap_put_both_ok [OF inv small' k(3,4) v(3,4) False]] taken [OF _ v(3,4)] k(1,2) v(1,2) False
        by (cases force) (simp_all add: dyn_bimap_put_def)
    qed
  qed
qed

theorem dyn_bimap_put_refines_witness:
  "bimap_inv 1 2 bimap_zero \<and> dyn_bimap_size bimap_zero < 2 ^ 27 \<and>
    (\<exists>r b' al'. dyn_bimap_put 1 2 [] bimap_zero [107] [118] False = Some (r, b', al') \<and>
      r = BimapOk \<and> bimap_abs b' = [[107] \<mapsto> [118]])"
proof -
  have size: "dyn_bimap_size bimap_zero < 2 ^ 27" by (simp add: dyn_bimap_size_def bimap_zero_def)
  obtain r b' al' where put: "dyn_bimap_put 1 2 [] bimap_zero [107] [118] False = Some (r, b', al')"
    and r: "case r of
       BimapOk \<Rightarrow> bimap_abs b' = bput (bimap_abs bimap_zero) [107] [118]
     | BimapValueTaken \<Rightarrow> b' = bimap_zero \<and> al' = []
     | BimapNoMem \<Rightarrow> bimap_abs b' = bimap_abs bimap_zero \<and> False \<in> set []"
      "r \<noteq> BimapValueTaken"
    using dyn_bimap_put_refines [OF bimap_zero_ok(1) size, of 1 2 "[]" "[107]" "[118]" False]
    by (auto simp: bimap_zero_ok)
  then show ?thesis
    using size bimap_zero_ok by (cases r) (simp_all add: bput_def)
qed

text \<open>
  C21. The two lookups of a well-formed bidirectional map are inverse to each other: a key is
  found for a value exactly when the value is found for the key, and both searches end.
\<close>

theorem dyn_bimap_lookups_inverse:
  assumes inv: "bimap_inv s0 s1 b"
  shows "\<exists>vo ko. dyn_bimap_get s0 s1 b k = Some vo \<and> dyn_bimap_key_for s0 s1 b v = Some ko \<and>
    (vo = Some v \<longleftrightarrow> ko = Some k)"
proof -
  obtain vo where vo: "dyn_bimap_get s0 s1 b k = Some vo" "vo = bimap_abs b k"
    by (rule bimap_find_key [OF inv, of k]) (simp_all add: dyn_bimap_get_def)
  obtain ko where ko: "dyn_bimap_key_for s0 s1 b v = Some ko" "\<And>x. ko = Some x \<longleftrightarrow> bimap_abs b x = Some v"
    by (rule bimap_find_val [OF inv, of v]) (auto simp: dyn_bimap_key_for_def)
  show ?thesis using vo ko by auto
qed

theorem dyn_bimap_lookups_inverse_witness:
  "\<exists>vo ko. dyn_bimap_get 1 2 bimap_zero [107] = Some vo \<and> dyn_bimap_key_for 1 2 bimap_zero [118] = Some ko \<and>
    (vo = Some [118] \<longleftrightarrow> ko = Some [107])"
  using dyn_bimap_lookups_inverse [OF bimap_zero_ok(1), of 1 2 "[107]" "[118]"] .

text \<open>
  C20. Removing by key and removing by value return whether there was a binding, delete exactly
  that binding and keep the map well-formed.
\<close>

theorem dyn_bimap_remove_refines:
  assumes inv: "bimap_inv s0 s1 b"
  shows "(\<exists>b'. dyn_bimap_remove s0 s1 b k = Some (bimap_abs b k \<noteq> None, b') \<and> bimap_inv s0 s1 b' \<and>
      bimap_abs b' = (bimap_abs b)(k := None)) \<and>
    (\<exists>b'. dyn_bimap_remove_value s0 s1 b v = Some (v \<in> ran (bimap_abs b), b') \<and> bimap_inv s0 s1 b' \<and>
      bimap_abs b' = (\<lambda>x. if bimap_abs b x = Some v then None else bimap_abs b x))"
proof (rule conjI)
  show "\<exists>b'. dyn_bimap_remove s0 s1 b k = Some (bimap_abs b k \<noteq> None, b') \<and> bimap_inv s0 s1 b' \<and>
      bimap_abs b' = (bimap_abs b)(k := None)"
  proof (rule bimap_find_key [OF inv, of k])
    assume "ix_find (bi_fwd b) (ix_hash s0 s1 k) k = Some None" "bimap_abs b k = None"
    then show ?thesis using inv by (simp add: dyn_bimap_remove_def fun_upd_idem)
  next
    fix p i
    assume a: "ix_find (bi_fwd b) (ix_hash s0 s1 k) k = Some (Some p)" "sl_idx (ix_slot (bi_fwd b) ! p) = i"
      "i < length (bi_rec b)" "bm_kb (bi_rec b ! i) = k" "bimap_abs b k = Some (bm_vb (bi_rec b ! i))"
    show ?thesis
      by (rule bimap_erase_ok [OF inv a(3)]) (use a in \<open>auto simp: dyn_bimap_remove_def\<close>)
  qed
  show "\<exists>b'. dyn_bimap_remove_value s0 s1 b v = Some (v \<in> ran (bimap_abs b), b') \<and> bimap_inv s0 s1 b' \<and>
      bimap_abs b' = (\<lambda>x. if bimap_abs b x = Some v then None else bimap_abs b x)"
  proof (rule bimap_find_val [OF inv, of v])
    assume "ix_find (bi_rev b) (ix_hash s0 s1 v) v = Some None" "\<And>x. bimap_abs b x \<noteq> Some v"
    then show ?thesis using inv by (auto simp: dyn_bimap_remove_value_def ran_def)
  next
    fix p i
    assume a: "ix_find (bi_rev b) (ix_hash s0 s1 v) v = Some (Some p)" "sl_idx (ix_slot (bi_rev b) ! p) = i"
      "i < length (bi_rec b)" "\<And>x. bimap_abs b x = Some v \<longleftrightarrow> x = bm_kb (bi_rec b ! i)"
    have ran: "v \<in> ran (bimap_abs b)" using a(4) by (auto intro: ranI)
    have upd: "(bimap_abs b)(bm_kb (bi_rec b ! i) := None) =
        (\<lambda>x. if bimap_abs b x = Some v then None else bimap_abs b x)"
      using a(4) by (auto simp: fun_eq_iff)
    show ?thesis
      by (rule bimap_erase_ok [OF inv a(3)]) (use a(1,2) ran upd in \<open>auto simp: dyn_bimap_remove_value_def\<close>)
  qed
qed

theorem dyn_bimap_remove_refines_witness:
  "(\<exists>b'. dyn_bimap_remove 1 2 bimap_zero [107] = Some (False, b')) \<and>
   (\<exists>b'. dyn_bimap_remove_value 1 2 bimap_zero [118] = Some (False, b'))"
  using dyn_bimap_remove_refines [OF bimap_zero_ok(1), of 1 2 "[107]" "[118]"] by (auto simp: bimap_zero_ok)

end
