(* ===== verification/DynBytes.thy ===== *)
theory DynBytes
  imports DynPrelude
begin

text \<open>
  Facts about bytes that the text codecs share: the bit operations of the code on single bytes
  and on small natural numbers, read as division, remainder and positional sums.
\<close>

subsection \<open>Bit operations on natural numbers\<close>

lemma nat_or_push: "x < 2 ^ n \<Longrightarrow> push_bit n a OR x = a * 2 ^ n + (x :: nat)"
proof -
  assume x: "x < 2 ^ n"
  have "\<not> bit (push_bit n a) i \<or> \<not> bit x i" for i
  proof (cases "i < n")
    case False
    then have "(2::nat) ^ n \<le> 2 ^ i" by (intro power_increasing) simp_all
    with x have "x < 2 ^ i" by (rule less_le_trans)
    then show ?thesis by (simp add: bit_iff_odd)
  qed (simp add: bit_push_bit_iff)
  then have "push_bit n a + x = push_bit n a OR x"
    by (intro disjunctive_add) auto
  then show ?thesis by (simp add: push_bit_eq_mult)
qed

lemma nat_and_low: "(n::nat) AND 0x3F = n mod 64" "n AND 0x1F = n mod 32" "n AND 0x0F = n mod 16"
  "n AND 0x07 = n mod 8" "n AND 0x7F = n mod 128" "n AND 0xFF = n mod 256" "n AND 0x3FF = n mod 1024"
  using nat_and_mask [of n 6] nat_and_mask [of n 5] nat_and_mask [of n 4] nat_and_mask [of n 3]
    nat_and_mask [of n 7] nat_and_mask [of n 8] nat_and_mask [of n 10] by simp_all

lemma nat_and_high:
  assumes "x < 2 ^ n" "k \<le> n"
  shows "(x::nat) AND (2 ^ n - 2 ^ k) = x div 2 ^ k * 2 ^ k"
proof -
  have m: "(2::nat) ^ n - 2 ^ k = push_bit k (mask (n - k))"
    using assms(2) by (simp add: mask_eq_exp_minus_1 push_bit_eq_mult right_diff_distrib' diff_mult_distrib flip: power_add)
  have "x AND push_bit k (mask (n - k)) = push_bit k (drop_bit k x AND mask (n - k))"
    by (rule bit_eqI) (auto simp: bit_simps)
  also have "\<dots> = (x div 2 ^ k) mod 2 ^ (n - k) * 2 ^ k"
    by (simp add: push_bit_eq_mult drop_bit_eq_div take_bit_eq_mod flip: take_bit_eq_mask)
  also have "\<dots> = x div 2 ^ k * 2 ^ k"
    using assms by (simp add: less_mult_imp_div_less flip: power_add)
  finally show ?thesis using m by simp
qed

lemma nat_div_mod_digit: "y < n \<Longrightarrow> (x * n + y) div n = x \<and> (x * n + y) mod n = (y :: nat)"
  by simp

lemma nat_mod_window: "k * n \<le> b \<Longrightarrow> b < k * n + n \<Longrightarrow> b mod n = b - k * (n :: nat)"
  by (metis add_diff_cancel_left' le_iff_add less_diff_conv2 mod_less mod_mult_self3 add.commute)

lemma nat_div_window: "0 < n \<Longrightarrow> b div n * n = k * n \<longleftrightarrow> k * n \<le> b \<and> b < k * n + (n :: nat)"
proof -
  assume n: "0 < n"
  have "b div n = k" if "k * n \<le> b \<and> b < k * n + n"
    using that by (intro div_nat_eqI) (simp_all add: mult.commute)
  moreover have "b div n * n \<le> b \<and> b < b div n * n + n"
    using n div_mult_mod_eq [of b n] mod_less_divisor [OF n, of b] by linarith
  ultimately have "b div n = k \<longleftrightarrow> k * n \<le> b \<and> b < k * n + n" by blast
  then show ?thesis using n by simp
qed

lemma nat_or_dvd: "x < 2 ^ n \<Longrightarrow> 2 ^ n dvd a \<Longrightarrow> a OR x = a + (x :: nat)"
  using nat_or_push [of x n "a div 2 ^ n"] by (simp add: push_bit_eq_mult)

lemma unat8_less: "unat (c :: byte) < 256"
  using unsigned_less [of c] by simp

lemma unat_and8: "unat (a AND b :: byte) = unat a AND unat b"
  by (simp add: unsigned_and_eq)

lemma unat_or8: "unat (a OR b :: byte) = unat a OR unat b"
  by (simp add: unsigned_or_eq)

lemma byte_eq_iff: "(a :: byte) = b \<longleftrightarrow> unat a = unat b"
  by (simp add: word_unat_eq_iff)

lemma unat_of_nat8: "n < 256 \<Longrightarrow> unat (of_nat n :: byte) = n"
  by (simp add: unat_of_nat)

lemma of_nat_mod256: "of_nat (y mod 256) = (of_nat y :: byte)"
  by (simp add: byte_eq_iff unsigned_of_nat take_bit_eq_mod)

text \<open>The lead and continuation byte tests of UTF-8 and the payload masks.\<close>

lemma byte_tests:
  fixes c :: byte
  shows "c AND 0xC0 = 0x80 \<longleftrightarrow> 128 \<le> unat c \<and> unat c < 192"
    and "c AND 0xE0 = 0xC0 \<longleftrightarrow> 192 \<le> unat c \<and> unat c < 224"
    and "c AND 0xF0 = 0xE0 \<longleftrightarrow> 224 \<le> unat c \<and> unat c < 240"
    and "c AND 0xF8 = 0xF0 \<longleftrightarrow> 240 \<le> unat c \<and> unat c < 248"
    and "c < 0x80 \<longleftrightarrow> unat c < 128"
proof -
  have high: "unat (c AND 0xC0) = unat c div 64 * 64" "unat (c AND 0xE0) = unat c div 32 * 32"
    "unat (c AND 0xF0) = unat c div 16 * 16" "unat (c AND 0xF8) = unat c div 8 * 8"
    using nat_and_high [of "unat c" 8 6] nat_and_high [of "unat c" 8 5] nat_and_high [of "unat c" 8 4]
      nat_and_high [of "unat c" 8 3] unat8_less [of c] by (simp_all add: unat_and8)
  show "c AND 0xC0 = 0x80 \<longleftrightarrow> 128 \<le> unat c \<and> unat c < 192"
    unfolding byte_eq_iff high using nat_div_window [of 64 "unat c" 2] by simp
  show "c AND 0xE0 = 0xC0 \<longleftrightarrow> 192 \<le> unat c \<and> unat c < 224"
    unfolding byte_eq_iff high using nat_div_window [of 32 "unat c" 6] by simp
  show "c AND 0xF0 = 0xE0 \<longleftrightarrow> 224 \<le> unat c \<and> unat c < 240"
    unfolding byte_eq_iff high using nat_div_window [of 16 "unat c" 14] by simp
  show "c AND 0xF8 = 0xF0 \<longleftrightarrow> 240 \<le> unat c \<and> unat c < 248"
    unfolding byte_eq_iff high using nat_div_window [of 8 "unat c" 30] by simp
  show "c < 0x80 \<longleftrightarrow> unat c < 128"
    by (simp add: word_less_nat_alt)
qed

lemma unat_byte_masks:
  fixes c :: byte
  shows "unat (c AND 0x3F) = unat c mod 64" "unat (c AND 0x1F) = unat c mod 32" "unat (c AND 0x0F) = unat c mod 16"
    "unat (c AND 0x07) = unat c mod 8" "unat (c AND 0x7F) = unat c mod 128"
  by (simp_all add: unat_and8 nat_and_low)

text \<open>A table that lists the inverse of a decoding function.\<close>

lemma table_inverse:
  assumes "map f tab = map int [0..<n]" "i < n"
  shows "f (tab ! i) = int i"
proof -
  have "length tab = n" using arg_cong [OF assms(1), of length] by simp
  then show ?thesis using arg_cong [OF assms(1), of "\<lambda>l. l ! i"] assms(2) by simp
qed

end
