(* ===== verification/KernelUtf.thy ===== *)
theory KernelUtf
  imports DynBytes
begin

text \<open>
  The Unicode kernels of \<open>src/dyna-simd-scalar.c\<close>: validation of UTF-8 and UTF-16, counting of
  code points, and transcoding between UTF-8, UTF-16 and Latin-1. A kernel takes the input
  array as a list and returns the written prefix of the output array; \<open>None\<close> is the return
  value \<open>-1\<close>. Code points are natural numbers: they never need more than 21 bits of the
  \<open>uint32_t\<close> they are held in.

  The reference is the encoding of a list of Unicode scalar values, \<open>utf8_encode\<close> and
  \<open>utf16_encode\<close>.
\<close>

type_synonym u16 = "16 word"

subsection \<open>Model\<close>

text \<open>
  The classification of a lead byte, the loop over the continuation bytes and the range tests:
  \<open>simd_scalar_validate_utf8\<close> and \<open>simd_scalar_utf8_to_utf16le\<close> contain the same code.
\<close>

definition utf8_lead :: "byte \<Rightarrow> (nat \<times> nat) option" where
  "utf8_lead c =
     (if c AND 0xE0 = 0xC0 then Some (2, unat (c AND 0x1F))
      else if c AND 0xF0 = 0xE0 then Some (3, unat (c AND 0x0F))
      else if c AND 0xF8 = 0xF0 then Some (4, unat (c AND 0x07))
      else None)"

fun utf8_cont :: "nat \<Rightarrow> bytes \<Rightarrow> nat option" where
  "utf8_cont cp [] = Some cp"
| "utf8_cont cp (cc # ccs) =
     (if cc AND 0xC0 \<noteq> 0x80 then None
      else utf8_cont (push_bit 6 cp OR unat (cc AND 0x3F)) ccs)"

definition utf8_in_range :: "nat \<Rightarrow> nat \<Rightarrow> bool" where
  "utf8_in_range len cp \<longleftrightarrow>
     \<not> (len = 2 \<and> cp < 0x80) \<and> \<not> (len = 3 \<and> cp < 0x800) \<and> \<not> (len = 4 \<and> cp < 0x10000) \<and>
     \<not> cp > 0x10FFFF \<and> \<not> (cp \<ge> 0xD800 \<and> cp \<le> 0xDFFF)"

definition utf8_multi :: "byte \<Rightarrow> bytes \<Rightarrow> (nat \<times> nat) option" where
  "utf8_multi c cs =
     (case utf8_lead c of
        None \<Rightarrow> None
      | Some (len, cp) \<Rightarrow>
          if len > length (c # cs) then None
          else (case utf8_cont cp (take (len - 1) cs) of
                  None \<Rightarrow> None
                | Some cp \<Rightarrow> if utf8_in_range len cp then Some (len, cp) else None))"

fun validate_utf8_from :: "nat \<Rightarrow> bytes \<Rightarrow> nat" where
  "validate_utf8_from i [] = i"
| "validate_utf8_from i (c # cs) =
     (if c < 0x80 then validate_utf8_from (i + 1) cs
      else (case utf8_multi c cs of
              None \<Rightarrow> i
            | Some (len, _) \<Rightarrow> validate_utf8_from (i + len) (drop (len - 1) cs)))"

definition simd_scalar_validate_utf8 :: "bytes \<Rightarrow> nat" where
  "simd_scalar_validate_utf8 p = validate_utf8_from 0 p"

fun simd_scalar_latin1_to_utf8 :: "bytes \<Rightarrow> bytes" where
  "simd_scalar_latin1_to_utf8 [] = []"
| "simd_scalar_latin1_to_utf8 (c # cs) =
     (if c < 0x80 then [c] else [0xC0 OR drop_bit 6 c, 0x80 OR (c AND 0x3F)]) @
     simd_scalar_latin1_to_utf8 cs"

fun simd_scalar_utf8_to_latin1 :: "bytes \<Rightarrow> bytes option" where
  "simd_scalar_utf8_to_latin1 [] = Some []"
| "simd_scalar_utf8_to_latin1 (c # cs) =
     (if c < 0x80 then map_option (Cons c) (simd_scalar_utf8_to_latin1 cs)
      else if c AND 0xE0 = 0xC0 then
        (case cs of
           [] \<Rightarrow> None
         | c1 # cs' \<Rightarrow>
             if c1 AND 0xC0 \<noteq> 0x80 then None
             else (let cp = push_bit 6 (unat (c AND 0x1F)) OR unat (c1 AND 0x3F) in
                   if cp < 0x80 \<or> cp > 0xFF then None
                   else map_option (Cons (of_nat cp)) (simd_scalar_utf8_to_latin1 cs')))
      else None)"

definition simd_scalar_count_utf8 :: "bytes \<Rightarrow> nat" where
  "simd_scalar_count_utf8 p = length (filter (\<lambda>c. c AND 0xC0 \<noteq> 0x80) p)"

text \<open>The units a code point is written as.\<close>

definition utf16_put :: "nat \<Rightarrow> u16 list" where
  "utf16_put cp =
     (if cp < 0x10000 then [of_nat cp]
      else (let cp = cp - 0x10000 in
            [of_nat (0xD800 OR drop_bit 10 cp), of_nat (0xDC00 OR (cp AND 0x3FF))]))"

fun simd_scalar_utf8_to_utf16le :: "bytes \<Rightarrow> u16 list option" where
  "simd_scalar_utf8_to_utf16le [] = Some []"
| "simd_scalar_utf8_to_utf16le (c # cs) =
     (if c < 0x80 then map_option (Cons (ucast c)) (simd_scalar_utf8_to_utf16le cs)
      else (case utf8_multi c cs of
              None \<Rightarrow> None
            | Some (len, cp) \<Rightarrow>
                map_option (append (utf16_put cp)) (simd_scalar_utf8_to_utf16le (drop (len - 1) cs))))"

text \<open>The bytes a code point is written as.\<close>

definition utf8_put :: "nat \<Rightarrow> bytes" where
  "utf8_put cp =
     (if cp < 0x80 then [of_nat cp]
      else if cp < 0x800 then [of_nat (0xC0 OR drop_bit 6 cp), of_nat (0x80 OR (cp AND 0x3F))]
      else if cp < 0x10000 then
        [of_nat (0xE0 OR drop_bit 12 cp), of_nat (0x80 OR (drop_bit 6 cp AND 0x3F)),
         of_nat (0x80 OR (cp AND 0x3F))]
      else
        [of_nat (0xF0 OR drop_bit 18 cp), of_nat (0x80 OR (drop_bit 12 cp AND 0x3F)),
         of_nat (0x80 OR (drop_bit 6 cp AND 0x3F)), of_nat (0x80 OR (cp AND 0x3F))])"

fun simd_scalar_utf16le_to_utf8 :: "u16 list \<Rightarrow> bytes option" where
  "simd_scalar_utf16le_to_utf8 [] = Some []"
| "simd_scalar_utf16le_to_utf8 (u # us) =
     (let cp = unat u in
      if cp < 0xD800 \<or> cp > 0xDFFF then
        map_option (append (utf8_put cp)) (simd_scalar_utf16le_to_utf8 us)
      else if cp \<le> 0xDBFF then
        (case us of
           [] \<Rightarrow> None
         | v # us' \<Rightarrow>
             let lo = unat v in
             if lo < 0xDC00 \<or> lo > 0xDFFF then None
             else map_option (append (utf8_put (0x10000 + push_bit 10 (cp - 0xD800) + (lo - 0xDC00))))
                    (simd_scalar_utf16le_to_utf8 us'))
      else None)"

fun simd_scalar_validate_utf16le :: "u16 list \<Rightarrow> bool" where
  "simd_scalar_validate_utf16le [] = True"
| "simd_scalar_validate_utf16le (c # cs) =
     (if c < 0xD800 \<or> c > 0xDFFF then simd_scalar_validate_utf16le cs
      else if c > 0xDBFF then False
      else (case cs of
              [] \<Rightarrow> False
            | d # cs' \<Rightarrow> if d < 0xDC00 \<or> d > 0xDFFF then False else simd_scalar_validate_utf16le cs'))"

definition simd_scalar_count_utf16 :: "u16 list \<Rightarrow> nat" where
  "simd_scalar_count_utf16 us = length (filter (\<lambda>u. u < 0xDC00 \<or> u > 0xDFFF) us)"

subsection \<open>Reference encodings\<close>

definition scalar :: "nat \<Rightarrow> bool" where
  "scalar c \<longleftrightarrow> c < 0x110000 \<and> \<not> (0xD800 \<le> c \<and> c \<le> 0xDFFF)"

definition utf8_enc :: "nat \<Rightarrow> bytes" where
  "utf8_enc c = map of_nat
     (if c < 128 then [c]
      else if c < 2048 then [192 + c div 64, 128 + c mod 64]
      else if c < 65536 then [224 + c div 4096, 128 + c div 64 mod 64, 128 + c mod 64]
      else [240 + c div 262144, 128 + c div 4096 mod 64, 128 + c div 64 mod 64, 128 + c mod 64])"

definition utf16_enc :: "nat \<Rightarrow> u16 list" where
  "utf16_enc c = map of_nat
     (if c < 65536 then [c] else [0xD800 + (c - 65536) div 1024, 0xDC00 + (c - 65536) mod 1024])"

definition utf8_encode :: "nat list \<Rightarrow> bytes" where
  "utf8_encode cps = concat (map utf8_enc cps)"

definition utf16_encode :: "nat list \<Rightarrow> u16 list" where
  "utf16_encode cps = concat (map utf16_enc cps)"

subsection \<open>One code point\<close>

lemma nat_or_high: "x < 64 \<Longrightarrow> (0x80::nat) OR x = 128 + x" "x < 32 \<Longrightarrow> (0xC0::nat) OR x = 192 + x"
  "x < 16 \<Longrightarrow> (0xE0::nat) OR x = 224 + x" "x < 8 \<Longrightarrow> (0xF0::nat) OR x = 240 + x"
  "x < 1024 \<Longrightarrow> (0xD800::nat) OR x = 0xD800 + x" "x < 1024 \<Longrightarrow> (0xDC00::nat) OR x = 0xDC00 + x"
  using nat_or_push [of x 6 2] nat_or_push [of x 5 6] nat_or_push [of x 4 14] nat_or_push [of x 3 30]
    nat_or_push [of x 10 54] nat_or_push [of x 10 55] by simp_all

lemma utf8_put_eq: "cp < 0x110000 \<Longrightarrow> utf8_put cp = utf8_enc cp"
  by (auto simp: utf8_put_def utf8_enc_def nat_and_low drop_bit_eq_div nat_or_high div_less_iff_less_mult)

lemma utf16_put_eq: "cp < 0x110000 \<Longrightarrow> utf16_put cp = utf16_enc cp"
  by (auto simp: utf16_put_def utf16_enc_def nat_and_low drop_bit_eq_div nat_or_high div_less_iff_less_mult Let_def)

lemma utf8_lead_eq:
  "utf8_lead c = (if 192 \<le> unat c \<and> unat c < 224 then Some (2, unat c - 192)
     else if 224 \<le> unat c \<and> unat c < 240 then Some (3, unat c - 224)
     else if 240 \<le> unat c \<and> unat c < 248 then Some (4, unat c - 240) else None)"
proof -
  have m: "192 \<le> b \<Longrightarrow> b < 224 \<Longrightarrow> b mod 32 = b - 192" "224 \<le> b \<Longrightarrow> b < 240 \<Longrightarrow> b mod 16 = b - 224"
    "240 \<le> b \<Longrightarrow> b < 248 \<Longrightarrow> b mod 8 = b - 240" for b :: nat
    using nat_mod_window [of 6 32 b] nat_mod_window [of 14 16 b] nat_mod_window [of 30 8 b] by simp_all
  show ?thesis
    unfolding utf8_lead_def byte_tests unat_byte_masks using m by auto
qed

lemma utf8_cont_step:
  "utf8_cont cp (cc # ccs) = (if 128 \<le> unat cc \<and> unat cc < 192
     then utf8_cont (cp * 64 + (unat cc - 128)) ccs else None)"
proof (cases "128 \<le> unat cc \<and> unat cc < 192")
  case True
  then have "unat cc mod 64 = unat cc - 128" using nat_mod_window [of 2 64 "unat cc"] by simp
  then have "push_bit 6 cp OR unat (cc AND 0x3F) = cp * 64 + (unat cc - 128)"
    using nat_or_push [of "unat cc mod 64" 6 cp] True by (simp add: unat_byte_masks)
  then show ?thesis
    using True by (simp add: byte_tests)
qed (auto simp: byte_tests)

lemma of_nat8_eq: "n < 256 \<Longrightarrow> (c :: byte) = of_nat n \<longleftrightarrow> unat c = n"
  by (auto simp: byte_eq_iff unat_of_nat8)

lemma digit_of: "lo \<le> unat c \<Longrightarrow> unat c < lo + n \<Longrightarrow> lo + n \<le> 256 \<Longrightarrow> \<exists>x. (c :: byte) = of_nat (lo + x) \<and> x < n"
  by (rule exI [of _ "unat c - lo"]) (simp add: of_nat8_eq less_diff_conv2)

text \<open>Two, three and four byte forms, in terms of their digits in base 64.\<close>

lemma digit64: "r < 64 \<Longrightarrow> (q * 64 + r) div 64 = q" "r < 64 \<Longrightarrow> (q * 64 + r) mod 64 = (r :: nat)"
  by simp_all

lemma utf8_enc_digits:
  "x < 32 \<Longrightarrow> y < 64 \<Longrightarrow> 128 \<le> x * 64 + y \<Longrightarrow>
    utf8_enc (x * 64 + y) = map of_nat [192 + x, 128 + y]"
  "x < 16 \<Longrightarrow> y < 64 \<Longrightarrow> z < 64 \<Longrightarrow> 2048 \<le> (x * 64 + y) * 64 + z \<Longrightarrow>
    utf8_enc ((x * 64 + y) * 64 + z) = map of_nat [224 + x, 128 + y, 128 + z]"
  "y < 64 \<Longrightarrow> z < 64 \<Longrightarrow> w < 64 \<Longrightarrow> 65536 \<le> ((x * 64 + y) * 64 + z) * 64 + w \<Longrightarrow>
    utf8_enc (((x * 64 + y) * 64 + z) * 64 + w) = map of_nat [240 + x, 128 + y, 128 + z, 128 + w]"
proof -
  assume "x < 32" "y < 64" "128 \<le> x * 64 + y"
  then show "utf8_enc (x * 64 + y) = map of_nat [192 + x, 128 + y]"
    by (simp add: utf8_enc_def)
next
  let ?v = "(x * 64 + y) * 64 + z"
  assume a: "x < 16" "y < 64" "z < 64" "2048 \<le> ?v"
  have "?v div 64 = x * 64 + y" "?v mod 64 = z" "(x * 64 + y) mod 64 = y" "?v < 65536"
    by (rule digit64, fact)+ (use a in simp)
  note 1 = this
  have 2: "?v div 4096 = x" using a(2) 1 div_mult2_eq [of ?v 64 64] by simp
  show "utf8_enc ?v = map of_nat [224 + x, 128 + y, 128 + z]"
    using a(4) 1(4) unfolding utf8_enc_def 1(1-3) 2 by simp
next
  let ?v = "((x * 64 + y) * 64 + z) * 64 + w"
  assume a: "y < 64" "z < 64" "w < 64" "65536 \<le> ?v"
  have 1: "?v div 64 = (x * 64 + y) * 64 + z" "?v mod 64 = w" "((x * 64 + y) * 64 + z) mod 64 = z"
    "((x * 64 + y) * 64 + z) div 64 = x * 64 + y" "(x * 64 + y) mod 64 = y" "(x * 64 + y) div 64 = x"
    by (rule digit64, fact)+
  have 2: "?v div 4096 = x * 64 + y" using 1 div_mult2_eq [of ?v 64 64] by simp
  have 3: "?v div 262144 = x" using 1 2 div_mult2_eq [of ?v 4096 64] by simp
  show "utf8_enc ?v = map of_nat [240 + x, 128 + y, 128 + z, 128 + w]"
    using a(4) unfolding utf8_enc_def 1 2 3 by simp
qed

lemma utf8_multi_digits:
  "x < 32 \<Longrightarrow> y < 64 \<Longrightarrow> utf8_multi (of_nat (192 + x)) (of_nat (128 + y) # r) =
    (if utf8_in_range 2 (x * 64 + y) then Some (2, x * 64 + y) else None)"
  "x < 16 \<Longrightarrow> y < 64 \<Longrightarrow> z < 64 \<Longrightarrow> utf8_multi (of_nat (224 + x)) (of_nat (128 + y) # of_nat (128 + z) # r) =
    (if utf8_in_range 3 ((x * 64 + y) * 64 + z) then Some (3, (x * 64 + y) * 64 + z) else None)"
  "x < 8 \<Longrightarrow> y < 64 \<Longrightarrow> z < 64 \<Longrightarrow> w < 64 \<Longrightarrow>
    utf8_multi (of_nat (240 + x)) (of_nat (128 + y) # of_nat (128 + z) # of_nat (128 + w) # r) =
    (if utf8_in_range 4 (((x * 64 + y) * 64 + z) * 64 + w) then Some (4, ((x * 64 + y) * 64 + z) * 64 + w) else None)"
proof -
  have b: "n < 256 \<Longrightarrow> unat (of_nat n :: byte) = n" for n by (rule unat_of_nat8)
  assume "x < 32" "y < 64"
  then show "utf8_multi (of_nat (192 + x)) (of_nat (128 + y) # r) =
    (if utf8_in_range 2 (x * 64 + y) then Some (2, x * 64 + y) else None)"
    using b [of "192 + x"] b [of "128 + y"]
    by (simp add: utf8_multi_def utf8_lead_eq utf8_cont_step del: utf8_cont.simps(2))
next
  have b: "n < 256 \<Longrightarrow> unat (of_nat n :: byte) = n" for n by (rule unat_of_nat8)
  assume "x < 16" "y < 64" "z < 64"
  then show "utf8_multi (of_nat (224 + x)) (of_nat (128 + y) # of_nat (128 + z) # r) =
    (if utf8_in_range 3 ((x * 64 + y) * 64 + z) then Some (3, (x * 64 + y) * 64 + z) else None)"
    using b [of "224 + x"] b [of "128 + y"] b [of "128 + z"]
    by (simp add: utf8_multi_def utf8_lead_eq utf8_cont_step del: utf8_cont.simps(2))
next
  have b: "n < 256 \<Longrightarrow> unat (of_nat n :: byte) = n" for n by (rule unat_of_nat8)
  assume "x < 8" "y < 64" "z < 64" "w < 64"
  then show "utf8_multi (of_nat (240 + x)) (of_nat (128 + y) # of_nat (128 + z) # of_nat (128 + w) # r) =
    (if utf8_in_range 4 (((x * 64 + y) * 64 + z) * 64 + w) then Some (4, ((x * 64 + y) * 64 + z) * 64 + w) else None)"
    using b [of "240 + x"] b [of "128 + y"] b [of "128 + z"] b [of "128 + w"]
    by (simp add: utf8_multi_def utf8_lead_eq utf8_cont_step del: utf8_cont.simps(2))
qed

lemma utf8_multi_sound:
  assumes "utf8_multi c cs = Some (len, cp)"
  shows "scalar cp \<and> 128 \<le> cp \<and> len = length (utf8_enc cp) \<and> c # cs = utf8_enc cp @ drop (len - 1) cs"
proof -
  from assms obtain cp0 where lead: "utf8_lead c = Some (len, cp0)" "len \<le> length (c # cs)"
    and cont: "utf8_cont cp0 (take (len - 1) cs) \<noteq> None"
    by (auto simp: utf8_multi_def split: option.splits if_splits)
  consider (two) "192 \<le> unat c" "unat c < 192 + 32" "len = 2" "cp0 = unat c - 192"
    | (three) "224 \<le> unat c" "unat c < 224 + 16" "len = 3" "cp0 = unat c - 224"
    | (four) "240 \<le> unat c" "unat c < 240 + 8" "len = 4" "cp0 = unat c - 240"
    using lead(1) by (auto simp: utf8_lead_eq split: if_splits)
  then show ?thesis
  proof cases
    case two
    then obtain c1 r where cs: "cs = c1 # r" using lead(2) by (cases cs) auto
    obtain x where x: "c = of_nat (192 + x)" "x < 32" using digit_of [OF two(1,2)] by auto
    have "128 \<le> unat c1" "unat c1 < 128 + 64"
      using cont two(3) cs by (auto simp: utf8_cont_step simp del: utf8_cont.simps(2) split: if_splits)
    then obtain y where y: "c1 = of_nat (128 + y)" "y < 64" using digit_of [of 128 c1 64] by auto
    have "utf8_in_range 2 (x * 64 + y)" "cp = x * 64 + y"
      using assms utf8_multi_digits(1) [OF x(2) y(2), of r] unfolding cs x(1) y(1) two(3) by (auto split: if_splits)
    then show ?thesis
      using utf8_enc_digits(1) [OF x(2) y(2)] two(3) cs x y by (auto simp: utf8_in_range_def scalar_def)
  next
    case three
    then obtain c1 c2 r where cs: "cs = c1 # c2 # r" using lead(2) by (cases cs; cases "tl cs") auto
    obtain x where x: "c = of_nat (224 + x)" "x < 16" using digit_of [OF three(1,2)] by auto
    have "128 \<le> unat c1" "unat c1 < 128 + 64" "128 \<le> unat c2" "unat c2 < 128 + 64"
      using cont three(3) cs by (auto simp: utf8_cont_step simp del: utf8_cont.simps(2) split: if_splits)
    then obtain y z where y: "c1 = of_nat (128 + y)" "y < 64" and z: "c2 = of_nat (128 + z)" "z < 64"
      using digit_of [of 128 c1 64] digit_of [of 128 c2 64] by auto
    let ?v = "(x * 64 + y) * 64 + z"
    have "utf8_in_range 3 ?v" "cp = ?v"
      using assms utf8_multi_digits(2) [OF x(2) y(2) z(2), of r] unfolding cs x(1) y(1) z(1) three(3)
      by (auto split: if_splits)
    then show ?thesis
      using utf8_enc_digits(2) [OF x(2) y(2) z(2)] three(3) cs x y z by (auto simp: utf8_in_range_def scalar_def)
  next
    case four
    then obtain c1 c2 c3 r where cs: "cs = c1 # c2 # c3 # r"
      using lead(2) by (cases cs; cases "tl cs"; cases "tl (tl cs)") auto
    obtain x where x: "c = of_nat (240 + x)" "x < 8" using digit_of [OF four(1,2)] by auto
    have "128 \<le> unat c1" "unat c1 < 128 + 64" "128 \<le> unat c2" "unat c2 < 128 + 64" "128 \<le> unat c3" "unat c3 < 128 + 64"
      using cont four(3) cs by (auto simp: utf8_cont_step simp del: utf8_cont.simps(2) split: if_splits)
    then obtain y z w where y: "c1 = of_nat (128 + y)" "y < 64" and z: "c2 = of_nat (128 + z)" "z < 64"
      and w: "c3 = of_nat (128 + w)" "w < 64"
      using digit_of [of 128 c1 64] digit_of [of 128 c2 64] digit_of [of 128 c3 64] by auto
    let ?v = "((x * 64 + y) * 64 + z) * 64 + w"
    have "utf8_in_range 4 ?v" "cp = ?v"
      using assms utf8_multi_digits(3) [OF x(2) y(2) z(2) w(2), of r] unfolding cs x(1) y(1) z(1) w(1) four(3)
      by (auto split: if_splits)
    then show ?thesis
      using utf8_enc_digits(3) [OF y(2) z(2) w(2)] four(3) cs x y z w by (auto simp: utf8_in_range_def scalar_def)
  qed
qed

lemma lead_high: "128 \<le> n \<Longrightarrow> n < 256 \<Longrightarrow> \<not> (of_nat n :: byte) < 0x80"
  by (simp add: byte_tests unat_of_nat8)

lemma utf8_multi_complete:
  assumes "scalar cp" "128 \<le> cp"
  obtains c cs where "utf8_enc cp = c # cs" "\<not> c < 0x80"
    "\<And>rest. utf8_multi c (cs @ rest) = Some (Suc (length cs), cp)"
proof -
  let ?x = "cp div 64" and ?y = "cp mod 64"
  have cp: "cp < 0x110000" "?x * 64 + ?y = cp" "?y < 64" using assms by (simp_all add: scalar_def)
  consider (two) "cp < 2048" | (three) "2048 \<le> cp" "cp < 65536" | (four) "65536 \<le> cp" by linarith
  then show ?thesis
  proof cases
    case two
    then have x: "?x < 32" by (simp add: div_less_iff_less_mult)
    have e: "utf8_enc cp = [of_nat (192 + ?x), of_nat (128 + ?y)]"
      using utf8_enc_digits(1) [OF x cp(3)] assms(2) unfolding cp(2) by simp
    show ?thesis
      using utf8_multi_digits(1) [OF x cp(3)] two assms unfolding cp(2)
      by (intro that [OF e] lead_high) (simp_all add: x utf8_in_range_def scalar_def del: of_nat_add)
  next
    case three
    let ?p = "?x div 64" and ?q = "?x mod 64"
    have pq: "?p * 64 + ?q = ?x" "?q < 64" by simp_all
    have p: "?p < 16" using three by (simp add: div_less_iff_less_mult)
    have e: "utf8_enc cp = [of_nat (224 + ?p), of_nat (128 + ?q), of_nat (128 + ?y)]"
      using utf8_enc_digits(2) [OF p pq(2) cp(3)] three(1) unfolding pq(1) cp(2) by simp
    show ?thesis
      using utf8_multi_digits(2) [OF p pq(2) cp(3)] three assms unfolding pq(1) cp(2)
      by (intro that [OF e] lead_high) (simp_all add: p utf8_in_range_def scalar_def del: of_nat_add)
  next
    case four
    let ?p = "?x div 64" and ?q = "?x mod 64"
    let ?u = "?p div 64" and ?v = "?p mod 64"
    have pq: "?p * 64 + ?q = ?x" "?q < 64" "?u * 64 + ?v = ?p" "?v < 64" by simp_all
    have u: "?u < 8" using cp(1) by (simp add: div_less_iff_less_mult)
    have e: "utf8_enc cp = [of_nat (240 + ?u), of_nat (128 + ?v), of_nat (128 + ?q), of_nat (128 + ?y)]"
      using utf8_enc_digits(3) [OF pq(4,2) cp(3), of ?u] four(1) unfolding pq(3) pq(1) cp(2) by simp
    show ?thesis
      using utf8_multi_digits(3) [OF u pq(4,2) cp(3)] four assms unfolding pq(3) pq(1) cp(2)
      by (intro that [OF e] lead_high) (simp_all add: u utf8_in_range_def scalar_def del: of_nat_add)
  qed
qed

subsection \<open>Sequences of code points\<close>

lemma utf8_encode_simps [simp]: "utf8_encode [] = []" "utf8_encode (c # cs) = utf8_enc c @ utf8_encode cs"
  by (simp_all add: utf8_encode_def)

lemma utf16_encode_simps [simp]: "utf16_encode [] = []" "utf16_encode (c # cs) = utf16_enc c @ utf16_encode cs"
  by (simp_all add: utf16_encode_def)

lemma utf8_enc_ascii: "c < 128 \<Longrightarrow> utf8_enc c = [of_nat c]"
  by (simp add: utf8_enc_def)

lemma utf8_enc_nonempty [simp]: "utf8_enc c \<noteq> []"
  by (simp add: utf8_enc_def)

lemma ascii_byte: "c < 0x80 \<Longrightarrow> unat c < 128 \<and> scalar (unat c) \<and> utf8_enc (unat c) = [c]"
  by (auto simp: byte_tests utf8_enc_ascii scalar_def)

lemma ascii_of_nat: "n < 128 \<Longrightarrow> (of_nat n :: byte) < 0x80"
  by (simp add: byte_tests unat_of_nat8)

text \<open>A code point at the front of the input, whatever its length.\<close>

lemma utf8_front_cases:
  obtains (ascii) "c < 0x80"
    | (multi) len cp where "\<not> c < 0x80" "utf8_multi c cs = Some (len, cp)" "scalar cp" "128 \<le> cp"
        "len = length (utf8_enc cp)" "c # cs = utf8_enc cp @ drop (len - 1) cs"
    | (bad) "\<not> c < 0x80" "utf8_multi c cs = None" "\<And>cp r. scalar cp \<Longrightarrow> c # cs \<noteq> utf8_enc cp @ r"
proof (cases "c < 0x80")
  case True
  then show ?thesis by (rule ascii)
next
  case False
  show ?thesis
  proof (cases "utf8_multi c cs")
    case (Some r)
    obtain len cp where r: "r = (len, cp)" by fastforce
    show ?thesis using utf8_multi_sound [of c cs len cp] Some r False multi by simp
  next
    case None
    have "c # cs \<noteq> utf8_enc cp @ r" if cp: "scalar cp" for cp r
    proof
      assume eq: "c # cs = utf8_enc cp @ r"
      show False
      proof (cases "cp < 128")
        case True
        then show False using eq False ascii_of_nat [OF True] by (simp add: utf8_enc_ascii)
      next
        case big: False
        then obtain d ds where d: "utf8_enc cp = d # ds" "utf8_multi d (ds @ r) = Some (Suc (length ds), cp)"
          using utf8_multi_complete [OF cp] by (metis not_less)
        then show False using eq None by simp
      qed
    qed
    with False None show ?thesis by (rule bad)
  qed
qed

lemma validate_utf8_sound:
  "\<exists>cps rest. p = utf8_encode cps @ rest \<and> (\<forall>c \<in> set cps. scalar c) \<and>
    validate_utf8_from i p = i + length (utf8_encode cps) \<and> (\<forall>c r. scalar c \<longrightarrow> rest \<noteq> utf8_enc c @ r)"
proof (induction i p rule: validate_utf8_from.induct)
  case (1 i)
  show ?case by (rule exI [of _ "[]"]) simp
next
  case (2 i c cs)
  show ?case
  proof (cases rule: utf8_front_cases [where c = c and cs = cs])
    case ascii
    then obtain cps rest where "cs = utf8_encode cps @ rest" "\<forall>c \<in> set cps. scalar c"
      "validate_utf8_from (i + 1) cs = i + 1 + length (utf8_encode cps)" "\<forall>c r. scalar c \<longrightarrow> rest \<noteq> utf8_enc c @ r"
      using 2(1) by blast
    then show ?thesis
      using ascii ascii_byte [OF ascii] by (intro exI [of _ "unat c # cps"] exI [of _ rest]) simp
  next
    case (multi len cp)
    then obtain cps rest where *: "drop (len - 1) cs = utf8_encode cps @ rest" "\<forall>c \<in> set cps. scalar c"
      "validate_utf8_from (i + len) (drop (len - 1) cs) = i + len + length (utf8_encode cps)"
      "\<forall>c r. scalar c \<longrightarrow> rest \<noteq> utf8_enc c @ r"
      using 2(2) [OF multi(1,2) refl] by blast
    have "c # cs = utf8_encode (cp # cps) @ rest"
      using multi(6) *(1) by simp
    moreover have "validate_utf8_from i (c # cs) = i + length (utf8_encode (cp # cps))"
      using multi(1,2,5) *(3) by simp
    ultimately show ?thesis
      using multi(3) *(2,4) by (intro exI [of _ "cp # cps"] exI [of _ rest]) simp
  next
    case bad
    then show ?thesis by (intro exI [of _ "[]"] exI [of _ "c # cs"]) simp
  qed
qed

lemma validate_utf8_encode:
  "\<forall>c \<in> set cps. scalar c \<Longrightarrow>
    validate_utf8_from i (utf8_encode cps @ rest) = validate_utf8_from (i + length (utf8_encode cps)) rest"
proof (induction cps arbitrary: i)
  case (Cons c cps)
  show ?case
  proof (cases "c < 128")
    case True
    then show ?thesis using Cons ascii_of_nat [OF True] by (simp add: utf8_enc_ascii)
  next
    case False
    then obtain d ds where d: "utf8_enc c = d # ds" "\<not> d < 0x80"
      "utf8_multi d (ds @ utf8_encode cps @ rest) = Some (Suc (length ds), c)"
      using utf8_multi_complete [of c] Cons.prems by (metis list.set_intros(1) not_less)
    then show ?thesis using Cons by (simp add: add.assoc)
  qed
qed simp

subsection \<open>Transcoding\<close>

lemma utf8_to_utf16_encode:
  "\<forall>c \<in> set cps. scalar c \<Longrightarrow> simd_scalar_utf8_to_utf16le (utf8_encode cps) = Some (utf16_encode cps)"
proof (induction cps)
  case (Cons c cps)
  show ?case
  proof (cases "c < 128")
    case True
    then show ?thesis
      using Cons ascii_of_nat [OF True] by (simp add: utf8_enc_ascii utf16_enc_def unsigned_of_nat take_bit_nat_eq_self)
  next
    case False
    then obtain d ds where d: "utf8_enc c = d # ds" "\<not> d < 0x80"
      "utf8_multi d (ds @ utf8_encode cps) = Some (Suc (length ds), c)"
      using utf8_multi_complete [of c] Cons.prems by (metis list.set_intros(1) not_less)
    moreover have "c < 0x110000" using Cons.prems by (simp add: scalar_def)
    ultimately show ?thesis using Cons by (simp add: utf16_put_eq)
  qed
qed simp

lemma utf8_to_utf16_sound:
  "simd_scalar_utf8_to_utf16le p = Some us \<Longrightarrow>
    \<exists>cps. (\<forall>c \<in> set cps. scalar c) \<and> p = utf8_encode cps \<and> us = utf16_encode cps"
proof (induction p arbitrary: us rule: simd_scalar_utf8_to_utf16le.induct)
  case 1
  then show ?case by (intro exI [of _ "[]"]) simp
next
  case (2 c cs)
  show ?case
  proof (cases rule: utf8_front_cases [where c = c and cs = cs])
    case ascii
    then obtain us' where us': "simd_scalar_utf8_to_utf16le cs = Some us'" "us = ucast c # us'"
      using 2(3) by auto
    then obtain cps where "\<forall>c \<in> set cps. scalar c" "cs = utf8_encode cps" "us' = utf16_encode cps"
      using 2(1) [OF ascii] by blast
    moreover have "ucast c = (of_nat (unat c) :: u16)" by simp
    ultimately show ?thesis
      using ascii_byte [OF ascii] us'(2) by (intro exI [of _ "unat c # cps"]) (simp add: utf16_enc_def)
  next
    case (multi len cp)
    obtain us' where us': "simd_scalar_utf8_to_utf16le (drop (len - 1) cs) = Some us'" "us = utf16_put cp @ us'"
      using 2(3) multi(1,2) by auto
    then obtain cps where *: "\<forall>c \<in> set cps. scalar c" "drop (len - 1) cs = utf8_encode cps" "us' = utf16_encode cps"
      using 2(2) [OF multi(1,2) refl] by blast
    have "cp < 0x110000" using multi(3) by (simp add: scalar_def)
    then show ?thesis
      using multi(3,6) * us'(2) by (intro exI [of _ "cp # cps"]) (simp add: utf16_put_eq)
  next
    case bad
    then show ?thesis using 2(3) by simp
  qed
qed


text \<open>A code point at the front of UTF-16 input.\<close>

lemma utf16_unit:
  assumes "unat u < 0xD800 \<or> unat u > 0xDFFF"
  shows "scalar (unat u)" "utf16_enc (unat u) = [u]"
proof -
  have "unat u < 0x10000" using unsigned_less [of u] by simp
  then show "scalar (unat u)" "utf16_enc (unat u) = [u]" using assms by (auto simp: scalar_def utf16_enc_def)
qed

lemma utf16_pair:
  assumes "0xD800 \<le> unat u" "unat u \<le> 0xDBFF" "0xDC00 \<le> unat v" "unat v \<le> 0xDFFF"
  defines "cp \<equiv> 0x10000 + push_bit 10 (unat u - 0xD800) + (unat v - 0xDC00)"
  shows "scalar cp" "utf16_enc cp = [u, v]"
proof -
  define a where "a = unat u - 0xD800"
  define b where "b = unat v - 0xDC00"
  have ab: "a < 1024" "b < 1024" "unat u = 0xD800 + a" "unat v = 0xDC00 + b" "cp = 0x10000 + a * 1024 + b"
    using assms by (auto simp: a_def b_def cp_def push_bit_eq_mult)
  have uv: "u = of_nat (0xD800 + a)" "v = of_nat (0xDC00 + b)"
    by (simp_all only: ab(3,4) [symmetric]) simp_all
  show "scalar cp" using ab by (simp add: scalar_def)
  have "(cp - 0x10000) div 1024 = a" "(cp - 0x10000) mod 1024 = b" using ab by simp_all
  moreover have "\<not> cp < 0x10000" using ab by simp
  ultimately show "utf16_enc cp = [u, v]"
    unfolding utf16_enc_def using uv by (simp del: of_nat_add)
qed

lemma utf16_to_utf8_sound:
  "simd_scalar_utf16le_to_utf8 us = Some p \<Longrightarrow>
    \<exists>cps. (\<forall>c \<in> set cps. scalar c) \<and> p = utf8_encode cps \<and> us = utf16_encode cps"
proof (induction us arbitrary: p rule: simd_scalar_utf16le_to_utf8.induct)
  case 1
  then show ?case by (intro exI [of _ "[]"]) simp
next
  case (2 u us)
  show ?case
  proof (cases "unat u < 0xD800 \<or> unat u > 0xDFFF")
    case True
    then obtain q where q: "simd_scalar_utf16le_to_utf8 us = Some q" "p = utf8_put (unat u) @ q"
      using 2(3) by (auto simp: Let_def)
    then obtain cps where "\<forall>c \<in> set cps. scalar c" "q = utf8_encode cps" "us = utf16_encode cps"
      using 2(1) [OF refl True] by blast
    moreover note utf16_unit [OF True]
    moreover have "utf8_put (unat u) = utf8_enc (unat u)"
      by (rule utf8_put_eq) (use utf16_unit [OF True] in \<open>simp add: scalar_def\<close>)
    ultimately show ?thesis using q(2) by (intro exI [of _ "unat u # cps"]) simp
  next
    case False
    then obtain v us' where us: "us = v # us'" "unat u \<le> 0xDBFF" "\<not> (unat v < 0xDC00 \<or> unat v > 0xDFFF)"
      using 2(3) by (auto simp: Let_def split: if_splits list.splits)
    define cp where "cp = 0x10000 + push_bit 10 (unat u - 0xD800) + (unat v - 0xDC00)"
    obtain q where q: "simd_scalar_utf16le_to_utf8 us' = Some q" "p = utf8_put cp @ q"
      using 2(3) us False by (auto simp: Let_def cp_def)
    then obtain cps where *: "\<forall>c \<in> set cps. scalar c" "q = utf8_encode cps" "us' = utf16_encode cps"
      using 2(2) [OF refl False us(2,1) refl us(3)] by blast
    have cp: "scalar cp" "utf16_enc cp = [u, v]"
      using utf16_pair [of u v] us False by (simp_all add: cp_def)
    then have "utf8_put cp = utf8_enc cp" by (simp add: utf8_put_eq scalar_def)
    with cp * q(2) us(1) show ?thesis by (intro exI [of _ "cp # cps"]) simp
  qed
qed

lemma utf16_to_utf8_encode_one:
  assumes "scalar c"
  shows "simd_scalar_utf16le_to_utf8 (utf16_enc c @ us) = map_option (append (utf8_enc c)) (simd_scalar_utf16le_to_utf8 us)"
proof -
  have put: "utf8_put c = utf8_enc c" by (rule utf8_put_eq) (use assms in \<open>simp add: scalar_def\<close>)
  show ?thesis
  proof (cases "c < 0x10000")
    case True
    then have "unat (of_nat c :: u16) = c" by (simp add: unsigned_of_nat take_bit_nat_eq_self)
    moreover have "c < 0xD800 \<or> c > 0xDFFF" using assms by (auto simp: scalar_def)
    ultimately show ?thesis using True put by (simp add: utf16_enc_def Let_def)
  next
    case False
    define a where "a = (c - 0x10000) div 1024"
    define b where "b = (c - 0x10000) mod 1024"
    have ab: "a < 1024" "b < 1024" "c = 0x10000 + a * 1024 + b"
      using False assms by (auto simp: a_def b_def scalar_def)
    have n: "unat (of_nat (0xD800 + a) :: u16) = 0xD800 + a" "unat (of_nat (0xDC00 + b) :: u16) = 0xDC00 + b"
      using ab by (simp_all only: unsigned_of_nat) (simp_all add: take_bit_nat_eq_self)
    have "utf16_enc c = [of_nat (0xD800 + a), of_nat (0xDC00 + b)]"
      using False by (simp add: utf16_enc_def a_def b_def)
    moreover have "0x10000 + push_bit 10 (0xD800 + a - 0xD800) + (0xDC00 + b - 0xDC00) = c"
      using ab(3) by (simp add: push_bit_eq_mult)
    ultimately show ?thesis using ab n put by (simp add: Let_def del: of_nat_add)
  qed
qed

lemma utf16_to_utf8_encode:
  "\<forall>c \<in> set cps. scalar c \<Longrightarrow> simd_scalar_utf16le_to_utf8 (utf16_encode cps) = Some (utf8_encode cps)"
  by (induction cps) (simp_all add: utf16_to_utf8_encode_one del: simd_scalar_utf16le_to_utf8.simps(2))

lemma validate_utf16_iff:
  "simd_scalar_validate_utf16le us \<longleftrightarrow> simd_scalar_utf16le_to_utf8 us \<noteq> None"
proof (induction us rule: simd_scalar_validate_utf16le.induct)
  case (2 u us)
  have [simp]: "u < 0xD800 \<longleftrightarrow> unat u < 0xD800" "u < 0xDC00 \<longleftrightarrow> unat u < 0xDC00" "u > 0xDFFF \<longleftrightarrow> unat u > 0xDFFF" "u > 0xDBFF \<longleftrightarrow> unat u > 0xDBFF" for u :: u16
    by (simp_all add: word_less_nat_alt)
  show ?case using 2 by (cases us) (auto simp: Let_def)
qed simp


subsection \<open>Latin-1\<close>

lemma latin1_high:
  assumes "\<not> c < 0x80"
  shows "utf8_enc (unat c) = [0xC0 OR drop_bit 6 c, 0x80 OR (c AND 0x3F)]"
proof -
  have c: "128 \<le> unat c" "unat c < 256" using assms by (auto simp: byte_tests unat8_less)
  then have d: "unat c div 64 < 4" by simp
  have "unat (drop_bit 6 c) = unat c div 64"
    by (simp only: unat_drop_bit_eq) (simp add: drop_bit_eq_div)
  then have "unat (0xC0 OR drop_bit 6 c) = 192 + unat c div 64"
    using d nat_or_high(2) [of "unat c div 64"] by (simp only: unat_or8) simp
  moreover have "unat (0x80 OR (c AND 0x3F)) = 128 + unat c mod 64"
    using nat_or_high(1) [of "unat c mod 64"] by (simp only: unat_or8 unat_byte_masks) simp
  ultimately have "0xC0 OR drop_bit 6 c = of_nat (192 + unat c div 64)"
    "0x80 OR (c AND 0x3F) = of_nat (128 + unat c mod 64)"
    using d by (simp_all only: byte_eq_iff) (subst unat_of_nat8; simp)+
  then show ?thesis using c by (simp add: utf8_enc_def del: of_nat_add)
qed

lemma latin1_to_utf8_eq: "simd_scalar_latin1_to_utf8 q = utf8_encode (map unat q)"
  by (induction q) (use ascii_byte latin1_high in \<open>auto simp del: unat_eq_0\<close>)

text \<open>The two-byte case of the decoder, read as one code point.\<close>

lemma utf8_to_latin1_pair:
  assumes "c AND 0xE0 = 0xC0" "c1 AND 0xC0 = 0x80"
  defines "cp \<equiv> push_bit 6 (unat (c AND 0x1F)) OR unat (c1 AND 0x3F)"
  shows "cp = (unat c - 192) * 64 + (unat c1 - 128)" "cp \<ge> 128 \<Longrightarrow> utf8_enc cp = [c, c1]" "\<not> c < 0x80"
proof -
  have c: "192 \<le> unat c" "unat c < 224" "128 \<le> unat c1" "unat c1 < 192" using assms(1,2) by (auto simp: byte_tests)
  have m: "unat c mod 32 = unat c - 192" "unat c1 mod 64 = unat c1 - 128"
    using c nat_mod_window [of 6 32 "unat c"] nat_mod_window [of 2 64 "unat c1"] by simp_all
  show cp: "cp = (unat c - 192) * 64 + (unat c1 - 128)"
    using nat_or_push [of "unat c1 - 128" 6 "unat c - 192"] c unfolding cp_def unat_byte_masks m by simp
  have q: "cp div 64 = unat c - 192" "cp mod 64 = unat c1 - 128" "cp < 2048"
    unfolding cp using c nat_div_mod_digit [of "unat c1 - 128" 64 "unat c - 192"] by linarith+
  show "utf8_enc cp = [c, c1]" if "cp \<ge> 128"
    using that q c by (simp add: utf8_enc_def byte_eq_iff unat_of_nat8 del: of_nat_add)
  show "\<not> c < 0x80" using c by (simp add: byte_tests)
qed

lemma utf8_to_latin1_sound:
  "simd_scalar_utf8_to_latin1 p = Some q \<Longrightarrow> p = utf8_encode (map unat q)"
proof (induction p arbitrary: q rule: simd_scalar_utf8_to_latin1.induct)
  case (2 c cs)
  show ?case
  proof (cases "c < 0x80")
    case True
    then obtain q' where "simd_scalar_utf8_to_latin1 cs = Some q'" "q = c # q'" using 2(3) by auto
    then show ?thesis using 2(1) [OF True] ascii_byte [OF True] by simp
  next
    case False
    then obtain c1 cs' where cs: "c AND 0xE0 = 0xC0" "cs = c1 # cs'" "c1 AND 0xC0 = 0x80"
      using 2(3) by (auto split: if_splits list.splits)
    define cp where "cp = push_bit 6 (unat (c AND 0x1F)) OR unat (c1 AND 0x3F)"
    have cp: "\<not> (cp < 0x80 \<or> cp > 0xFF)" using 2(3) cs False by (auto simp: cp_def Let_def split: if_splits)
    then obtain q' where q': "simd_scalar_utf8_to_latin1 cs' = Some q'" "q = of_nat cp # q'"
      using 2(3) cs False by (auto simp: cp_def Let_def)
    have "cs' = utf8_encode (map unat q')"
      using 2(2) [OF False cs(1,2) _ cp_def cp q'(1)] cs(3) by simp
    moreover have "utf8_enc cp = [c, c1]" using utf8_to_latin1_pair(2) [OF cs(1,3)] cp by (simp add: cp_def)
    moreover have "unat (of_nat cp :: byte) = cp" using cp by (simp add: unat_of_nat8)
    ultimately show ?thesis using q'(2) cs(2) by simp
  qed
qed simp

lemma utf8_to_latin1_complete: "simd_scalar_utf8_to_latin1 (utf8_encode (map unat q)) = Some q"
proof (induction q)
  case (Cons c q)
  show ?case
  proof (cases "c < 0x80")
    case True
    then show ?thesis using ascii_byte [OF True] Cons by simp
  next
    case False
    then have c: "128 \<le> unat c" "unat c < 256" by (auto simp: byte_tests unat8_less)
    define a :: byte where "a = of_nat (192 + unat c div 64)"
    define b :: byte where "b = of_nat (128 + unat c mod 64)"
    have ab: "unat a = 192 + unat c div 64" "unat b = 128 + unat c mod 64"
      using c by (auto simp only: a_def b_def unat_of_nat8)
    have t: "a AND 0xE0 = 0xC0" "b AND 0xC0 = 0x80"
      using c ab by (auto simp: byte_tests)
    have "push_bit 6 (unat (a AND 0x1F)) OR unat (b AND 0x3F) = unat c"
      using utf8_to_latin1_pair(1) [OF t] ab by simp
    moreover have "utf8_enc (unat c) = [a, b]" using c by (simp add: utf8_enc_def a_def b_def)
    moreover note utf8_to_latin1_pair(3) [OF t]
    ultimately show ?thesis using Cons t c by (simp add: Let_def)
  qed
qed simp

subsection \<open>Counting\<close>

lemma count_utf8_encode:
  "\<forall>c \<in> set cps. scalar c \<Longrightarrow> simd_scalar_count_utf8 (utf8_encode cps) = length cps"
proof (induction cps)
  case (Cons c cps)
  have "length (filter (\<lambda>c. c AND 0xC0 \<noteq> 0x80) (utf8_enc c)) = 1"
    using Cons.prems
    by (auto simp: utf8_enc_def byte_tests unat_of_nat8 scalar_def div_less_iff_less_mult less_mult_imp_div_less simp del: of_nat_add)
  then show ?case using Cons by (simp add: simd_scalar_count_utf8_def)
qed (simp add: simd_scalar_count_utf8_def)

lemma count_utf16_encode:
  "\<forall>c \<in> set cps. scalar c \<Longrightarrow> simd_scalar_count_utf16 (utf16_encode cps) = length cps"
proof (induction cps)
  case (Cons c cps)
  have "length (filter (\<lambda>u. u < 0xDC00 \<or> u > 0xDFFF) (utf16_enc c)) = 1"
    using Cons.prems
    by (auto simp: utf16_enc_def word_less_nat_alt unsigned_of_nat take_bit_nat_eq_self scalar_def div_less_iff_less_mult less_mult_imp_div_less simp del: of_nat_add)
  then show ?case using Cons by (simp add: simd_scalar_count_utf16_def)
qed (simp add: simd_scalar_count_utf16_def)

subsection \<open>Properties\<close>

text \<open>C23. The UTF-8 validator returns the length of the longest prefix of its input that is
  well-formed UTF-8: the bytes before the returned offset are the encoding of a list of Unicode
  scalar values, and no encoding of a scalar value starts at the offset.\<close>

theorem simd_scalar_validate_utf8_longest_prefix:
  "\<exists>cps rest. p = utf8_encode cps @ rest \<and> list_all scalar cps \<and>
     simd_scalar_validate_utf8 p = length (utf8_encode cps) \<and>
     \<not> (\<exists>c r. scalar c \<and> rest = utf8_enc c @ r)"
  using validate_utf8_sound [of p 0] by (auto simp: simd_scalar_validate_utf8_def list_all_iff)

text \<open>C24. The validator accepts an input in full exactly when it is the UTF-8 encoding of some list
  of scalar values, which is exactly when the transcoder to UTF-16 does not fail on it.\<close>

theorem simd_scalar_validate_utf8_accepts:
  "(simd_scalar_validate_utf8 p = length p \<longleftrightarrow> (\<exists>cps. list_all scalar cps \<and> p = utf8_encode cps)) \<and>
   (simd_scalar_validate_utf8 p = length p \<longleftrightarrow> simd_scalar_utf8_to_utf16le p \<noteq> None)"
proof -
  have enc: "simd_scalar_validate_utf8 p = length p \<and> simd_scalar_utf8_to_utf16le p \<noteq> None"
    if "list_all scalar cps" "p = utf8_encode cps" for cps
    using that validate_utf8_encode [of cps 0 "[]"] utf8_to_utf16_encode [of cps]
    by (simp add: simd_scalar_validate_utf8_def list_all_iff)
  have dec: "\<exists>cps. list_all scalar cps \<and> p = utf8_encode cps" if full: "simd_scalar_validate_utf8 p = length p"
  proof -
    obtain cps rest where p: "p = utf8_encode cps @ rest" "\<forall>c \<in> set cps. scalar c"
      "validate_utf8_from 0 p = 0 + length (utf8_encode cps)" using validate_utf8_sound [of p 0] by blast
    then have "length rest = 0" using full by (simp add: simd_scalar_validate_utf8_def)
    then show ?thesis using p by (auto simp: list_all_iff)
  qed
  have "\<exists>cps. list_all scalar cps \<and> p = utf8_encode cps" if "simd_scalar_utf8_to_utf16le p \<noteq> None"
    using that utf8_to_utf16_sound [of p] by (auto simp: list_all_iff)
  then show ?thesis using enc dec by blast
qed

text \<open>C22. Transcoding between UTF-8 and UTF-16 is a bijection on valid inputs: one direction yields
  an output exactly when the other direction maps that output back to the input.\<close>

theorem simd_scalar_utf8_utf16le_roundtrip:
  "simd_scalar_utf8_to_utf16le p = Some us \<longleftrightarrow> simd_scalar_utf16le_to_utf8 us = Some p"
proof
  assume "simd_scalar_utf8_to_utf16le p = Some us"
  from utf8_to_utf16_sound [OF this] show "simd_scalar_utf16le_to_utf8 us = Some p"
    by (auto simp: utf16_to_utf8_encode)
next
  assume "simd_scalar_utf16le_to_utf8 us = Some p"
  from utf16_to_utf8_sound [OF this] show "simd_scalar_utf8_to_utf16le p = Some us"
    by (auto simp: utf8_to_utf16_encode)
qed

text \<open>C25. Decoding UTF-8 to Latin-1 is the exact inverse of encoding Latin-1 as UTF-8: it succeeds on
  the encodings of Latin-1 texts and on nothing else, and every such encoding is valid UTF-8.\<close>

theorem simd_scalar_latin1_utf8_roundtrip:
  "(simd_scalar_utf8_to_latin1 p = Some q \<longleftrightarrow> simd_scalar_latin1_to_utf8 q = p) \<and>
   simd_scalar_validate_utf8 (simd_scalar_latin1_to_utf8 q) = length (simd_scalar_latin1_to_utf8 q)"
proof -
  have "scalar (unat c)" for c :: byte using unat8_less [of c] by (simp add: scalar_def)
  then have "validate_utf8_from 0 (utf8_encode (map unat q) @ []) = length (utf8_encode (map unat q))"
    using validate_utf8_encode [of "map unat q" 0 "[]"] by simp
  then show ?thesis
    using utf8_to_latin1_sound [of p q] utf8_to_latin1_complete [of q]
    by (auto simp: latin1_to_utf8_eq simd_scalar_validate_utf8_def)
qed

text \<open>On valid input the two counting kernels agree: the number of code points of a UTF-8 text is
  the number of code points of its UTF-16 form, and that form passes the UTF-16 validator.\<close>

theorem simd_scalar_counts_agree:
  assumes "simd_scalar_utf8_to_utf16le p = Some us"
  shows "simd_scalar_validate_utf16le us \<and>
    (\<exists>cps. list_all scalar cps \<and> p = utf8_encode cps \<and> us = utf16_encode cps \<and>
      simd_scalar_count_utf8 p = length cps \<and> simd_scalar_count_utf16 us = length cps)"
proof -
  obtain cps where cps: "\<forall>c \<in> set cps. scalar c" "p = utf8_encode cps" "us = utf16_encode cps"
    using utf8_to_utf16_sound [OF assms] by blast
  show ?thesis
    using cps count_utf8_encode [OF cps(1)] count_utf16_encode [OF cps(1)] utf16_to_utf8_encode [OF cps(1)]
    by (auto simp: validate_utf16_iff list_all_iff)
qed

theorem simd_scalar_counts_agree_witness:
  "simd_scalar_utf8_to_utf16le [0x41, 0xF0, 0x9F, 0x98, 0x80] = Some [0x41, 0xD83D, 0xDE00] \<and>
   simd_scalar_validate_utf16le [0x41, 0xD83D, 0xDE00]"
proof -
  have "simd_scalar_utf8_to_utf16le [0x41, 0xF0, 0x9F, 0x98, 0x80] = Some [0x41, 0xD83D, 0xDE00]"
    using utf8_to_utf16_encode [of "[0x41, 0x1F600]"] by (simp add: utf8_enc_def utf16_enc_def scalar_def)
  with simd_scalar_counts_agree [OF this] show ?thesis by simp
qed

end
