(* ===== verification/KernelText.thy ===== *)
theory KernelText
  imports DynBytes
begin

text \<open>
  The hexadecimal and base64 kernels of \<open>src/dyna-simd-scalar.c\<close>. A kernel takes the input array
  as a list and returns the written prefix of the output array; \<open>None\<close> is the return value
  \<open>SIZE_MAX\<close>. The 24-bit groups of base64 are natural numbers: they fit the \<open>uint32_t\<close> of the
  code. The theorems show that decoding inverts encoding, what a decoder accepts, and the lengths
  the callers allocate by.
\<close>

subsection \<open>Model\<close>

definition simd_b64_alphabet :: bytes where
  "simd_b64_alphabet = map of_char ''ABCDEFGHIJKLMNOPQRSTUVWXYZabcdefghijklmnopqrstuvwxyz0123456789+/''"

definition b64_char :: "nat \<Rightarrow> byte" where
  "b64_char v = simd_b64_alphabet ! (v AND 0x3F)"

fun simd_scalar_base64_encode :: "bytes \<Rightarrow> bytes" where
  "simd_scalar_base64_encode (s0 # s1 # s2 # ss) =
     (let x = push_bit 16 (unat s0) OR push_bit 8 (unat s1) OR unat s2 in
      b64_char (drop_bit 18 x) # b64_char (drop_bit 12 x) # b64_char (drop_bit 6 x) # b64_char x #
      simd_scalar_base64_encode ss)"
| "simd_scalar_base64_encode [s0] =
     (let x = push_bit 16 (unat s0) in
      [b64_char (drop_bit 18 x), b64_char (drop_bit 12 x), of_char CHR ''='', of_char CHR ''=''])"
| "simd_scalar_base64_encode [s0, s1] =
     (let x = push_bit 16 (unat s0) OR push_bit 8 (unat s1) in
      [b64_char (drop_bit 18 x), b64_char (drop_bit 12 x), b64_char (drop_bit 6 x), of_char CHR ''=''])"
| "simd_scalar_base64_encode [] = []"

definition simd_b64_dec :: "int list" where
  "simd_b64_dec = [
     -1, -1, -1, -1, -1, -1, -1, -1, -1, -1, -1, -1, -1, -1, -1, -1,
     -1, -1, -1, -1, -1, -1, -1, -1, -1, -1, -1, -1, -1, -1, -1, -1,
     -1, -1, -1, -1, -1, -1, -1, -1, -1, -1, -1, 62, -1, -1, -1, 63,
     52, 53, 54, 55, 56, 57, 58, 59, 60, 61, -1, -1, -1, -1, -1, -1,
     -1, 0, 1, 2, 3, 4, 5, 6, 7, 8, 9, 10, 11, 12, 13, 14,
     15, 16, 17, 18, 19, 20, 21, 22, 23, 24, 25, -1, -1, -1, -1, -1,
     -1, 26, 27, 28, 29, 30, 31, 32, 33, 34, 35, 36, 37, 38, 39, 40,
     41, 42, 43, 44, 45, 46, 47, 48, 49, 50, 51, -1, -1, -1, -1, -1,
     -1, -1, -1, -1, -1, -1, -1, -1, -1, -1, -1, -1, -1, -1, -1, -1,
     -1, -1, -1, -1, -1, -1, -1, -1, -1, -1, -1, -1, -1, -1, -1, -1,
     -1, -1, -1, -1, -1, -1, -1, -1, -1, -1, -1, -1, -1, -1, -1, -1,
     -1, -1, -1, -1, -1, -1, -1, -1, -1, -1, -1, -1, -1, -1, -1, -1,
     -1, -1, -1, -1, -1, -1, -1, -1, -1, -1, -1, -1, -1, -1, -1, -1,
     -1, -1, -1, -1, -1, -1, -1, -1, -1, -1, -1, -1, -1, -1, -1, -1,
     -1, -1, -1, -1, -1, -1, -1, -1, -1, -1, -1, -1, -1, -1, -1, -1,
     -1, -1, -1, -1, -1, -1, -1, -1, -1, -1, -1, -1, -1, -1, -1, -1]"

definition b64_dec :: "byte \<Rightarrow> int" where
  "b64_dec c = simd_b64_dec ! unat c"

text \<open>The bytes of one group: the values of the four characters and the number of padding
  characters.\<close>

definition b64_unpack :: "nat \<Rightarrow> nat \<Rightarrow> nat \<Rightarrow> nat \<Rightarrow> nat \<Rightarrow> bytes" where
  "b64_unpack v0 v1 v2 v3 pad =
     (let x = push_bit 18 v0 OR push_bit 12 v1 OR push_bit 6 v2 OR v3 in
      [of_nat (drop_bit 16 x AND 0xFF)] @
      (if pad < 2 then [of_nat (drop_bit 8 x AND 0xFF)] else []) @
      (if pad < 1 then [of_nat (x AND 0xFF)] else []))"

text \<open>The body of the loop of \<open>simd_scalar_base64_decode\<close>.\<close>

definition b64_group :: "bool \<Rightarrow> byte \<Rightarrow> byte \<Rightarrow> byte \<Rightarrow> byte \<Rightarrow> bytes option" where
  "b64_group last_group c0 c1 c2 c3 =
     (let v0 = b64_dec c0; v1 = b64_dec c1 in
      if v0 < 0 \<or> v1 < 0 then None
      else if c2 = of_char CHR ''='' then
        (if \<not> last_group \<or> c3 \<noteq> of_char CHR ''='' then None
         else Some (b64_unpack (nat v0) (nat v1) 0 0 2))
      else
        (let v2 = b64_dec c2 in
         if v2 < 0 then None
         else if c3 = of_char CHR ''='' then
           (if \<not> last_group then None else Some (b64_unpack (nat v0) (nat v1) (nat v2) 0 1))
         else
           (let v3 = b64_dec c3 in
            if v3 < 0 then None else Some (b64_unpack (nat v0) (nat v1) (nat v2) (nat v3) 0))))"

text \<open>The loop runs only on a multiple of four characters; the last equation is for the lengths it
  never sees.\<close>

fun base64_decode_groups :: "bytes \<Rightarrow> bytes option" where
  "base64_decode_groups [] = Some []"
| "base64_decode_groups (c0 # c1 # c2 # c3 # cs) =
     (case b64_group (cs = []) c0 c1 c2 c3 of
        None \<Rightarrow> None
      | Some bs \<Rightarrow> map_option (append bs) (base64_decode_groups cs))"
| "base64_decode_groups _ = None"

definition simd_scalar_base64_decode :: "bytes \<Rightarrow> bytes option" where
  "simd_scalar_base64_decode src =
     (if length src mod 4 \<noteq> 0 then None
      else if length src = 0 then Some []
      else base64_decode_groups src)"

definition simd_hex_lut :: bytes where
  "simd_hex_lut = map of_char ''0123456789abcdef''"

definition simd_hex_val :: "byte \<Rightarrow> int" where
  "simd_hex_val c =
     (if c \<ge> of_char CHR ''0'' \<and> c \<le> of_char CHR ''9'' then int (unat c) - of_char CHR ''0''
      else if c \<ge> of_char CHR ''a'' \<and> c \<le> of_char CHR ''f'' then int (unat c) - of_char CHR ''a'' + 10
      else if c \<ge> of_char CHR ''A'' \<and> c \<le> of_char CHR ''F'' then int (unat c) - of_char CHR ''A'' + 10
      else - 1)"

fun simd_scalar_hex_encode :: "bytes \<Rightarrow> bytes" where
  "simd_scalar_hex_encode [] = []"
| "simd_scalar_hex_encode (s # ss) =
     simd_hex_lut ! unat (drop_bit 4 s) # simd_hex_lut ! unat (s AND 0x0F) # simd_scalar_hex_encode ss"

fun hex_decode_pairs :: "bytes \<Rightarrow> bytes option" where
  "hex_decode_pairs (c0 # c1 # cs) =
     (let hi = simd_hex_val c0; lo = simd_hex_val c1 in
      if hi < 0 \<or> lo < 0 then None
      else map_option (Cons (of_nat (push_bit 4 (nat hi) OR nat lo))) (hex_decode_pairs cs))"
| "hex_decode_pairs _ = Some []"

definition simd_scalar_hex_decode :: "bytes \<Rightarrow> bytes option" where
  "simd_scalar_hex_decode src = (if odd (length src) then None else hex_decode_pairs src)"

subsection \<open>The tables\<close>

lemma b64_table: "map b64_dec simd_b64_alphabet = map int [0..<64]"
  by code_simp

lemma b64_alphabet_no_pad: "of_char CHR ''='' \<notin> set simd_b64_alphabet"
  by code_simp

lemma b64_alphabet_no_url: "of_char CHR ''-'' \<notin> set simd_b64_alphabet \<and> of_char CHR ''_'' \<notin> set simd_b64_alphabet"
  by code_simp

lemma b64_length [simp]: "length simd_b64_alphabet = 64"
  by (simp add: simd_b64_alphabet_def)

lemma hex_table: "map simd_hex_val simd_hex_lut = map int [0..<16]"
  by code_simp

lemma hex_length [simp]: "length simd_hex_lut = 16"
  by (simp add: simd_hex_lut_def)

subsection \<open>Groups\<close>

lemma b64_dec_char [simp]: "b64_dec (b64_char v) = int (v mod 64)"
  using table_inverse [OF b64_table, of "v mod 64"] by (simp add: b64_char_def nat_and_low)

lemma b64_char_mem: "b64_char v \<in> set simd_b64_alphabet"
  by (simp add: b64_char_def nat_and_low)

lemma b64_char_no_pad [simp]: "b64_char v \<noteq> 61"
  using b64_char_mem [of v] b64_alphabet_no_pad by auto

lemma b64_pack:
  assumes "b < 256" "c < 256"
  shows "push_bit 16 a OR push_bit 8 b OR c = a * 65536 + b * 256 + (c :: nat)"
  using assms nat_or_dvd [of "b * 256 + c" 16 "a * 65536"] nat_or_dvd [of c 8 "b * 256"]
  by (simp add: push_bit_eq_mult)

lemma b64_regroup:
  assumes "b < 64" "c < 64" "d < 64"
  shows "push_bit 18 a OR push_bit 12 b OR push_bit 6 c OR d = a * 262144 + b * 4096 + c * 64 + (d :: nat)"
  using assms nat_or_dvd [of "b * 4096 + c * 64 + d" 18 "a * 262144"] nat_or_dvd [of "c * 64 + d" 12 "b * 4096"]
    nat_or_dvd [of d 6 "c * 64"]
  by (simp add: push_bit_eq_mult add.assoc)

lemma b64_digits:
  fixes x :: nat
  assumes "x < 16777216"
  shows "x div 262144 mod 64 * 262144 + x div 4096 mod 64 * 4096 + x div 64 mod 64 * 64 + x mod 64 = x"
proof -
  have "x div 262144 mod 64 = x div 262144" using assms by (simp add: div_less_iff_less_mult)
  moreover have "x div 64 div 64 = x div 4096" "x div 4096 div 64 = x div 262144"
    by (simp_all add: div_mult2_eq [symmetric])
  ultimately show ?thesis
    using div_mult_mod_eq [of x 64] div_mult_mod_eq [of "x div 64" 64] div_mult_mod_eq [of "x div 4096" 64]
    by linarith
qed

lemma b64_unpack_digits:
  assumes "x < 16777216"
  shows "b64_unpack (x div 262144 mod 64) (x div 4096 mod 64) (x div 64 mod 64) (x mod 64) pad =
    take (if pad < 1 then 3 else if pad < 2 then 2 else 1) [of_nat (x div 65536), of_nat (x div 256), of_nat x]"
proof -
  have "push_bit 18 (x div 262144 mod 64) OR push_bit 12 (x div 4096 mod 64) OR push_bit 6 (x div 64 mod 64) OR x mod 64 = x"
    by (subst b64_regroup, simp, simp, simp, rule b64_digits [OF assms])
  then show ?thesis
    unfolding b64_unpack_def by (simp add: of_nat_mod256 nat_and_low drop_bit_eq_div)
qed

lemma b64_bytes:
  fixes s0 s1 s2 :: byte
  defines "x \<equiv> unat s0 * 65536 + unat s1 * 256 + unat s2"
  shows "x < 16777216" "of_nat (x div 65536) = s0" "of_nat (x div 256) = s1" "of_nat x = s2"
proof -
  note u = unat8_less [of s0] unat8_less [of s1] unat8_less [of s2]
  show "x < 16777216" using u by (simp add: x_def)
  have "x div 65536 = unat s0" "x div 256 = unat s0 * 256 + unat s1" using u by (simp_all add: x_def)
  moreover have "y * (256 :: byte) = 0" "y * (65536 :: byte) = 0" for y
    by (simp_all add: byte_eq_iff unat_word_ariths)
  ultimately show "of_nat (x div 65536) = s0" "of_nat (x div 256) = s1" "of_nat x = s2"
    by (simp_all add: x_def)
qed

lemma base64_decode_step:
  "base64_decode_groups (simd_scalar_base64_encode ss) = Some ss"
proof (induction ss rule: simd_scalar_base64_encode.induct)
  case (1 s0 s1 s2 ss)
  define x where "x = unat s0 * 65536 + unat s1 * 256 + unat s2"
  have x: "x < 16777216" "of_nat (x div 65536) = s0" "of_nat (x div 256) = s1" "of_nat x = s2"
    "push_bit 16 (unat s0) OR push_bit 8 (unat s1) OR unat s2 = x"
    using b64_bytes [of s0 s1 s2] by (simp_all add: x_def b64_pack [OF unat8_less unat8_less])
  show ?case
    using 1 x(2-4) b64_unpack_digits [OF x(1), of 0]
    by (simp add: b64_group_def Let_def x(5) drop_bit_eq_div)
next
  case (2 s0)
  define x where "x = unat s0 * 65536"
  have x: "x < 16777216" "of_nat (x div 65536) = s0" "x div 64 mod 64 = 0" "x mod 64 = 0"
    using b64_bytes [of s0 0 0] by (simp_all add: x_def)
  show ?case
    using x(2) b64_unpack_digits [OF x(1), of 2, unfolded x(3,4)]
    by (simp add: b64_group_def Let_def push_bit_eq_mult drop_bit_eq_div x_def)
next
  case (3 s0 s1)
  define x where "x = unat s0 * 65536 + unat s1 * 256"
  have x: "x < 16777216" "of_nat (x div 65536) = s0" "of_nat (x div 256) = s1" "x mod 64 = 0"
    "push_bit 16 (unat s0) OR push_bit 8 (unat s1) = x"
    using b64_bytes [of s0 s1 0] b64_pack [OF unat8_less, of 0 "unat s0" s1] unfolding x_def by simp_all
  show ?case
    using x(2,3) b64_unpack_digits [OF x(1), of 1, unfolded x(4)]
    by (simp add: b64_group_def Let_def x(5) drop_bit_eq_div)
qed simp

lemma base64_encode_length: "length (simd_scalar_base64_encode ss) = 4 * ((length ss + 2) div 3)"
proof (induction ss rule: simd_scalar_base64_encode.induct)
  case (1 s0 s1 s2 ss)
  have "length (s0 # s1 # s2 # ss) + 2 = length ss + 2 + 3" by simp
  then have "(length (s0 # s1 # s2 # ss) + 2) div 3 = Suc ((length ss + 2) div 3)" by (simp only: div_add_self2)
  then show ?case using 1 by (simp add: Let_def)
qed (simp_all add: Let_def)

lemma base64_decode_groups_bound:
  "base64_decode_groups src = Some d \<Longrightarrow> length d \<le> 3 * (length src div 4)"
proof (induction src arbitrary: d rule: base64_decode_groups.induct)
  case (2 c0 c1 c2 c3 cs)
  then obtain bs d' where *: "b64_group (cs = []) c0 c1 c2 c3 = Some bs" "base64_decode_groups cs = Some d'" "d = bs @ d'"
    by (auto split: option.splits)
  have "length bs \<le> 3" using *(1) by (auto simp: b64_group_def b64_unpack_def Let_def split: if_splits)
  then show ?case using 2(1) [OF *(1,2)] *(3) by simp
qed simp_all

subsection \<open>Hexadecimal\<close>

definition hex_lower :: "byte \<Rightarrow> byte" where
  "hex_lower c = (if of_char CHR ''A'' \<le> c \<and> c \<le> of_char CHR ''F'' then c + 32 else c)"

lemma hex_lut_unat: "map unat simd_hex_lut = [48..<58] @ [97..<103]"
  by code_simp

lemma hex_lut_nth: "v < 16 \<Longrightarrow> unat (simd_hex_lut ! v) = (if v < 10 then 48 + v else 87 + v)"
  using arg_cong [OF hex_lut_unat, of "\<lambda>l. l ! v"] by (simp only: nth_map hex_length nth_append) (simp del: upt_rec_numeral)

lemma hex_lut_mem: "c \<in> set simd_hex_lut \<longleftrightarrow> unat c \<in> {48..<58} \<union> {97..<103}"
proof -
  have "unat c \<in> set (map unat simd_hex_lut) \<longleftrightarrow> c \<in> set simd_hex_lut" by (metis (no_types) byte_eq_iff image_iff list.set_map)
  then show ?thesis unfolding hex_lut_unat set_append set_upt by blast
qed

lemma hex_val_unat:
  "simd_hex_val c = (if 48 \<le> unat c \<and> unat c \<le> 57 then int (unat c) - 48
     else if 97 \<le> unat c \<and> unat c \<le> 102 then int (unat c) - 87
     else if 65 \<le> unat c \<and> unat c \<le> 70 then int (unat c) - 55 else - 1)"
  by (simp add: simd_hex_val_def word_le_nat_alt)

lemma hex_lower_unat: "unat (hex_lower c) = (if 65 \<le> unat c \<and> unat c \<le> 70 then unat c + 32 else unat c)"
  by (auto simp: hex_lower_def word_le_nat_alt unat_word_ariths)

lemma hex_val_cases:
  obtains (bad) "simd_hex_val c < 0" "hex_lower c \<notin> set simd_hex_lut"
    | (digit) v where "simd_hex_val c = int v" "v < 16" "hex_lower c = simd_hex_lut ! v"
proof -
  define n where "n = unat c"
  note val = hex_val_unat [of c, folded n_def] and low = hex_lower_unat [of c, folded n_def]
  show ?thesis
  proof (cases "simd_hex_val c < 0")
    case True
    moreover have "hex_lower c \<notin> set simd_hex_lut"
      using True unfolding hex_lut_mem low val by (auto split: if_splits)
    ultimately show ?thesis by (rule bad)
  next
    case False
    define v where "v = nat (simd_hex_val c)"
    have v: "simd_hex_val c = int v" "v < 16"
      using False unfolding v_def val by (auto split: if_splits)
    moreover have "hex_lower c = simd_hex_lut ! v"
      using v False unfolding byte_eq_iff low hex_lut_nth [OF v(2)] val by (auto split: if_splits)
    ultimately show ?thesis by (rule digit)
  qed
qed

lemma hex_lut_inj: "i < 16 \<Longrightarrow> j < 16 \<Longrightarrow> simd_hex_lut ! i = simd_hex_lut ! j \<longleftrightarrow> i = j"
  using table_inverse [OF hex_table] by (metis of_nat_eq_iff)

lemma hex_digits:
  fixes s :: byte
  shows "unat (drop_bit 4 s) = unat s div 16" "unat s div 16 < 16" "unat (s AND 0x0F) = unat s mod 16"
  using unat8_less [of s] by (simp_all add: unat_byte_masks) (simp_all only: unat_drop_bit_eq, simp add: drop_bit_eq_div)

lemma hex_byte:
  assumes "h < 16" "l < 16"
  shows "of_nat (push_bit 4 h OR l) = s \<longleftrightarrow> h = unat (s :: byte) div 16 \<and> l = unat s mod 16"
proof -
  have "push_bit 4 h OR l = h * 16 + l" using nat_or_push [of l 4 h] assms by simp
  moreover have "unat (of_nat (h * 16 + l) :: byte) = h * 16 + l" using assms by (intro unat_of_nat8) simp
  moreover have "h * 16 + l = unat s \<longleftrightarrow> h = unat s div 16 \<and> l = unat s mod 16"
    using nat_div_mod_digit [OF assms(2), of h] div_mult_mod_eq [of "unat s" 16] by metis
  ultimately show ?thesis by (simp only: byte_eq_iff)
qed

lemma hex_encode_length: "length (simd_scalar_hex_encode d) = length d * 2"
  by (induction d rule: simd_scalar_hex_encode.induct) simp_all

lemma hex_decode_iff:
  "even (length src) \<Longrightarrow> hex_decode_pairs src = Some d \<longleftrightarrow> simd_scalar_hex_encode d = map hex_lower src"
proof (induction src arbitrary: d rule: hex_decode_pairs.induct)
  case (1 c0 c1 cs)
  show ?case
  proof (cases d)
    case Nil
    then show ?thesis by (auto simp: Let_def)
  next
    case (Cons s ss)
    note hex = hex_digits [of s]
    have mem: "simd_hex_lut ! (unat s div 16) \<in> set simd_hex_lut" "simd_hex_lut ! (unat s mod 16) \<in> set simd_hex_lut"
      using hex by simp_all
    show ?thesis
    proof (cases rule: hex_val_cases [where c = c0])
      case bad
      then have "simd_hex_lut ! (unat s div 16) \<noteq> hex_lower c0" using mem(1) by metis
      then show ?thesis using Cons hex bad(1) by (simp add: Let_def)
    next
      case (digit h)
      note h = this
      show ?thesis
      proof (cases rule: hex_val_cases [where c = c1])
        case bad
        then have "simd_hex_lut ! (unat s mod 16) \<noteq> hex_lower c1" using mem(2) by metis
        then show ?thesis using Cons hex bad(1) by (simp add: Let_def)
      next
        case (digit l)
        have "simd_scalar_hex_encode d = map hex_lower (c0 # c1 # cs) \<longleftrightarrow>
          h = unat s div 16 \<and> l = unat s mod 16 \<and> simd_scalar_hex_encode ss = map hex_lower cs"
          using Cons h digit hex hex_lut_inj [of "unat s div 16" h] hex_lut_inj [of "unat s mod 16" l] by auto
        moreover have "hex_decode_pairs (c0 # c1 # cs) = Some d \<longleftrightarrow>
          of_nat (push_bit 4 h OR l) = s \<and> hex_decode_pairs cs = Some ss"
          using Cons h digit by (auto simp: Let_def)
        ultimately show ?thesis
          using 1(1) [OF refl refl, of ss] 1(2) h digit hex_byte [of h l s] by simp
      qed
    qed
  qed
next
  case "2_1"
  show ?case by (cases d) auto
qed simp

lemma base64_decode_encode: "simd_scalar_base64_decode (simd_scalar_base64_encode d) = Some d"
  using base64_decode_step [of d] base64_encode_length [of d] by (auto simp: simd_scalar_base64_decode_def)

subsection \<open>Properties\<close>

text \<open>C28. Base64 decoding inverts base64 encoding on every byte string, and the encoding has the length
  the callers reserve: four characters for every started group of three bytes.\<close>

theorem simd_scalar_base64_roundtrip:
  "simd_scalar_base64_decode (simd_scalar_base64_encode d) = Some d \<and>
   length (simd_scalar_base64_encode d) = 4 * ((length d + 2) div 3)"
  by (simp add: base64_decode_encode base64_encode_length)

text \<open>A successful base64 decode consumed a multiple of four characters and wrote at most three
  bytes per group, so it stays inside a buffer of that size.\<close>

theorem simd_scalar_base64_decode_bound:
  assumes "simd_scalar_base64_decode src = Some d"
  shows "length src mod 4 = 0 \<and> length d \<le> 3 * (length src div 4)"
  using assms base64_decode_groups_bound [of src d]
  by (auto simp: simd_scalar_base64_decode_def split: if_splits)

theorem simd_scalar_base64_decode_bound_witness:
  "simd_scalar_base64_decode (map of_char ''aGk='') = Some (map of_char ''hi'') \<and>
   length (map of_char ''hi'' :: bytes) \<le> 3 * (length (map of_char ''aGk='' :: bytes) div 4)"
proof -
  have "simd_scalar_base64_decode (map of_char ''aGk='') = Some (map of_char ''hi'')"
    by (simp add: simd_scalar_base64_decode_def b64_group_def b64_dec_def simd_b64_dec_def b64_unpack_def Let_def)
  with simd_scalar_base64_decode_bound [OF this] show ?thesis by blast
qed

text \<open>C29. The hexadecimal decoder accepts exactly the inputs that are, up to the case of their letters,
  the output of the encoder, and returns the bytes they encode.\<close>

theorem simd_scalar_hex_decode_iff:
  "simd_scalar_hex_decode src = Some d \<longleftrightarrow> simd_scalar_hex_encode d = map hex_lower src"
proof -
  have "odd (length src) \<Longrightarrow> simd_scalar_hex_encode d \<noteq> map hex_lower src"
    using hex_encode_length [of d] by (metis dvd_triv_left length_map mult.commute)
  then show ?thesis using hex_decode_iff [of src d] by (simp add: simd_scalar_hex_decode_def)
qed

end
