(* ===== verification/Codec.thy ===== *)
theory Codec
  imports KernelText
begin

text \<open>
  The codecs of \<open>src/core/dyn-codec.c\<close>: base64url over the base64 kernels, base32 with its two
  alphabets, base85 and the variable-length integers. Input arrays are lists, the result is the
  written prefix of the output array and \<open>None\<close> is the return value \<open>DYN_CODEC_BAD\<close>.
  The accumulators that the code bounds itself (40 bits in base32, below \<open>85 ^ 5\<close> in base85) are
  natural numbers; the integers of the varint codec are 64-bit words.
\<close>

subsection \<open>Hexadecimal, base64 and base64url\<close>

definition dyn_codec_hex_encode :: "bytes \<Rightarrow> bytes" where
  "dyn_codec_hex_encode data = simd_scalar_hex_encode data"

definition dyn_codec_hex_decode :: "bytes \<Rightarrow> bytes option" where
  "dyn_codec_hex_decode s = (if odd (length s) then None else simd_scalar_hex_decode s)"

definition dyn_codec_base64_encode :: "bytes \<Rightarrow> bytes" where
  "dyn_codec_base64_encode data = simd_scalar_base64_encode data"

definition dyn_codec_base64_decode :: "bytes \<Rightarrow> bytes option" where
  "dyn_codec_base64_decode s = simd_scalar_base64_decode s"

fun base64url_rewrite :: "bytes \<Rightarrow> bytes" where
  "base64url_rewrite [] = []"
| "base64url_rewrite (c # cs) =
     (if c = of_char CHR ''='' then []
      else (if c = of_char CHR ''+'' then of_char CHR ''-''
            else if c = of_char CHR ''/'' then of_char CHR ''_'' else c) # base64url_rewrite cs)"

definition dyn_codec_base64url_encode :: "bytes \<Rightarrow> bytes" where
  "dyn_codec_base64url_encode data = base64url_rewrite (simd_scalar_base64_encode data)"

fun base64url_scratch :: "bytes \<Rightarrow> bytes option" where
  "base64url_scratch [] = Some []"
| "base64url_scratch (c # cs) =
     (if c = of_char CHR ''-'' then map_option (Cons (of_char CHR ''+'')) (base64url_scratch cs)
      else if c = of_char CHR ''_'' then map_option (Cons (of_char CHR ''/'')) (base64url_scratch cs)
      else if c = of_char CHR ''+'' \<or> c = of_char CHR ''/'' then None
      else map_option (Cons c) (base64url_scratch cs))"

definition dyn_codec_base64url_decode :: "bytes \<Rightarrow> bytes option" where
  "dyn_codec_base64url_decode s =
     (let rem = length s mod 4 in
      if rem = 1 then None
      else (let padlen = (if rem \<noteq> 0 then 4 - rem else 0) in
            case base64url_scratch s of
              None \<Rightarrow> None
            | Some scratch \<Rightarrow>
                simd_scalar_base64_decode (scratch @ replicate padlen (of_char CHR ''=''))))"

subsection \<open>Base32\<close>

datatype dyn_base32_alphabet = DYN_BASE32_STD | DYN_BASE32_HEX

definition dyn_b32_std_alpha :: bytes where
  "dyn_b32_std_alpha = map of_char ''ABCDEFGHIJKLMNOPQRSTUVWXYZ234567''"

definition dyn_b32_hex_alpha :: bytes where
  "dyn_b32_hex_alpha = map of_char ''0123456789ABCDEFGHIJKLMNOPQRSTUV''"

definition dyn_codec_b32_alpha :: "dyn_base32_alphabet \<Rightarrow> bytes" where
  "dyn_codec_b32_alpha magic = (if magic = DYN_BASE32_HEX then dyn_b32_hex_alpha else dyn_b32_std_alpha)"

text \<open>The 40-bit group of five bytes and its characters; \<open>b32_encode_tab\<close> writes a full group and
  the last, shorter group with the same expressions.\<close>

definition b32_pack :: "bytes \<Rightarrow> nat" where
  "b32_pack d = push_bit 32 (unat (d ! 0)) OR push_bit 24 (unat (d ! 1)) OR push_bit 16 (unat (d ! 2)) OR
     push_bit 8 (unat (d ! 3)) OR unat (d ! 4)"

definition b32_char :: "bytes \<Rightarrow> nat \<Rightarrow> nat \<Rightarrow> byte" where
  "b32_char alpha v j = alpha ! (drop_bit (35 - 5 * j) v AND 0x1F)"

definition nchars_tab :: "nat list" where
  "nchars_tab = [0, 2, 4, 5, 7, 8]"

definition b32_encode_last :: "bytes \<Rightarrow> bytes \<Rightarrow> bytes" where
  "b32_encode_last alpha data =
     (let nb = length data;
          v = b32_pack (data @ replicate (5 - nb) 0);
          nc = nchars_tab ! nb
      in map (b32_char alpha v) [0..<nc] @ replicate (8 - nc) (of_char CHR ''=''))"

fun b32_encode_tab :: "bytes \<Rightarrow> bytes \<Rightarrow> bytes" where
  "b32_encode_tab alpha data =
     (if 5 \<le> length data then
        (let v = b32_pack data in
         [b32_char alpha v 0, b32_char alpha v 1, b32_char alpha v 2, b32_char alpha v 3,
          b32_char alpha v 4, b32_char alpha v 5, b32_char alpha v 6, b32_char alpha v 7] @
         b32_encode_tab alpha (drop 5 data))
      else if data \<noteq> [] then b32_encode_last alpha data
      else [])"

definition dyn_b32_std_rev :: "int list" where
  "dyn_b32_std_rev = [
     -1, -1, -1, -1, -1, -1, -1, -1, -1, -1, -1, -1, -1, -1, -1, -1,
     -1, -1, -1, -1, -1, -1, -1, -1, -1, -1, -1, -1, -1, -1, -1, -1,
     -1, -1, -1, -1, -1, -1, -1, -1, -1, -1, -1, -1, -1, -1, -1, -1,
     -1, -1, 26, 27, 28, 29, 30, 31, -1, -1, -1, -1, -1, -1, -1, -1,
     -1, 0, 1, 2, 3, 4, 5, 6, 7, 8, 9, 10, 11, 12, 13, 14,
     15, 16, 17, 18, 19, 20, 21, 22, 23, 24, 25, -1, -1, -1, -1, -1,
     -1, -1, -1, -1, -1, -1, -1, -1, -1, -1, -1, -1, -1, -1, -1, -1,
     -1, -1, -1, -1, -1, -1, -1, -1, -1, -1, -1, -1, -1, -1, -1, -1,
     -1, -1, -1, -1, -1, -1, -1, -1, -1, -1, -1, -1, -1, -1, -1, -1,
     -1, -1, -1, -1, -1, -1, -1, -1, -1, -1, -1, -1, -1, -1, -1, -1,
     -1, -1, -1, -1, -1, -1, -1, -1, -1, -1, -1, -1, -1, -1, -1, -1,
     -1, -1, -1, -1, -1, -1, -1, -1, -1, -1, -1, -1, -1, -1, -1, -1,
     -1, -1, -1, -1, -1, -1, -1, -1, -1, -1, -1, -1, -1, -1, -1, -1,
     -1, -1, -1, -1, -1, -1, -1, -1, -1, -1, -1, -1, -1, -1, -1, -1,
     -1, -1, -1, -1, -1, -1, -1, -1, -1, -1, -1, -1, -1, -1, -1, -1,
     -1, -1, -1, -1, -1, -1, -1, -1, -1, -1, -1, -1, -1, -1, -1, -1]"

definition dyn_b32_hex_rev :: "int list" where
  "dyn_b32_hex_rev = [
     -1, -1, -1, -1, -1, -1, -1, -1, -1, -1, -1, -1, -1, -1, -1, -1,
     -1, -1, -1, -1, -1, -1, -1, -1, -1, -1, -1, -1, -1, -1, -1, -1,
     -1, -1, -1, -1, -1, -1, -1, -1, -1, -1, -1, -1, -1, -1, -1, -1,
     0, 1, 2, 3, 4, 5, 6, 7, 8, 9, -1, -1, -1, -1, -1, -1,
     -1, 10, 11, 12, 13, 14, 15, 16, 17, 18, 19, 20, 21, 22, 23, 24,
     25, 26, 27, 28, 29, 30, 31, -1, -1, -1, -1, -1, -1, -1, -1, -1,
     -1, -1, -1, -1, -1, -1, -1, -1, -1, -1, -1, -1, -1, -1, -1, -1,
     -1, -1, -1, -1, -1, -1, -1, -1, -1, -1, -1, -1, -1, -1, -1, -1,
     -1, -1, -1, -1, -1, -1, -1, -1, -1, -1, -1, -1, -1, -1, -1, -1,
     -1, -1, -1, -1, -1, -1, -1, -1, -1, -1, -1, -1, -1, -1, -1, -1,
     -1, -1, -1, -1, -1, -1, -1, -1, -1, -1, -1, -1, -1, -1, -1, -1,
     -1, -1, -1, -1, -1, -1, -1, -1, -1, -1, -1, -1, -1, -1, -1, -1,
     -1, -1, -1, -1, -1, -1, -1, -1, -1, -1, -1, -1, -1, -1, -1, -1,
     -1, -1, -1, -1, -1, -1, -1, -1, -1, -1, -1, -1, -1, -1, -1, -1,
     -1, -1, -1, -1, -1, -1, -1, -1, -1, -1, -1, -1, -1, -1, -1, -1,
     -1, -1, -1, -1, -1, -1, -1, -1, -1, -1, -1, -1, -1, -1, -1, -1]"

definition b32_rev :: "bytes \<Rightarrow> int list" where
  "b32_rev alpha = (if alpha = dyn_b32_hex_alpha then dyn_b32_hex_rev else dyn_b32_std_rev)"

definition b32_bytes :: "nat \<Rightarrow> bytes" where
  "b32_bytes v = [of_nat (drop_bit 32 v), of_nat (drop_bit 24 v), of_nat (drop_bit 16 v), of_nat (drop_bit 8 v), of_nat v]"

text \<open>A group that is not the last: eight characters of the alphabet.\<close>

definition b32_decode_full :: "int list \<Rightarrow> bytes \<Rightarrow> bytes option" where
  "b32_decode_full rv str =
     (let a = (\<lambda>j. rv ! unat (str ! j)) in
      if (a 0 OR a 1 OR a 2 OR a 3 OR a 4 OR a 5 OR a 6 OR a 7) < 0 then None
      else Some (b32_bytes
        (push_bit 35 (nat (a 0)) OR push_bit 30 (nat (a 1)) OR push_bit 25 (nat (a 2)) OR push_bit 20 (nat (a 3)) OR
         push_bit 15 (nat (a 4)) OR push_bit 10 (nat (a 5)) OR push_bit 5 (nat (a 6)) OR nat (a 7))))"

definition nbytes_tab :: "int list" where
  "nbytes_tab = [- 1, - 1, 1, - 1, 2, 3, - 1, 4, 5]"

text \<open>The last group: trailing padding, then the characters in front of it.\<close>

fun b32_vals :: "int list \<Rightarrow> bytes \<Rightarrow> nat list option" where
  "b32_vals rv [] = Some []"
| "b32_vals rv (c # cs) =
     (let val = rv ! unat c in if val < 0 then None else map_option (Cons (nat val)) (b32_vals rv cs))"

definition b32_decode_last :: "int list \<Rightarrow> bytes \<Rightarrow> bytes option" where
  "b32_decode_last rv str =
     (let last_group = (length str = 8);
          pad = length (takeWhile (\<lambda>c. c = of_char CHR ''='') (rev (take 8 str)))
      in if pad > 0 \<and> \<not> last_group then None
         else (let nreal = 8 - pad; nbytes = nbytes_tab ! nreal in
               if nbytes < 0 then None
               else (case b32_vals rv (take nreal str) of
                       None \<Rightarrow> None
                     | Some vals \<Rightarrow>
                         let c = vals @ replicate (8 - nreal) 0;
                             v = foldl (\<lambda>v c. push_bit 5 v OR c) 0 c
                         in Some (take (nat nbytes) (b32_bytes v)))))"

fun b32_decode_groups :: "int list \<Rightarrow> bytes \<Rightarrow> bytes option" where
  "b32_decode_groups rv str =
     (if 8 < length str then
        (case b32_decode_full rv str of
           None \<Rightarrow> None
         | Some bs \<Rightarrow> map_option (append bs) (b32_decode_groups rv (drop 8 str)))
      else if str \<noteq> [] then
        (case b32_decode_last rv str of
           None \<Rightarrow> None
         | Some bs \<Rightarrow> map_option (append bs) (b32_decode_groups rv (drop 8 str)))
      else Some [])"

definition b32_decode_tab :: "bytes \<Rightarrow> bytes \<Rightarrow> bytes option" where
  "b32_decode_tab alpha str =
     (if length str mod 8 \<noteq> 0 then None else b32_decode_groups (b32_rev alpha) str)"

definition dyn_codec_base32_encode :: "bytes \<Rightarrow> dyn_base32_alphabet \<Rightarrow> bytes" where
  "dyn_codec_base32_encode data alpha = b32_encode_tab (dyn_codec_b32_alpha alpha) data"

definition dyn_codec_base32_decode :: "bytes \<Rightarrow> dyn_base32_alphabet \<Rightarrow> bytes option" where
  "dyn_codec_base32_decode s alpha = b32_decode_tab (dyn_codec_b32_alpha alpha) s"

subsection \<open>Base85\<close>

definition dyn_codec_is_ascii85_space :: "byte \<Rightarrow> bool" where
  "dyn_codec_is_ascii85_space c \<longleftrightarrow> c = of_char CHR '' '' \<or> c = 9 \<or> c = 10 \<or> c = 11 \<or> c = 12 \<or> c = 13"

text \<open>The value of up to four bytes, most significant first, and its five base 85 digits.\<close>

fun b85_value :: "nat \<Rightarrow> bytes \<Rightarrow> nat" where
  "b85_value j [] = 0"
| "b85_value j (d # ds) = push_bit (24 - 8 * j) (unat d) OR b85_value (j + 1) ds"

definition b85_digits :: "nat \<Rightarrow> bytes" where
  "b85_digits v = map (\<lambda>j. of_char CHR ''!'' + of_nat (v div 85 ^ (4 - j) mod 85)) [0..<5]"

fun dyn_codec_base85_encode :: "bytes \<Rightarrow> bytes" where
  "dyn_codec_base85_encode data =
     (if data = [] then []
      else (let nb = (if length data < 4 then length data else 4);
                v = b85_value 0 (take nb data)
            in if nb = 4 \<and> v = 0 then of_char CHR ''z'' # dyn_codec_base85_encode (drop 4 data)
               else (let m = (if nb < 4 then nb + 1 else 5)
                     in take m (b85_digits v) @ dyn_codec_base85_encode (drop 4 data))))"

fun b85_pad :: "nat \<Rightarrow> nat \<Rightarrow> nat" where
  "b85_pad 0 v = v"
| "b85_pad (Suc k) v = b85_pad k (v * 85 + 84)"

fun b85_decode_loop :: "nat \<Rightarrow> nat \<Rightarrow> bytes \<Rightarrow> bytes option" where
  "b85_decode_loop v nb [] =
     (if nb = 1 then None
      else if nb > 1 then
        (let v = b85_pad (5 - nb) v in
         if v > 0xFFFFFFFF then None
         else Some (map (\<lambda>k. of_nat (drop_bit (24 - 8 * k) v)) [0..<nb - 1]))
      else Some [])"
| "b85_decode_loop v nb (b # bs) =
     (if dyn_codec_is_ascii85_space b then b85_decode_loop v nb bs
      else if b = of_char CHR ''z'' \<and> nb = 0 then
        map_option (append [0, 0, 0, 0]) (b85_decode_loop v nb bs)
      else if b < of_char CHR ''!'' \<or> b > of_char CHR ''u'' then None
      else
        (let v = v * 85 + (unat b - of_char CHR ''!''); nb = nb + 1 in
         if nb = 5 then
           (if v > 0xFFFFFFFF then None
            else map_option
              (append [of_nat (drop_bit 24 v), of_nat (drop_bit 16 v), of_nat (drop_bit 8 v), of_nat v])
              (b85_decode_loop 0 0 bs))
         else b85_decode_loop v nb bs))"

definition dyn_codec_base85_decode :: "bytes \<Rightarrow> bytes option" where
  "dyn_codec_base85_decode str = b85_decode_loop 0 0 str"

subsection \<open>Variable-length integers\<close>

function dyn_codec_put_uvarint :: "64 word \<Rightarrow> bytes" where
  "dyn_codec_put_uvarint x =
     (if x \<ge> 0x80 then ucast (x OR 0x80) # dyn_codec_put_uvarint (drop_bit 7 x) else [ucast x])"
  by pat_completeness auto

termination
proof (relation "measure unat")
  fix x :: "64 word"
  assume "0x80 \<le> x"
  then have "0 < unat x" by (simp add: word_le_nat_alt)
  then show "(drop_bit 7 x, x) \<in> measure unat"
    by (simp only: in_measure unat_drop_bit_eq) (simp add: drop_bit_eq_div)
qed simp

definition DYN_CODEC_VARINT_MAX :: nat where
  "DYN_CODEC_VARINT_MAX = 10"

text \<open>The result is the returned count and the value stored through \<open>out\<close>, absent where the
  code returns without storing one.\<close>

fun uvarint_loop :: "nat \<Rightarrow> 64 word \<Rightarrow> nat \<Rightarrow> bytes \<Rightarrow> int \<times> 64 word option" where
  "uvarint_loop i x s [] = (0, Some 0)"
| "uvarint_loop i x s (b # bs) =
     (if i = DYN_CODEC_VARINT_MAX then (- int (i + 1), None)
      else if b < 0x80 then
        (if i = DYN_CODEC_VARINT_MAX - 1 \<and> b > 1 then (- int (i + 1), None)
         else (int (i + 1), Some (x OR push_bit s (ucast b))))
      else uvarint_loop (i + 1) (x OR push_bit s (ucast (b AND 0x7f))) (s + 7) bs)"

definition dyn_codec_uvarint :: "bytes \<Rightarrow> int \<times> 64 word option" where
  "dyn_codec_uvarint buf = uvarint_loop 0 0 0 buf"

definition dyn_codec_put_varint :: "64 word \<Rightarrow> bytes" where
  "dyn_codec_put_varint x =
     (let ux = push_bit 1 x; ux = (if x <s 0 then NOT ux else ux) in dyn_codec_put_uvarint ux)"

definition dyn_codec_varint :: "bytes \<Rightarrow> int \<times> 64 word option" where
  "dyn_codec_varint buf =
     (let (nb, ux) = dyn_codec_uvarint buf in
      if nb \<le> 0 then (nb, Some 0)
      else (nb, map_option (\<lambda>ux. let x = drop_bit 1 ux in if ux AND 1 \<noteq> 0 then NOT x else x) ux))"

subsection \<open>Buffer sizes\<close>

text \<open>The capacities \<open>src/core/dyn-codec.h\<close> offers to the callers.\<close>

definition dyn_codec_hex_encode_len :: "nat \<Rightarrow> nat" where
  "dyn_codec_hex_encode_len n = n * 2"

definition dyn_codec_hex_decode_cap :: "nat \<Rightarrow> nat" where
  "dyn_codec_hex_decode_cap n = n div 2"

definition dyn_codec_base64_encode_cap :: "nat \<Rightarrow> nat" where
  "dyn_codec_base64_encode_cap n = 4 * ((n + 2) div 3)"

definition dyn_codec_base64_decode_cap :: "nat \<Rightarrow> nat" where
  "dyn_codec_base64_decode_cap n = 3 * (n div 4)"

definition dyn_codec_base32_encode_cap :: "nat \<Rightarrow> nat" where
  "dyn_codec_base32_encode_cap n = (n + 4) div 5 * 8"

definition dyn_codec_base32_decode_cap :: "nat \<Rightarrow> nat" where
  "dyn_codec_base32_decode_cap n = (n + 7) div 8 * 5"

definition dyn_codec_base85_encode_cap :: "nat \<Rightarrow> nat" where
  "dyn_codec_base85_encode_cap n = (n + 3) div 4 * 5"

definition dyn_codec_base85_decode_cap :: "nat \<Rightarrow> nat" where
  "dyn_codec_base85_decode_cap n = (n + 4) div 5 * 4"

declare b32_encode_tab.simps [simp del] b32_decode_groups.simps [simp del]
  dyn_codec_base85_encode.simps [simp del] dyn_codec_put_uvarint.simps [simp del]

lemma codec_nil [simp]: "b32_encode_tab alpha [] = []" "b32_decode_groups rv [] = Some []" "dyn_codec_base85_encode [] = []"
  by (simp_all add: b32_encode_tab.simps b32_decode_groups.simps dyn_codec_base85_encode.simps)

subsection \<open>Digits\<close>

text \<open>The leading digits of a number, most significant first, and their value.\<close>

lemma horner_digits:
  assumes "k \<le> n" "0 < b"
  shows "foldl (\<lambda>v c. v * b + c) 0 (map (\<lambda>j. x div b ^ (n - 1 - j) mod b) [0..<k]) = (x div b ^ (n - k)) mod (b ^ k :: nat)"
  using assms
proof (induction k)
  case (Suc k)
  define y where "y = x div b ^ (n - Suc k)"
  have "x div b ^ (n - k) = y div b"
  proof -
    have "n - k = Suc (n - Suc k)" using Suc.prems by simp
    then show ?thesis by (simp add: y_def mult.commute flip: div_mult2_eq)
  qed
  moreover have "n - 1 - k = n - Suc k" by simp
  moreover have "y div b mod b ^ k * b + y mod b = y mod b ^ Suc k"
    by (simp add: mod_mult2_eq mult.commute)
  ultimately show ?case using Suc by (simp add: y_def)
qed simp

lemma horner_append: "foldl (\<lambda>v c. v * b + c) 0 (xs @ [d]) = foldl (\<lambda>v c. v * b + c) 0 xs * b + (d :: nat)"
  by simp

lemma foldl_or_horner:
  "\<forall>c \<in> set cs. c < 2 ^ n \<Longrightarrow> foldl (\<lambda>v c. push_bit n v OR c) v cs = foldl (\<lambda>v c. v * 2 ^ n + c) (v :: nat) cs"
  by (induction cs arbitrary: v) (simp_all add: nat_or_push)

subsection \<open>base64url\<close>

text \<open>The encoding is characters of the alphabet followed by the padding the decoder computes again.\<close>

lemma base64_encode_split:
  "\<exists>body. simd_scalar_base64_encode d = body @ replicate ((4 - length body mod 4) mod 4) 61 \<and>
     set body \<subseteq> set simd_b64_alphabet \<and> length body mod 4 \<noteq> 1"
proof (induction d rule: simd_scalar_base64_encode.induct)
  case (1 s0 s1 s2 ss)
  then obtain body where *: "simd_scalar_base64_encode ss = body @ replicate ((4 - length body mod 4) mod 4) 61"
    "set body \<subseteq> set simd_b64_alphabet" "length body mod 4 \<noteq> 1" by blast
  define x where "x = push_bit 16 (unat s0) OR push_bit 8 (unat s1) OR unat s2"
  show ?case
    using * by (intro exI [of _ "b64_char (drop_bit 18 x) # b64_char (drop_bit 12 x) # b64_char (drop_bit 6 x) # b64_char x # body"])
      (simp add: x_def Let_def b64_char_mem)
next
  case (2 s0)
  define x where "x = push_bit 16 (unat s0)"
  show ?case
    by (intro exI [of _ "[b64_char (drop_bit 18 x), b64_char (drop_bit 12 x)]"])
      (simp add: x_def Let_def b64_char_mem numeral_2_eq_2)
next
  case (3 s0 s1)
  define x where "x = push_bit 16 (unat s0) OR push_bit 8 (unat s1)"
  show ?case
    by (intro exI [of _ "[b64_char (drop_bit 18 x), b64_char (drop_bit 12 x), b64_char (drop_bit 6 x)]"])
      (simp add: x_def Let_def b64_char_mem)
qed simp

lemma base64url_scratch_rewrite:
  "set body \<subseteq> set simd_b64_alphabet \<Longrightarrow>
    length (base64url_rewrite (body @ replicate k 61)) = length body \<and>
    base64url_scratch (base64url_rewrite (body @ replicate k 61)) = Some body"
proof (induction body)
  case Nil
  then show ?case by (cases k) simp_all
next
  case (Cons c body)
  have "c \<noteq> 61" "c \<noteq> of_char CHR ''-''" "c \<noteq> of_char CHR ''_''"
    using Cons.prems b64_alphabet_no_url b64_alphabet_no_pad by auto
  then show ?case using Cons by simp
qed


lemma dyn_codec_base64url_decode_encode: "dyn_codec_base64url_decode (dyn_codec_base64url_encode d) = Some d"
proof -
  obtain body where *: "simd_scalar_base64_encode d = body @ replicate ((4 - length body mod 4) mod 4) 61"
    "set body \<subseteq> set simd_b64_alphabet" "length body mod 4 \<noteq> 1" using base64_encode_split [of d] by blast
  have pad: "(if length body mod 4 \<noteq> 0 then 4 - length body mod 4 else 0) = (4 - length body mod 4) mod 4" by simp
  have dec: "simd_scalar_base64_decode (body @ replicate ((4 - length body mod 4) mod 4) 61) = Some d"
    using base64_decode_encode [of d] *(1) by simp
  have enc: "length (dyn_codec_base64url_encode d) = length body" "base64url_scratch (dyn_codec_base64url_encode d) = Some body"
    using base64url_scratch_rewrite [OF *(2)] *(1) by (simp_all add: dyn_codec_base64url_encode_def)
  show ?thesis
    unfolding dyn_codec_base64url_decode_def Let_def enc pad using dec *(3) by simp
qed

subsection \<open>base32\<close>

lemma b32_pack_eq:
  "b32_pack [d0, d1, d2, d3, d4] =
    unat d0 * 4294967296 + (unat d1 * 16777216 + (unat d2 * 65536 + (unat d3 * 256 + unat d4)))"
proof -
  note u = unat8_less [of d0] unat8_less [of d1] unat8_less [of d2] unat8_less [of d3] unat8_less [of d4]
  define e where "e = unat d4"
  define d where "d = unat d3 * 256 + e"
  define c where "c = unat d2 * 65536 + d"
  define b where "b = unat d1 * 16777216 + c"
  have l: "e < 2 ^ 8" "d < 2 ^ 16" "c < 2 ^ 24" "b < 2 ^ 32" using u by (simp_all add: b_def c_def d_def e_def)
  have "push_bit 8 (unat d3) OR e = d" using nat_or_push [OF l(1)] by (simp add: d_def)
  moreover have "push_bit 16 (unat d2) OR d = c" using nat_or_push [OF l(2)] by (simp add: c_def)
  moreover have "push_bit 24 (unat d1) OR c = b" using nat_or_push [OF l(3)] by (simp add: b_def)
  moreover have "push_bit 32 (unat d0) OR b = unat d0 * 4294967296 + b" using nat_or_push [OF l(4)] by simp
  ultimately show ?thesis by (simp add: b32_pack_def b_def c_def d_def e_def)
qed

lemma b32_pack_less: "b32_pack [d0, d1, d2, d3, d4] < 32 ^ 8"
  unfolding b32_pack_eq
  using unat8_less [of d0] unat8_less [of d1] unat8_less [of d2] unat8_less [of d3] unat8_less [of d4] by simp

lemma b32_bytes_pack: "b32_bytes (b32_pack [d0, d1, d2, d3, d4]) = [d0, d1, d2, d3, d4]"
proof -
  note u = unat8_less [of d0] unat8_less [of d1] unat8_less [of d2] unat8_less [of d3] unat8_less [of d4]
  define v where "v = b32_pack [d0, d1, d2, d3, d4]"
  have v: "v = (((unat d0 * 256 + unat d1) * 256 + unat d2) * 256 + unat d3) * 256 + unat d4"
    unfolding v_def b32_pack_eq by (simp add: algebra_simps)
  have d1: "v div 256 = ((unat d0 * 256 + unat d1) * 256 + unat d2) * 256 + unat d3"
    unfolding v using u by (intro conjunct1 [OF nat_div_mod_digit])
  have d2: "v div 256 div 256 = (unat d0 * 256 + unat d1) * 256 + unat d2"
    unfolding d1 using u by (intro conjunct1 [OF nat_div_mod_digit])
  have d3: "v div 256 div 256 div 256 = unat d0 * 256 + unat d1"
    unfolding d2 using u by (intro conjunct1 [OF nat_div_mod_digit])
  have d4: "v div 256 div 256 div 256 div 256 = unat d0"
    unfolding d3 using u by (intro conjunct1 [OF nat_div_mod_digit])
  have "v div 2 ^ 32 = unat d0" "v div 2 ^ 24 = unat d0 * 256 + unat d1"
    "v div 2 ^ 16 = (unat d0 * 256 + unat d1) * 256 + unat d2"
    "v div 2 ^ 8 = ((unat d0 * 256 + unat d1) * 256 + unat d2) * 256 + unat d3"
    using d1 d2 d3 d4 by (simp_all flip: div_mult2_eq)
  moreover have "of_nat (x * 256 + unat b) = b" for x and b :: byte
    using of_nat_mod256 [of "x * 256 + unat b"] unat8_less [of b] by (simp del: of_nat_add)
  ultimately show ?thesis
    using v by (simp only: b32_bytes_def v_def [symmetric] drop_bit_eq_div) (simp del: of_nat_add of_nat_mult)
qed

lemma b32_regroup:
  assumes "b < 32" "c < 32" "d < 32" "e < 32" "f < 32" "g < 32" "h < (32 :: nat)"
  shows "push_bit 35 a OR push_bit 30 b OR push_bit 25 c OR push_bit 20 d OR push_bit 15 e OR push_bit 10 f OR push_bit 5 g OR h
    = foldl (\<lambda>v c. v * 32 + c) 0 [a, b, c, d, e, f, g, h]"
proof -
  define g' where "g' = g * 2 ^ 5 + h"
  define f' where "f' = f * 2 ^ 10 + g'"
  define e' where "e' = e * 2 ^ 15 + f'"
  define d' where "d' = d * 2 ^ 20 + e'"
  define c' where "c' = c * 2 ^ 25 + d'"
  define b' where "b' = b * 2 ^ 30 + c'"
  have l: "h < 2 ^ 5" "g' < 2 ^ 10" "f' < 2 ^ 15" "e' < 2 ^ 20" "d' < 2 ^ 25" "c' < 2 ^ 30" "b' < 2 ^ 35"
    using assms by (simp_all add: b'_def c'_def d'_def e'_def f'_def g'_def)
  note s = nat_or_push [OF l(1), of g, folded g'_def] nat_or_push [OF l(2), of f, folded f'_def]
    nat_or_push [OF l(3), of e, folded e'_def] nat_or_push [OF l(4), of d, folded d'_def]
    nat_or_push [OF l(5), of c, folded c'_def] nat_or_push [OF l(6), of b, folded b'_def] nat_or_push [OF l(7), of a]
  show ?thesis unfolding s by (simp add: b'_def c'_def d'_def e'_def f'_def g'_def)
qed

text \<open>What decoding relies on: the reverse table inverts the alphabet, and the padding character is
  not in it.\<close>

locale b32_table =
  fixes alpha :: bytes and rv :: "int list"
  assumes rev_alpha: "i < 32 \<Longrightarrow> rv ! unat (alpha ! i) = int i"
    and no_pad: "i < 32 \<Longrightarrow> alpha ! i \<noteq> 61"
begin

lemma char_val: "j < 8 \<Longrightarrow> rv ! unat (b32_char alpha v j) = int (v div 32 ^ (7 - j) mod 32)"
proof -
  assume j: "j < 8"
  then have "35 - 5 * j = 5 * (7 - j)" by simp
  then have "drop_bit (35 - 5 * j) v = v div 32 ^ (7 - j)" by (simp add: drop_bit_eq_div power_mult)
  then show ?thesis using rev_alpha by (simp add: b32_char_def nat_and_low)
qed

lemma char_no_pad: "b32_char alpha v j \<noteq> 61"
  using no_pad by (simp add: b32_char_def nat_and_low)

lemma vals_chars: "nc \<le> 8 \<Longrightarrow> b32_vals rv (map (b32_char alpha v) [m..<nc]) = Some (map (\<lambda>j. v div 32 ^ (7 - j) mod 32) [m..<nc])"
  by (induction "nc - m" arbitrary: m) (simp_all add: upt_rec char_val Let_def)

lemma decode_full:
  assumes "v < 32 ^ 8"
  shows "b32_decode_full rv (map (b32_char alpha v) [0..<8] @ rest) = Some (b32_bytes v)"
proof -
  have "[0..<8] = [0, 1, 2, 3, 4, 5, 6, 7 :: nat]" by (simp add: upt_rec)
  then have "foldl (\<lambda>v c. v * 32 + c) 0 [v div 32 ^ 7 mod 32, v div 32 ^ 6 mod 32, v div 32 ^ 5 mod 32,
      v div 32 ^ 4 mod 32, v div 32 ^ 3 mod 32, v div 32 ^ 2 mod 32, v div 32 mod 32, v mod 32] = v"
    using horner_digits [of 8 8 32 v] assms by simp
  moreover have "rv ! unat ((map (b32_char alpha v) [0..<8] @ rest) ! j) = int (v div 32 ^ (7 - j) mod 32)" if "j < 8" for j
    using that char_val [OF that, of v] by (simp add: nth_append)
  ultimately show ?thesis
    unfolding b32_decode_full_def Let_def by (simp add: b32_regroup)
qed

lemma decode_last:
  assumes v: "v < 32 ^ 8" "256 ^ (5 - nb) dvd v" and nb: "0 < nb" "nb \<le> 5"
  shows "b32_decode_last rv (map (b32_char alpha v) [0..<nchars_tab ! nb] @ replicate (8 - nchars_tab ! nb) 61) =
    Some (take nb (b32_bytes v))"
proof -
  define nc where "nc = nchars_tab ! nb"
  have nb_cases: "nb = 1 \<or> nb = 2 \<or> nb = 3 \<or> nb = 4 \<or> nb = 5" using nb by arith
  then have nc: "0 < nc" "nc \<le> 8" "nbytes_tab ! nc = int nb" "32 ^ (8 - nc) dvd (256 :: nat) ^ (5 - nb)"
    by (auto simp: nc_def nchars_tab_def nbytes_tab_def nth_Cons_numeral)
  have "rev (map (b32_char alpha v) [0..<nc]) = b32_char alpha v (nc - 1) # rev (map (b32_char alpha v) [0..<nc - 1])"
    using nc by (cases nc) simp_all
  then have pad: "takeWhile (\<lambda>c. c = 61) (rev (map (b32_char alpha v) [0..<nc] @ replicate (8 - nc) 61)) = replicate (8 - nc) 61"
    by (simp add: takeWhile_append char_no_pad)
  have zero: "v div 32 ^ (7 - j) mod 32 = 0" if "nc \<le> j" "j < 8" for j
  proof -
    have "32 ^ Suc (7 - j) dvd (32 :: nat) ^ (8 - nc)" using that by (intro le_imp_power_dvd) simp
    then have "32 ^ Suc (7 - j) dvd v" using nc(4) v(2) dvd_trans by blast
    then show ?thesis by (auto simp: dvd_def)
  qed
  define digit where "digit = (\<lambda>j. v div 32 ^ (7 - j) mod 32)"
  have "map digit [0..<nc] @ replicate (8 - nc) 0 = map digit [0..<8]"
    using zero nc(2) by (intro nth_equalityI) (auto simp: nth_append digit_def)
  moreover have "foldl (\<lambda>v c. push_bit 5 v OR c) 0 (map digit [0..<8]) = v"
    using foldl_or_horner [of "map digit [0..<8]" 5 0] horner_digits [of 8 8 32 v] v(1) by (simp add: digit_def)
  ultimately show ?thesis
    using nc pad vals_chars [OF nc(2), of v 0]
    by (simp add: b32_decode_last_def Let_def nc_def [symmetric] digit_def)
qed

end

context b32_table
begin

lemma decode_encode_last:
  assumes "data \<noteq> []" "length data \<le> 5"
  shows "b32_decode_last rv (b32_encode_last alpha data) = Some data \<and> length (b32_encode_last alpha data) = 8"
proof -
  define nb where "nb = length data"
  have nb: "0 < nb" "nb \<le> 5" using assms by (auto simp: nb_def)
  define ds where "ds = data @ replicate (5 - nb) 0"
  have "length ds = 5" using assms by (simp add: nb_def ds_def)
  then obtain d0 d1 d2 d3 d4 where "ds = [d0, d1, d2, d3, d4]"
    by (auto simp: numeral_eq_Suc length_Suc_conv)
  then have d: "data @ replicate (5 - nb) 0 = [d0, d1, d2, d3, d4]" by (simp add: ds_def)
  define v where "v = b32_pack [d0, d1, d2, d3, d4]"
  have take: "take nb [d0, d1, d2, d3, d4] = data" using d by (metis append_eq_conv_conj nb_def)
  have "256 ^ (5 - nb) dvd v"
  proof -
    have z: "j < 5 \<Longrightarrow> nb \<le> j \<Longrightarrow> [d0, d1, d2, d3, d4] ! j = 0" for j
      using d by (metis assms(2) diff_less_mono le_add_diff_inverse length_append length_replicate nb_def nth_append nth_replicate not_less)
    have "nb = 1 \<or> nb = 2 \<or> nb = 3 \<or> nb = 4 \<or> nb = 5" using nb by arith
    then show ?thesis
      using z [of 1] z [of 2] z [of 3] z [of 4] unfolding v_def b32_pack_eq by (elim disjE) (simp_all add: dvd_add)
  qed
  moreover have "v < 32 ^ 8" using b32_pack_less by (simp only: v_def)
  ultimately have "b32_decode_last rv (b32_encode_last alpha data) = Some (take nb (b32_bytes v))"
    using decode_last [of v nb] nb d by (simp add: b32_encode_last_def Let_def nb_def v_def)
  moreover have "nchars_tab ! nb \<le> 8"
    using nb by (auto simp: nchars_tab_def numeral_eq_Suc le_Suc_eq)
  ultimately show ?thesis using take b32_bytes_pack [of d0 d1 d2 d3 d4]
    by (simp add: v_def b32_encode_last_def Let_def nb_def)
qed

lemma encode_full:
  assumes "data = d0 # d1 # d2 # d3 # d4 # ds"
  shows "b32_encode_tab alpha data = map (b32_char alpha (b32_pack [d0, d1, d2, d3, d4])) [0..<8] @ b32_encode_tab alpha ds"
    (is "_ = map (b32_char alpha ?v) _ @ _")
proof -
  have "b32_pack data = ?v" by (simp add: assms b32_pack_def)
  moreover have "[0..<8] = [0, 1, 2, 3, 4, 5, 6, 7 :: nat]" by (simp add: upt_rec)
  ultimately show ?thesis by (subst b32_encode_tab.simps) (simp add: assms Let_def)
qed

lemma encode_full_last: "b32_encode_last alpha [d0, d1, d2, d3, d4] = map (b32_char alpha (b32_pack [d0, d1, d2, d3, d4])) [0..<8]"
  by (simp add: b32_encode_last_def Let_def nchars_tab_def)

lemma decode_encode: "b32_decode_groups rv (b32_encode_tab alpha data) = Some data \<and> length (b32_encode_tab alpha data) = (length data + 4) div 5 * 8"
proof (induction data rule: length_induct)
  case (1 data)
  consider (nil) "data = []" | (last) "data \<noteq> []" "length data < 5" | (group) "5 \<le> length data" by fastforce
  then show ?case
  proof cases
    case nil
    then show ?thesis by simp
  next
    case last
    then have "b32_encode_tab alpha data = b32_encode_last alpha data" "(length data + 4) div 5 = 1"
      by (auto simp: b32_encode_tab.simps Suc_le_eq intro: div_nat_eqI)
    then show ?thesis using decode_encode_last [of data] last
      by (subst b32_decode_groups.simps) auto
  next
    case group
    then obtain d0 d1 d2 d3 d4 ds where d: "data = d0 # d1 # d2 # d3 # d4 # ds"
      by (auto simp: numeral_eq_Suc Suc_le_length_iff)
    define v where "v = b32_pack [d0, d1, d2, d3, d4]"
    have e: "b32_encode_tab alpha data = map (b32_char alpha v) [0..<8] @ b32_encode_tab alpha ds"
      using encode_full [OF d] by (simp only: v_def)
    have IH: "b32_decode_groups rv (b32_encode_tab alpha ds) = Some ds" "length (b32_encode_tab alpha ds) = (length ds + 4) div 5 * 8"
      using 1 d by simp_all
    have bytes: "b32_bytes v = [d0, d1, d2, d3, d4]" "v < 32 ^ 8"
      using b32_bytes_pack b32_pack_less by (simp_all only: v_def)
    have len: "length (b32_encode_tab alpha data) = (length data + 4) div 5 * 8"
    proof -
      have "length data + 4 = length ds + 4 + 5" by (simp add: d)
      then have "(length data + 4) div 5 = Suc ((length ds + 4) div 5)" by simp
      then show ?thesis using e IH(2) by simp
    qed
    show ?thesis
    proof (cases "ds = []")
      case True
      then have "b32_encode_tab alpha data = b32_encode_last alpha [d0, d1, d2, d3, d4]"
        using e by (simp add: encode_full_last v_def)
      then show ?thesis using decode_encode_last [of "[d0, d1, d2, d3, d4]"] True d len
        by (subst b32_decode_groups.simps) auto
    next
      case False
      then have "0 < length (b32_encode_tab alpha ds)" using IH(2) by (cases ds) auto
      then have "b32_decode_groups rv (map (b32_char alpha v) [0..<8] @ b32_encode_tab alpha ds) = Some data"
        using decode_full [OF bytes(2)] IH(1) bytes(1) d by (subst b32_decode_groups.simps) simp
      then show ?thesis using len e by simp
    qed
  qed
qed

end

lemma b32_std_table: "map (\<lambda>c. dyn_b32_std_rev ! unat c) dyn_b32_std_alpha = map int [0..<32]"
  by code_simp

lemma b32_hex_table: "map (\<lambda>c. dyn_b32_hex_rev ! unat c) dyn_b32_hex_alpha = map int [0..<32]"
  by code_simp

lemma b32_no_pad: "list_all (\<lambda>c. c \<noteq> 61) dyn_b32_std_alpha \<and> list_all (\<lambda>c. c \<noteq> 61) dyn_b32_hex_alpha"
  by code_simp

lemma b32_alpha_length: "length dyn_b32_std_alpha = 32" "length dyn_b32_hex_alpha = 32" "dyn_b32_std_alpha \<noteq> dyn_b32_hex_alpha"
  by (simp_all add: dyn_b32_std_alpha_def dyn_b32_hex_alpha_def)

interpretation b32_std: b32_table dyn_b32_std_alpha dyn_b32_std_rev
  using table_inverse [OF b32_std_table] b32_no_pad b32_alpha_length
  by unfold_locales (simp_all add: list_all_length)

interpretation b32_hex: b32_table dyn_b32_hex_alpha dyn_b32_hex_rev
  using table_inverse [OF b32_hex_table] b32_no_pad b32_alpha_length
  by unfold_locales (simp_all add: list_all_length)

subsection \<open>base85\<close>

lemma b85_value_step:
  assumes "Suc (j + length ds) \<le> 4" "b85_value (j + 1) ds < 256 ^ (3 - j)"
  shows "b85_value j (d # ds) = unat d * 256 ^ (3 - j) + b85_value (j + 1) ds"
proof -
  have "24 - 8 * j = 8 * (3 - j)" using assms(1) by simp
  moreover have "(2 :: nat) ^ (8 * (3 - j)) = 256 ^ (3 - j)" by (simp add: power_mult)
  ultimately show ?thesis using nat_or_push [of "b85_value (j + 1) ds" "24 - 8 * j" "unat d"] assms(2) by simp
qed

lemma b85_value_bound: "j + length ds \<le> 4 \<Longrightarrow> b85_value j ds < 256 ^ (4 - j)"
proof (induction ds arbitrary: j)
  case (Cons d ds)
  have r: "b85_value (j + 1) ds < 256 ^ (3 - j)" using Cons.IH [of "j + 1"] Cons.prems by simp
  have "unat d * 256 ^ (3 - j) \<le> 255 * 256 ^ (3 - j)" using unat8_less [of d] by (intro mult_right_mono) simp_all
  moreover have "4 - j = Suc (3 - j)" using Cons.prems by simp
  moreover have "b85_value j (d # ds) = unat d * 256 ^ (3 - j) + b85_value (j + 1) ds"
    using b85_value_step [OF _ r, of d] Cons.prems by simp
  ultimately show ?case using r by (simp only: power_Suc)
qed simp

lemma b85_value_dvd: "j + length ds \<le> 4 \<Longrightarrow> 256 ^ (4 - j - length ds) dvd b85_value j ds"
proof (induction ds arbitrary: j)
  case (Cons d ds)
  have "256 ^ (4 - j - length (d # ds)) dvd b85_value (j + 1) ds" using Cons.IH [of "j + 1"] Cons.prems by simp
  moreover have "(256 :: nat) ^ (4 - j - length (d # ds)) dvd 256 ^ (3 - j)" by (intro le_imp_power_dvd) simp
  ultimately show ?case
    using b85_value_step [of j ds d] b85_value_bound [of "j + 1" ds] Cons.prems by (simp add: dvd_add)
qed simp

lemma b85_value_byte:
  "j + length ds \<le> 4 \<Longrightarrow> k < length ds \<Longrightarrow> of_nat (b85_value j ds div 256 ^ (3 - j - k)) = ds ! k"
proof (induction ds arbitrary: j k)
  case (Cons d ds)
  define r where "r = b85_value (j + 1) ds"
  have r: "r < 256 ^ (3 - j)" using b85_value_bound [of "j + 1" ds] Cons.prems by (simp add: r_def)
  have v: "b85_value j (d # ds) = unat d * 256 ^ (3 - j) + r"
    using b85_value_step [of j ds d] r Cons.prems by (simp add: r_def)
  show ?case
  proof (cases k)
    case 0
    then show ?thesis using v r by simp
  next
    case (Suc i)
    have e: "3 - j = (3 - j - k) + k" using Cons.prems Suc by simp
    have "unat d * 256 ^ (3 - j) = unat d * 256 ^ k * 256 ^ (3 - j - k)" by (subst e) (simp add: power_add)
    then have "b85_value j (d # ds) div 256 ^ (3 - j - k) = unat d * 256 ^ k + r div 256 ^ (3 - j - k)"
      by (simp only: v) simp
    moreover have "of_nat (unat d * 256 ^ k) = (0 :: byte)"
      using of_nat_mod256 [of "unat d * 256 ^ k"] Suc by (simp del: of_nat_mult of_nat_power)
    moreover have "of_nat (r div 256 ^ (3 - j - k)) = ds ! i"
      using Cons.IH [of "j + 1" i] Cons.prems Suc by (simp add: r_def)
    ultimately show ?thesis using Suc by simp
  qed
qed simp

text \<open>The digits of a value below \<open>2 ^ 32\<close>: five characters between \<open>!\<close> and \<open>u\<close>.\<close>

lemma b85_digits_nth:
  assumes "j < 5"
  shows "unat (b85_digits v ! j) = 33 + v div 85 ^ (4 - j) mod 85"
proof -
  define d where "d = v div 85 ^ (4 - j) mod 85"
  have "d < 85" by (simp add: d_def)
  then have "unat (33 + of_nat d :: byte) = 33 + d"
    using unat_of_nat8 [of "33 + d"] by simp
  then show ?thesis using assms by (simp add: b85_digits_def d_def)
qed

lemma b85_digits_length [simp]: "length (b85_digits v) = 5"
  by (simp add: b85_digits_def)

lemma b85_digit_step:
  assumes "unat b = 33 + d" "d < 85"
  shows "b85_decode_loop v nb (b # bs) =
    (let v = v * 85 + d in
     if nb + 1 = 5 then
       (if v > 0xFFFFFFFF then None
        else map_option (append [of_nat (drop_bit 24 v), of_nat (drop_bit 16 v), of_nat (drop_bit 8 v), of_nat v])
          (b85_decode_loop 0 0 bs))
     else b85_decode_loop v (nb + 1) bs)"
proof -
  have "\<not> dyn_codec_is_ascii85_space b" "b \<noteq> 122" "\<not> (b < 33 \<or> b > 117)"
    using assms by (auto simp: dyn_codec_is_ascii85_space_def word_less_nat_alt)
  then show ?thesis using assms by (simp add: Let_def)
qed

lemma b85_digits_loop:
  assumes "m \<le> 4"
  shows "b85_decode_loop 0 0 (take m (b85_digits v) @ bs) = b85_decode_loop (v div 85 ^ (5 - m) mod 85 ^ m) m bs"
  using assms
proof (induction m arbitrary: bs)
  case (Suc m)
  have "take (Suc m) (b85_digits v) = take m (b85_digits v) @ [b85_digits v ! m]"
    using Suc.prems by (intro take_Suc_conv_app_nth) simp
  moreover have "v div 85 ^ (5 - m) mod 85 ^ m * 85 + v div 85 ^ (4 - m) mod 85 = v div 85 ^ (4 - m) mod 85 ^ Suc m"
  proof -
    define y where "y = v div 85 ^ (4 - m)"
    have "5 - m = Suc (4 - m)" using Suc.prems by simp
    then have "v div 85 ^ (5 - m) = y div 85" by (simp add: y_def mult.commute flip: div_mult2_eq)
    then show ?thesis by (simp add: mod_mult2_eq y_def)
  qed
  ultimately show ?case
    using Suc b85_digit_step [OF b85_digits_nth [of m v], of "v div 85 ^ (5 - m) mod 85 ^ m" m bs]
    by (simp add: Let_def)
qed simp

lemma b85_group_loop:
  assumes "v < 2 ^ 32"
  shows "b85_decode_loop 0 0 (b85_digits v @ bs) =
    map_option (append [of_nat (drop_bit 24 v), of_nat (drop_bit 16 v), of_nat (drop_bit 8 v), of_nat v]) (b85_decode_loop 0 0 bs)"
proof -
  have "take 5 (b85_digits v) = take 4 (b85_digits v) @ [b85_digits v ! 4]"
    using take_Suc_conv_app_nth [of 4 "b85_digits v"] by simp
  then have "b85_digits v = take 4 (b85_digits v) @ [b85_digits v ! 4]" by simp
  then have "b85_decode_loop 0 0 (b85_digits v @ bs) = b85_decode_loop 0 0 (take 4 (b85_digits v) @ b85_digits v ! 4 # bs)"
    by (metis append.assoc append_Cons append_Nil)
  also have "\<dots> = b85_decode_loop (v div 85 mod 85 ^ 4) 4 (b85_digits v ! 4 # bs)"
    using b85_digits_loop [of 4 v] by simp
  also have "v div 85 mod 85 ^ 4 = v div 85" using assms by (simp add: div_less_iff_less_mult)
  finally show ?thesis
    using b85_digit_step [OF b85_digits_nth [of 4 v], of "v div 85" 4 bs] assms
    by (simp add: Let_def)
qed

lemma b85_pad_eq: "b85_pad k v = (v + 1) * 85 ^ k - 1"
  by (induction k arbitrary: v) (simp_all add: algebra_simps)

lemma b85_tail_value:
  assumes "v < 2 ^ 32" "256 ^ k dvd v" "0 < k" "k \<le> 3"
  defines "w \<equiv> b85_pad k (v div 85 ^ k)"
  shows "w \<le> 0xFFFFFFFF" "\<And>i. k \<le> i \<Longrightarrow> w div 256 ^ i = v div 256 ^ i"
proof -
  have w: "w = v div 85 ^ k * 85 ^ k + (85 ^ k - 1)"
    by (simp add: w_def b85_pad_eq)
  have "v mod 85 ^ k \<le> 85 ^ k - 1" using mod_less_divisor [of "85 ^ k" v] by (simp add: Suc_leI less_Suc_eq_le [symmetric])
  moreover have "0 < (85 :: nat) ^ k" by simp
  ultimately have "v \<le> w" "w < v + 85 ^ k"
    using div_mult_mod_eq [of v "85 ^ k"] unfolding w by linarith+
  moreover have "(85 :: nat) ^ k \<le> 256 ^ k" by (intro power_mono) simp_all
  ultimately obtain r where r: "w = v + r" "r < 256 ^ k" by (metis add_less_cancel_left le_iff_add less_le_trans)
  obtain q where q: "v = q * 256 ^ k" using assms(2) by (metis dvd_def mult.commute)
  show "w div 256 ^ i = v div 256 ^ i" if "k \<le> i" for i
  proof -
    have "(256 :: nat) ^ i = 256 ^ k * 256 ^ (i - k)" using that by (simp flip: power_add)
    moreover have "w div 256 ^ k = q" "v div 256 ^ k = q" using r q by simp_all
    ultimately show ?thesis by (simp add: div_mult2_eq)
  qed
  have "(2 :: nat) ^ 32 = 256 ^ k * 256 ^ (4 - k)" using assms(4) by (simp flip: power_add)
  then have "q * 256 ^ k < 256 ^ (4 - k) * 256 ^ k" using assms(1) q by (simp only: mult.commute)
  then have "q < 256 ^ (4 - k)" by (simp only: mult_less_cancel2)
  then have "(q + 1) * 256 ^ k \<le> 256 ^ (4 - k) * 256 ^ k" by (intro mult_right_mono) simp_all
  then show "w \<le> 0xFFFFFFFF" using r q assms(4) by (simp flip: power_add)
qed

lemma b85_tail_loop:
  assumes "data \<noteq> []" "length data < 4"
  shows "b85_decode_loop 0 0 (take (length data + 1) (b85_digits (b85_value 0 data))) = Some data"
proof -
  define v where "v = b85_value 0 data"
  define n where "n = length data"
  have n: "0 < n" "n < 4" using assms by (auto simp: n_def)
  have v: "v < 2 ^ 32" "256 ^ (4 - n) dvd v"
    using b85_value_bound [of 0 data] b85_value_dvd [of 0 data] n by (simp_all add: v_def n_def)
  have d: "v div 85 ^ (4 - n) < 85 ^ (n + 1)"
  proof -
    have "(85 :: nat) ^ 5 = 85 ^ (n + 1) * 85 ^ (4 - n)" using n by (simp flip: power_add)
    then show ?thesis using v(1) by (simp add: div_less_iff_less_mult)
  qed
  define w where "w = b85_pad (4 - n) (v div 85 ^ (4 - n))"
  have w: "w \<le> 0xFFFFFFFF" "\<And>i. 4 - n \<le> i \<Longrightarrow> w div 256 ^ i = v div 256 ^ i"
    using b85_tail_value [OF v] n by (simp_all add: w_def)
  have "b85_decode_loop 0 0 (take (n + 1) (b85_digits v)) = b85_decode_loop (v div 85 ^ (4 - n)) (n + 1) []"
    using b85_digits_loop [of "n + 1" v "[]"] n d by simp
  also have "\<dots> = Some (map (\<lambda>k. of_nat (drop_bit (24 - 8 * k) w)) [0..<n])"
    using n w(1) by (simp add: w_def Let_def)
  also have "map (\<lambda>k. of_nat (drop_bit (24 - 8 * k) w)) [0..<n] = data"
  proof (rule nth_equalityI)
    fix k assume "k < length (map (\<lambda>k. of_nat (drop_bit (24 - 8 * k) w) :: byte) [0..<n])"
    then have k: "k < n" by simp
    have "24 - 8 * k = 8 * (3 - k)" by simp
    then have "drop_bit (24 - 8 * k) w = w div 256 ^ (3 - k)" by (simp add: drop_bit_eq_div power_mult)
    then show "map (\<lambda>k. of_nat (drop_bit (24 - 8 * k) w)) [0..<n] ! k = data ! k"
      using k n w(2) [of "3 - k"] b85_value_byte [of 0 data k] by (simp add: v_def n_def)
  qed (simp add: n_def)
  finally show ?thesis by (simp only: v_def n_def)
qed

lemma b85_group_bytes:
  assumes "length data = 4"
  defines "v \<equiv> b85_value 0 data"
  shows "v < 2 ^ 32" "[of_nat (drop_bit 24 v), of_nat (drop_bit 16 v), of_nat (drop_bit 8 v), of_nat v] = data"
proof -
  show "v < 2 ^ 32" using b85_value_bound [of 0 data] assms(1) by (simp add: v_def)
  obtain a b c d where data: "data = [a, b, c, d]"
    using assms(1) by (auto simp: numeral_eq_Suc length_Suc_conv)
  show "[of_nat (drop_bit 24 v), of_nat (drop_bit 16 v), of_nat (drop_bit 8 v), of_nat v] = data"
    using b85_value_byte [of 0 data 0] b85_value_byte [of 0 data 1] b85_value_byte [of 0 data 2] b85_value_byte [of 0 data 3]
    by (simp add: data v_def drop_bit_eq_div del: b85_value.simps)
qed

lemma dyn_codec_base85_decode_encode: "dyn_codec_base85_decode (dyn_codec_base85_encode data) = Some data"
  unfolding dyn_codec_base85_decode_def
proof (induction data rule: length_induct)
  case (1 data)
  consider (nil) "data = []" | (tail) "data \<noteq> []" "length data < 4" | (group) "4 \<le> length data" by fastforce
  then show ?case
  proof cases
    case nil
    then show ?thesis by simp
  next
    case tail
    then show ?thesis using b85_tail_loop [of data] by (subst dyn_codec_base85_encode.simps) (simp add: Let_def)
  next
    case group
    define v where "v = b85_value 0 (take 4 data)"
    note v = b85_group_bytes [of "take 4 data", folded v_def]
    have IH: "b85_decode_loop 0 0 (dyn_codec_base85_encode (drop 4 data)) = Some (drop 4 data)"
      using 1 group by simp
    show ?thesis
    proof (cases "v = 0")
      case True
      then have "take 4 data = [0, 0, 0, 0]" using v(2) group by simp
      then have "data = [0, 0, 0, 0] @ drop 4 data" by (metis append_take_drop_id)
      moreover have "dyn_codec_base85_encode data = 122 # dyn_codec_base85_encode (drop 4 data)"
        using group True by (subst dyn_codec_base85_encode.simps) (auto simp: Let_def v_def)
      ultimately show ?thesis using IH by (simp add: dyn_codec_is_ascii85_space_def)
    next
      case False
      then have "dyn_codec_base85_encode data = b85_digits v @ dyn_codec_base85_encode (drop 4 data)"
        using group by (subst dyn_codec_base85_encode.simps) (auto simp: Let_def v_def)
      then show ?thesis using b85_group_loop [OF v(1)] v(2) group IH by simp
    qed
  qed
qed

lemma b85_decode_loop_bound:
  "b85_decode_loop v nb s = Some d \<Longrightarrow> nb < 5 \<Longrightarrow> length d \<le> nb + 4 * length s"
proof (induction s arbitrary: v nb d)
  case Nil
  then show ?case by (auto simp: Let_def split: if_splits)
next
  case (Cons b s)
  then show ?case by (auto simp: Let_def split: if_splits dest: Cons.IH)
qed

lemma b85_encode_length: "length (dyn_codec_base85_encode data) \<le> (length data + 3) div 4 * 5"
proof (induction data rule: length_induct)
  case (1 data)
  show ?case
  proof (cases "data = []")
    case False
    have "length (drop 4 data) < length data" using False by simp
    with 1 have IH: "length (dyn_codec_base85_encode (drop 4 data)) \<le> (length (drop 4 data) + 3) div 4 * 5" by blast
    show ?thesis
    proof (cases "length data < 4")
      case True
      then show ?thesis
        using False by (subst dyn_codec_base85_encode.simps) (cases data; simp add: Let_def)
    next
      case big: False
      have "length data + 3 = length (drop 4 data) + 3 + 4" using big by simp
      then have "(length data + 3) div 4 = Suc ((length (drop 4 data) + 3) div 4)" by simp
      then show ?thesis
        using IH big False by (subst dyn_codec_base85_encode.simps) (simp add: Let_def)
    qed
  qed simp
qed

subsection \<open>Properties of the variable-length integers\<close>

lemma word_bit_le: "bit (w :: 'a :: len word) i \<Longrightarrow> 2 ^ i \<le> unat w"
proof (rule ccontr)
  assume "bit w i" "\<not> 2 ^ i \<le> unat w"
  then have "bit (unat w) i" "unat w div 2 ^ i = 0" by (simp_all add: bit_unsigned_iff)
  then show False by (simp add: bit_iff_odd)
qed

lemma u64_low7:
  fixes x :: "64 word"
  shows "ucast ((ucast (x OR 0x80) :: byte) AND 0x7F) = take_bit 7 x" "\<not> (ucast (x OR 0x80) :: byte) < 0x80"
proof -
  have m: "(0x7F :: byte) = mask 7" by (simp add: mask_eq_exp_minus_1)
  have b: "bit (0x80 :: 64 word) n \<longleftrightarrow> n = 7" "bit (0x80 :: byte) n \<longleftrightarrow> n = 7" for n
  proof -
    have "(0x80 :: 64 word) = 2 ^ 7" "(0x80 :: byte) = 2 ^ 7" by simp_all
    then show "bit (0x80 :: 64 word) n \<longleftrightarrow> n = 7" "bit (0x80 :: byte) n \<longleftrightarrow> n = 7"
      by (simp_all only: bit_exp_iff) auto
  qed
  show "ucast ((ucast (x OR 0x80) :: byte) AND 0x7F) = take_bit 7 x"
  proof -
    have "take_bit 7 (x OR 0x80) = take_bit 7 x" by (rule bit_word_eqI) (auto simp: bit_simps b)
    moreover have "ucast ((ucast y :: byte) AND mask 7) = take_bit 7 y" for y :: "64 word"
      by (rule bit_word_eqI) (auto simp: bit_simps)
    ultimately show ?thesis unfolding m by simp
  qed
  have "bit (ucast (x OR 0x80) :: byte) 7" by (simp add: bit_simps b)
  then show "\<not> (ucast (x OR 0x80) :: byte) < 0x80"
    using word_bit_le [of "ucast (x OR 0x80) :: byte" 7] by (simp add: word_less_nat_alt)
qed

lemma take_bit_step: "take_bit s X OR push_bit s (take_bit 7 (drop_bit s X)) = take_bit (s + 7) (X :: 64 word)"
  by (rule bit_word_eqI) (auto simp: bit_simps)

lemma u64_small:
  fixes y :: "64 word"
  assumes "y < 0x80"
  shows "ucast (ucast y :: byte) = y" "(ucast y :: byte) < 0x80"
proof -
  have y: "unat y < 128" using assms by (simp add: word_less_nat_alt)
  have u: "unat (ucast y :: byte) = unat y"
    using y by (simp add: unsigned_ucast_eq unsigned_take_bit_eq take_bit_nat_eq_self)
  show "(ucast y :: byte) < 0x80" using y u by (simp add: word_less_nat_alt)
  have "unat (ucast (ucast y :: byte) :: 64 word) = unat y"
    using y u by (simp add: unsigned_ucast_eq unsigned_take_bit_eq take_bit_nat_eq_self)
  then show "ucast (ucast y :: byte) = y" by (simp add: word_unat_eq_iff)
qed

lemma uvarint_loop_put:
  assumes "s = 7 * i" "i < 10" "y = drop_bit s X" "y \<noteq> 0 \<or> i = 0"
  shows "uvarint_loop i (take_bit s X) s (dyn_codec_put_uvarint y @ rest) =
    (int (i + length (dyn_codec_put_uvarint y)), Some X)"
  using assms
proof (induction y arbitrary: i s rule: dyn_codec_put_uvarint.induct)
  case (1 y)
  show ?case
  proof (cases "0x80 \<le> y")
    case False
    then have y: "y < 0x80" by simp
    have "take_bit s X OR push_bit s y = X"
      using 1(4) by (auto intro!: bit_word_eqI simp: bit_simps)
    moreover have "\<not> (i = 9 \<and> (ucast y :: byte) > 1)"
    proof
      assume i: "i = 9 \<and> (ucast y :: byte) > 1"
      have "unat y = unat X div 2 ^ 63" using 1(2,4) i by (simp only: unat_drop_bit_eq) (simp add: drop_bit_eq_div)
      also have "\<dots> < 2" using unsigned_less [of X] by (simp add: div_less_iff_less_mult)
      finally have "unat (ucast y :: byte) < 2" by (simp add: unsigned_ucast_eq unsigned_take_bit_eq take_bit_nat_eq_self)
      then show False using i by (simp add: word_less_nat_alt)
    qed
    ultimately show ?thesis
      using False u64_small [OF y] 1(3)
      by (simp add: dyn_codec_put_uvarint.simps [of y] DYN_CODEC_VARINT_MAX_def)
  next
    case True
    have i: "i + 1 < 10"
    proof (rule ccontr)
      assume "\<not> i + 1 < 10"
      then have "y = drop_bit 63 X" using 1(2,3,4) by (cases "i = 9") simp_all
      then have "unat y = unat X div 2 ^ 63" by (simp only: unat_drop_bit_eq) (simp add: drop_bit_eq_div)
      also have "\<dots> < 2" using unsigned_less [of X] by (simp add: div_less_iff_less_mult)
      finally show False using True by (simp add: word_le_nat_alt)
    qed
    have "drop_bit 7 y = drop_bit (s + 7) X" using 1(4) by (simp add: add.commute)
    moreover have "drop_bit 7 y \<noteq> 0"
    proof -
      have "unat (drop_bit 7 y) = unat y div 128" by (simp only: unat_drop_bit_eq) (simp add: drop_bit_eq_div)
      then show ?thesis using True by (auto simp: word_le_nat_alt)
    qed
    ultimately have "uvarint_loop (i + 1) (take_bit (s + 7) X) (s + 7) (dyn_codec_put_uvarint (drop_bit 7 y) @ rest) =
      (int (i + 1 + length (dyn_codec_put_uvarint (drop_bit 7 y))), Some X)"
      using 1(1) [OF True, of "s + 7" "i + 1"] 1(2) i by simp
    moreover have "dyn_codec_put_uvarint y = ucast (y OR 0x80) # dyn_codec_put_uvarint (drop_bit 7 y)"
      using True by (subst dyn_codec_put_uvarint.simps) (simp only: if_True)
    ultimately show ?thesis
      using u64_low7 [of y] 1(3) take_bit_step [of s X, folded 1(4)] by (simp add: DYN_CODEC_VARINT_MAX_def)
  qed
qed

lemma dyn_codec_uvarint_put: "dyn_codec_uvarint (dyn_codec_put_uvarint X @ rest) = (int (length (dyn_codec_put_uvarint X)), Some X)"
  using uvarint_loop_put [of 0 0 X X rest] by (simp add: dyn_codec_uvarint_def)

lemma put_uvarint_nonempty: "0 < length (dyn_codec_put_uvarint X)"
  by (subst dyn_codec_put_uvarint.simps) simp

lemma uvarint_loop_count:
  "uvarint_loop i x s buf = (n, out) \<Longrightarrow> i \<le> 10 \<Longrightarrow> n \<le> int (i + length buf) \<and> n \<le> 10 \<and> - 11 \<le> n"
proof (induction buf arbitrary: i x s)
  case (Cons b buf)
  then show ?case
    using Cons.IH [of "i + 1"] by (fastforce simp: DYN_CODEC_VARINT_MAX_def split: if_splits)
qed simp

lemma zigzag:
  fixes x :: "64 word"
  defines "ux \<equiv> (if x <s 0 then NOT (push_bit 1 x) else push_bit 1 x)"
  shows "(if ux AND 1 \<noteq> 0 then NOT (drop_bit 1 ux) else drop_bit 1 ux) = x"
proof -
  define p where "p = push_bit 1 x"
  have p: "bit p n \<longleftrightarrow> 0 < n \<and> n < 64 \<and> bit x (n - 1)" for n
    unfolding p_def bit_push_bit_iff by (auto simp: Suc_le_eq)
  have sign: "x <s 0 \<longleftrightarrow> bit x 63" using bit_last_iff [of x] by (simp add: word_sless_alt)
  have odd: "ux AND 1 \<noteq> 0 \<longleftrightarrow> bit ux 0" by (simp add: and_one_eq mod2_eq_if bit_0)
  have top: "bit x n \<Longrightarrow> n < 64" for n using bit_imp_le_length [of x n] by simp
  have ux: "ux = (if bit x 63 then NOT p else p)" by (simp only: ux_def sign p_def)
  show ?thesis
  proof (cases "bit x 63")
    case True
    have "NOT (drop_bit 1 (NOT p)) = x"
    proof (rule bit_word_eqI)
      fix n assume n: "n < LENGTH(64)"
      show "bit (NOT (drop_bit 1 (NOT p))) n = bit x n"
        using n True by (cases "n = 63") (simp_all add: bit_not_iff bit_drop_bit_eq p)
    qed
    moreover have "ux = NOT p" "bit (NOT p) 0" using ux True p [of 0] by (simp_all only: bit_not_iff) simp_all
    ultimately show ?thesis unfolding odd by (simp only: if_True)
  next
    case False
    have "drop_bit 1 p = x"
    proof (rule bit_word_eqI)
      fix n assume n: "n < LENGTH(64)"
      show "bit (drop_bit 1 p) n = bit x n"
        using n False by (cases "n = 63") (simp_all add: bit_drop_bit_eq p)
    qed
    moreover have "ux = p" "\<not> bit p 0" using ux False p [of 0] by simp_all
    ultimately show ?thesis unfolding odd by (simp only: if_False)
  qed
qed

lemma dyn_codec_varint_put: "dyn_codec_varint (dyn_codec_put_varint x @ rest) = (int (length (dyn_codec_put_varint x)), Some x)"
proof -
  define ux where "ux = (if x <s 0 then NOT (push_bit 1 x) else push_bit 1 x)"
  have "dyn_codec_put_varint x = dyn_codec_put_uvarint ux" by (simp only: dyn_codec_put_varint_def Let_def ux_def)
  then show ?thesis
    using put_uvarint_nonempty [of ux] zigzag [of x, folded ux_def]
    by (simp only: dyn_codec_varint_def dyn_codec_uvarint_put Let_def prod.case option.map) simp
qed

subsection \<open>Properties\<close>

text \<open>C26. Each of the codecs is lossless: decoding an encoded byte string returns the byte string, for
  base64url, base85, and base32 with either alphabet.\<close>

theorem dyn_codec_roundtrip:
  "dyn_codec_base64url_decode (dyn_codec_base64url_encode d) = Some d \<and>
   dyn_codec_base32_decode (dyn_codec_base32_encode d alpha) alpha = Some d \<and>
   dyn_codec_base85_decode (dyn_codec_base85_encode d) = Some d"
proof -
  have "dyn_codec_base32_decode (dyn_codec_base32_encode d alpha) alpha = Some d"
    using b32_std.decode_encode [of d] b32_hex.decode_encode [of d] b32_alpha_length(3)
    by (cases alpha) (simp_all add: dyn_codec_base32_decode_def dyn_codec_base32_encode_def b32_decode_tab_def dyn_codec_b32_alpha_def b32_rev_def)
  then show ?thesis by (simp add: dyn_codec_base64url_decode_encode dyn_codec_base85_decode_encode)
qed

text \<open>C27. Reading back a written variable-length integer returns the integer and the number of bytes
  written, whatever follows in the buffer, for unsigned and for signed (zigzag) integers.\<close>

theorem dyn_codec_varint_roundtrip:
  "dyn_codec_uvarint (dyn_codec_put_uvarint u @ rest) = (int (length (dyn_codec_put_uvarint u)), Some u) \<and>
   dyn_codec_varint (dyn_codec_put_varint x @ rest) = (int (length (dyn_codec_put_varint x)), Some x)"
  by (simp only: dyn_codec_uvarint_put dyn_codec_varint_put conj_absorb)

text \<open>The variable-length integer reader never claims more bytes than the buffer has nor more than
  ten, so the writer uses at most ten bytes.\<close>

theorem dyn_codec_varint_bounds:
  "fst (dyn_codec_uvarint buf) \<le> int (length buf) \<and> fst (dyn_codec_uvarint buf) \<le> int DYN_CODEC_VARINT_MAX \<and>
   length (dyn_codec_put_uvarint u) \<le> DYN_CODEC_VARINT_MAX"
proof -
  have *: "fst (dyn_codec_uvarint buf) \<le> int (length buf) \<and> fst (dyn_codec_uvarint buf) \<le> 10" for buf
    using uvarint_loop_count [of 0 0 0 buf] by (cases "dyn_codec_uvarint buf") (auto simp: dyn_codec_uvarint_def)
  from * [of buf] * [of "dyn_codec_put_uvarint u @ []"] show ?thesis
    unfolding dyn_codec_uvarint_put fst_conv DYN_CODEC_VARINT_MAX_def by simp
qed

text \<open>C36. The encoders write no more than the capacities the header offers: exactly the capacity for
  hexadecimal, base64 and base32, and at most the capacity for base85.\<close>

theorem dyn_codec_encode_capacity:
  "length (dyn_codec_hex_encode d) = dyn_codec_hex_encode_len (length d) \<and>
   length (dyn_codec_base64_encode d) = dyn_codec_base64_encode_cap (length d) \<and>
   length (dyn_codec_base32_encode d alpha) = dyn_codec_base32_encode_cap (length d) \<and>
   length (dyn_codec_base85_encode d) \<le> dyn_codec_base85_encode_cap (length d)"
proof (intro conjI)
  show "length (dyn_codec_hex_encode d) = dyn_codec_hex_encode_len (length d)"
    by (simp add: dyn_codec_hex_encode_def hex_encode_length dyn_codec_hex_encode_len_def)
  show "length (dyn_codec_base64_encode d) = dyn_codec_base64_encode_cap (length d)"
    by (simp add: dyn_codec_base64_encode_def base64_encode_length dyn_codec_base64_encode_cap_def)
  show "length (dyn_codec_base32_encode d alpha) = dyn_codec_base32_encode_cap (length d)"
    using b32_std.decode_encode [of d] b32_hex.decode_encode [of d]
    by (cases alpha) (simp_all add: dyn_codec_base32_encode_def dyn_codec_b32_alpha_def dyn_codec_base32_encode_cap_def)
  show "length (dyn_codec_base85_encode d) \<le> dyn_codec_base85_encode_cap (length d)"
    unfolding dyn_codec_base85_encode_cap_def by (rule b85_encode_length)
qed

text \<open>C37. A successful base85 decode writes at most four bytes per input character, which is what its callers
  allocate, but the capacity \<open>dyn_codec_base85_decode_cap\<close> promises less: five \<open>z\<close>
  characters decode to twenty bytes and the capacity for five characters is four.\<close>

theorem dyn_codec_base85_capacity:
  "(\<forall>s d. dyn_codec_base85_decode s = Some d \<longrightarrow> length d \<le> 4 * length s) \<and>
   (\<exists>s d. dyn_codec_base85_decode s = Some d \<and> dyn_codec_base85_decode_cap (length s) < length d)"
proof
  show "\<forall>s d. dyn_codec_base85_decode s = Some d \<longrightarrow> length d \<le> 4 * length s"
    using b85_decode_loop_bound [of 0 0] by (auto simp: dyn_codec_base85_decode_def)
  have "dyn_codec_base85_decode [122, 122, 122, 122, 122] = Some [0, 0, 0, 0, 0, 0, 0, 0, 0, 0, 0, 0, 0, 0, 0, 0, 0, 0, 0, 0]"
    by (simp add: dyn_codec_base85_decode_def dyn_codec_is_ascii85_space_def)
  moreover have cap: "dyn_codec_base85_decode_cap (length [122, 122, 122, 122, 122 :: byte]) <
      length [0, 0, 0, 0, 0, 0, 0, 0, 0, 0, 0, 0, 0, 0, 0, 0, 0, 0, 0, 0 :: byte]"
    by (simp add: dyn_codec_base85_decode_cap_def)
  ultimately show "\<exists>s d. dyn_codec_base85_decode s = Some d \<and> dyn_codec_base85_decode_cap (length s) < length d"
    using cap by blast
qed

theorem dyn_codec_base85_capacity_witness:
  "dyn_codec_base85_decode [of_char CHR ''z'', 10] = Some [0, 0, 0, 0] \<and>
   length [0, 0, 0, 0 :: byte] \<le> 4 * length [of_char CHR ''z'', 10 :: byte]"
proof -
  have "dyn_codec_base85_decode [of_char CHR ''z'', 10] = Some [0, 0, 0, 0]"
    by (simp add: dyn_codec_base85_decode_def dyn_codec_is_ascii85_space_def)
  with conjunct1 [OF dyn_codec_base85_capacity] show ?thesis by blast
qed

end
