(* ===== verification/Pct.thy ===== *)
theory Pct
  imports KernelText
begin

text \<open>
  Percent encoding, \<open>src/core/dyn-pct.h\<close>. The sink callback of the code appends the bytes it is
  given (\<open>dyn_pct_buf_sink\<close>); the model returns everything written to the sink. The parameter
  \<open>form\<close> selects the set of bytes written unchanged and whether a space becomes \<open>+\<close>.
\<close>

subsection \<open>Model\<close>

record dyn_pct_buf_t =
  pct_p :: bytes
  pct_n :: nat

definition dyn_pct_buf_sink :: "dyn_pct_buf_t \<Rightarrow> bytes \<Rightarrow> dyn_pct_buf_t" where
  "dyn_pct_buf_sink buf b =
     buf\<lparr>pct_p := take (pct_n buf) (pct_p buf) @ b @ drop (pct_n buf + length b) (pct_p buf), pct_n := pct_n buf + length b\<rparr>"

definition in_range :: "char \<Rightarrow> byte \<Rightarrow> char \<Rightarrow> bool" where
  "in_range lo c hi \<longleftrightarrow> of_char lo \<le> c \<and> c \<le> of_char hi"

definition dyn_pct_safe_0 :: "byte \<Rightarrow> bool" where
  "dyn_pct_safe_0 c \<longleftrightarrow> in_range CHR ''a'' c CHR ''z'' \<or> in_range CHR ''A'' c CHR ''Z'' \<or>
     in_range CHR ''0'' c CHR ''9'' \<or> c = of_char CHR ''*'' \<or> c = of_char CHR ''-'' \<or> c = of_char CHR ''.'' \<or>
     c = of_char CHR ''_'' \<or> c = of_char CHR ''~'' \<or> c = of_char CHR ''!'' \<or> c = of_char CHR 0x27 \<or>
     c = of_char CHR ''('' \<or> c = of_char CHR '')''"

definition dyn_pct_safe_1 :: "byte \<Rightarrow> bool" where
  "dyn_pct_safe_1 c \<longleftrightarrow> in_range CHR ''a'' c CHR ''z'' \<or> in_range CHR ''A'' c CHR ''Z'' \<or>
     in_range CHR ''0'' c CHR ''9'' \<or> c = of_char CHR ''*'' \<or> c = of_char CHR ''-'' \<or> c = of_char CHR ''.'' \<or>
     c = of_char CHR ''_''"

definition dyn_pct_safe_2 :: "byte \<Rightarrow> bool" where
  "dyn_pct_safe_2 c \<longleftrightarrow> dyn_pct_safe_1 c \<or> c = of_char CHR ''~''"

definition pct_HEX :: bytes where
  "pct_HEX = map of_char ''0123456789ABCDEF''"

definition pct_safe :: "int \<Rightarrow> byte \<Rightarrow> bool" where
  "pct_safe form c =
     (if form = 0 then dyn_pct_safe_0 c else if form = 4 then dyn_pct_safe_1 c else dyn_pct_safe_2 c)"

fun dyn_pct_encode_core :: "bytes \<Rightarrow> int \<Rightarrow> bytes" where
  "dyn_pct_encode_core [] form = []"
| "dyn_pct_encode_core (c # s) form =
     (if pct_safe form c then [c]
      else if form \<noteq> 0 \<and> form \<noteq> 4 \<and> c = of_char CHR '' '' then [of_char CHR ''+'']
      else [of_char CHR ''%'', pct_HEX ! unat (drop_bit 4 c), pct_HEX ! unat (c AND 0xF)]) @
     dyn_pct_encode_core s form"

definition dyn_pct_hexval :: "byte \<Rightarrow> int" where
  "dyn_pct_hexval c =
     (if in_range CHR ''0'' c CHR ''9'' then int (unat c) - of_char CHR ''0''
      else if in_range CHR ''a'' c CHR ''f'' then int (unat c) - of_char CHR ''a'' + 10
      else if in_range CHR ''A'' c CHR ''F'' then int (unat c) - of_char CHR ''A'' + 10
      else - 1)"

text \<open>The test \<open>i + 2 < n\<close> of the loop says that two more bytes follow.\<close>

fun dyn_pct_decode_core :: "bytes \<Rightarrow> bool \<Rightarrow> bytes" where
  "dyn_pct_decode_core [] plus_space = []"
| "dyn_pct_decode_core (c # s) plus_space =
     (if c = of_char CHR ''%'' \<and> 2 \<le> length s \<and> dyn_pct_hexval (s ! 0) \<ge> 0 \<and> dyn_pct_hexval (s ! 1) \<ge> 0 then
        of_nat (push_bit 4 (nat (dyn_pct_hexval (s ! 0))) OR nat (dyn_pct_hexval (s ! 1))) #
        dyn_pct_decode_core (drop 2 s) plus_space
      else (if plus_space \<and> c = of_char CHR ''+'' then of_char CHR '' '' else c) # dyn_pct_decode_core s plus_space)"

subsection \<open>Lemmas\<close>

lemma pct_HEX_val: "map dyn_pct_hexval pct_HEX = map int [0..<16]"
  by code_simp

lemma pct_safe_not_special: "pct_safe form c \<Longrightarrow> c \<noteq> of_char CHR ''%'' \<and> c \<noteq> of_char CHR ''+''"
  by (auto simp: pct_safe_def dyn_pct_safe_0_def dyn_pct_safe_1_def dyn_pct_safe_2_def in_range_def word_le_nat_alt split: if_splits)

lemma pct_decode_triplet:
  "dyn_pct_decode_core (of_char CHR ''%'' # pct_HEX ! unat (drop_bit 4 c) # pct_HEX ! unat (c AND 0xF) # s) plus_space =
   c # dyn_pct_decode_core s plus_space"
proof -
  note hex = hex_digits [of c]
  have "dyn_pct_hexval (pct_HEX ! unat (drop_bit 4 c)) = int (unat c div 16)"
    "dyn_pct_hexval (pct_HEX ! unat (c AND 0xF)) = int (unat c mod 16)"
    using table_inverse [OF pct_HEX_val] hex by simp_all
  then show ?thesis using hex hex_byte [of "unat c div 16" "unat c mod 16" c] by simp
qed

lemma pct_decode_safe:
  assumes "pct_safe form c"
  shows "dyn_pct_decode_core (c # s) plus_space = c # dyn_pct_decode_core s plus_space"
  using pct_safe_not_special [OF assms] by simp

lemma pct_decode_space: "dyn_pct_decode_core (of_char CHR ''+'' # s) True = of_char CHR '' '' # dyn_pct_decode_core s True"
  by simp

subsection \<open>Properties\<close>

text \<open>C30. Percent decoding inverts percent encoding for every form, when plus signs are read as spaces
  exactly for the forms that write them: \<open>form\<close> neither 0 nor 4.\<close>

theorem dyn_pct_roundtrip:
  "dyn_pct_decode_core (dyn_pct_encode_core s form) (form \<noteq> 0 \<and> form \<noteq> 4) = s"
proof (induction s)
  case (Cons c s)
  show ?case
  proof (cases "pct_safe form c")
    case True
    then show ?thesis using Cons pct_decode_safe [OF True] by simp
  next
    case unsafe: False
    show ?thesis
    proof (cases "form \<noteq> 0 \<and> form \<noteq> 4 \<and> c = of_char CHR '' ''")
      case True
      then show ?thesis using unsafe Cons pct_decode_space by simp
    next
      case False
      then have "dyn_pct_encode_core (c # s) form =
          of_char CHR ''%'' # pct_HEX ! unat (drop_bit 4 c) # pct_HEX ! unat (c AND 0xF) # dyn_pct_encode_core s form"
        using unsafe by (subst dyn_pct_encode_core.simps) (simp only: if_False append.simps)
      then show ?thesis by (simp only: pct_decode_triplet Cons)
    qed
  qed
qed simp

end
