(* ===== verification/HashWords.thy ===== *)
theory HashWords
  imports DynBytes
begin

text \<open>
  The byte-order helpers and rotations of \<open>src/core/dyn-hash.c\<close>, shared by the checksums and the
  digests. A pointer to bytes is the list of the bytes from there on; the portable variants of the
  loads and stores are modelled, which the variants by \<open>memcpy\<close> and byte swap compute as well.
\<close>

definition rotl32 :: "u32 \<Rightarrow> nat \<Rightarrow> u32" where
  "rotl32 x n = push_bit n x OR drop_bit (32 - n) x"

definition rotr32 :: "u32 \<Rightarrow> nat \<Rightarrow> u32" where
  "rotr32 x n = drop_bit n x OR push_bit (32 - n) x"

definition rotr64 :: "u64 \<Rightarrow> nat \<Rightarrow> u64" where
  "rotr64 x n = drop_bit n x OR push_bit (64 - n) x"

definition load_be32 :: "bytes \<Rightarrow> u32" where
  "load_be32 p = push_bit 24 (ucast (p ! 0)) OR push_bit 16 (ucast (p ! 1)) OR push_bit 8 (ucast (p ! 2)) OR ucast (p ! 3)"

definition load_le32 :: "bytes \<Rightarrow> u32" where
  "load_le32 p = ucast (p ! 0) OR push_bit 8 (ucast (p ! 1)) OR push_bit 16 (ucast (p ! 2)) OR push_bit 24 (ucast (p ! 3))"

definition load_be64 :: "bytes \<Rightarrow> u64" where
  "load_be64 p = foldl (\<lambda>v b. push_bit 8 v OR ucast b) 0 (take 8 p)"

definition store_be32 :: "u32 \<Rightarrow> bytes" where
  "store_be32 v = [ucast (drop_bit 24 v), ucast (drop_bit 16 v), ucast (drop_bit 8 v), ucast v]"

definition store_le32 :: "u32 \<Rightarrow> bytes" where
  "store_le32 v = [ucast v, ucast (drop_bit 8 v), ucast (drop_bit 16 v), ucast (drop_bit 24 v)]"

definition store_be64 :: "u64 \<Rightarrow> bytes" where
  "store_be64 v = map (\<lambda>i. ucast (drop_bit (56 - 8 * i) v)) [0..<8]"

text \<open>The bytes of a number, in either order: the reading of integers in memory that proofs use.\<close>

definition le_bytes :: "nat \<Rightarrow> nat \<Rightarrow> bytes" where
  "le_bytes n v = map (\<lambda>i. of_nat (v div 256 ^ i)) [0..<n]"

definition be_bytes :: "nat \<Rightarrow> nat \<Rightarrow> bytes" where
  "be_bytes n v = map (\<lambda>i. of_nat (v div 256 ^ (n - 1 - i))) [0..<n]"

lemma store_length [simp]: "length (store_be32 v) = 4" "length (store_le32 v) = 4" "length (store_be64 w) = 8"
  by (simp_all add: store_be32_def store_le32_def store_be64_def)

end
