(* ===== verification/Crc.thy ===== *)
theory Crc
  imports CrcTables
begin

text \<open>
  The CRC-32 routines of \<open>src/core/dyn-hash.c\<close>: the bit-by-bit reference, slicing by eight, and the
  three-lane hardware paths with the multiplication modulo the polynomial that combines the lanes.
  The instructions of the processor are a parameter (\<open>crc_ins\<close>). The lemmas give the algebra of the
  register: a step is linear over exclusive or, a multiplier stands for an operator that is a sum of
  iterated steps, and multiplying multipliers composes their operators.
\<close>

subsection \<open>Model\<close>

text \<open>One step of the register, the inner loop body of the reference.\<close>

definition crc_step :: "u32 \<Rightarrow> u32 \<Rightarrow> u32" where
  "crc_step poly crc = drop_bit 1 crc XOR (poly AND (0 - (crc AND 1)))"

definition crc_byte :: "u32 \<Rightarrow> u32 \<Rightarrow> byte \<Rightarrow> u32" where
  "crc_byte poly crc d = (crc_step poly ^^ 8) (crc XOR ucast d)"

definition dyn_crc32_bitwise :: "bytes \<Rightarrow> u32 \<Rightarrow> u32" where
  "dyn_crc32_bitwise data poly = foldl (crc_byte poly) 0xFFFFFFFF data XOR 0xFFFFFFFF"

definition crc32_entry :: "u32 list list \<Rightarrow> nat \<Rightarrow> u32 \<Rightarrow> u32" where
  "crc32_entry t k x = t ! k ! unat (x AND 0xFF)"

fun slice8_words :: "u32 list list \<Rightarrow> u32 \<Rightarrow> bytes \<Rightarrow> u32 \<times> bytes" where
  "slice8_words t crc data =
     (if 8 \<le> length data then
        (let lo = load_le32 data XOR crc; hi = load_le32 (drop 4 data) in
         slice8_words t
           (crc32_entry t 7 lo XOR crc32_entry t 6 (drop_bit 8 lo) XOR crc32_entry t 5 (drop_bit 16 lo) XOR
            crc32_entry t 4 (drop_bit 24 lo) XOR crc32_entry t 3 hi XOR crc32_entry t 2 (drop_bit 8 hi) XOR
            crc32_entry t 1 (drop_bit 16 hi) XOR crc32_entry t 0 (drop_bit 24 hi))
           (drop 8 data))
      else (crc, data))"

definition slice8_byte :: "u32 list list \<Rightarrow> u32 \<Rightarrow> byte \<Rightarrow> u32" where
  "slice8_byte t crc d = crc32_entry t 0 (crc XOR ucast d) XOR drop_bit 8 crc"

definition dyn_crc32_slice8 :: "bytes \<Rightarrow> u32 list list \<Rightarrow> u32" where
  "dyn_crc32_slice8 data t =
     (case slice8_words t 0xFFFFFFFF data of
        (crc, rest) \<Rightarrow> foldl (slice8_byte t) crc rest XOR 0xFFFFFFFF)"

fun gf_mul_loop :: "u32 \<Rightarrow> nat \<Rightarrow> u32 \<Rightarrow> u32 \<Rightarrow> u32 \<Rightarrow> u32" where
  "gf_mul_loop poly 0 a b r = r"
| "gf_mul_loop poly (Suc n) a b r =
     gf_mul_loop poly n (crc_step poly a) (push_bit 1 b) (if b AND 0x80000000 \<noteq> 0 then r XOR a else r)"

definition crc32_gf_mul :: "u32 \<Rightarrow> u32 \<Rightarrow> u32 \<Rightarrow> u32" where
  "crc32_gf_mul a b poly = gf_mul_loop poly 32 a b 0"

fun crc32_shift_loop :: "u32 list \<Rightarrow> u32 \<Rightarrow> nat \<Rightarrow> nat \<Rightarrow> u32 \<Rightarrow> u32" where
  "crc32_shift_loop pow poly i k r =
     (if k = 0 then r
      else crc32_shift_loop pow poly (i + 1) (k div 2) (if odd k then crc32_gf_mul r (pow ! i) poly else r))"

definition crc32_shift :: "u32 \<Rightarrow> nat \<Rightarrow> u32 list \<Rightarrow> u32 \<Rightarrow> u32" where
  "crc32_shift crc bytes pow poly =
     crc32_gf_mul crc (crc32_shift_loop pow poly 0 (bytes * 8 mod 2 ^ 64) 0x80000000) poly"

text \<open>The CRC instructions of the processor: an accumulator and 8, 16, 32 or 64 bits of data.\<close>

record crc_ins =
  crc_u8 :: "u32 \<Rightarrow> byte \<Rightarrow> u32"
  crc_u16 :: "u32 \<Rightarrow> 16 word \<Rightarrow> u32"
  crc_u32 :: "u32 \<Rightarrow> u32 \<Rightarrow> u32"
  crc_u64 :: "u32 \<Rightarrow> u64 \<Rightarrow> u32"

text \<open>\<open>memcpy\<close> into an integer on a little-endian processor.\<close>

fun mem_le :: "bytes \<Rightarrow> nat" where
  "mem_le [] = 0"
| "mem_le (b # bs) = unat b + 256 * mem_le bs"

fun hw_lanes :: "crc_ins \<Rightarrow> nat \<Rightarrow> bytes \<Rightarrow> bytes \<Rightarrow> bytes \<Rightarrow> u32 \<times> u32 \<times> u32 \<Rightarrow> u32 \<times> u32 \<times> u32" where
  "hw_lanes ins 0 p0 p1 p2 cs = cs"
| "hw_lanes ins (Suc k) p0 p1 p2 (c0, c1, c2) =
     hw_lanes ins k (drop 8 p0) (drop 8 p1) (drop 8 p2)
       (crc_u64 ins c0 (of_nat (mem_le (take 8 p0))), crc_u64 ins c1 (of_nat (mem_le (take 8 p1))),
        crc_u64 ins c2 (of_nat (mem_le (take 8 p2))))"

fun hw_words :: "crc_ins \<Rightarrow> u32 \<Rightarrow> bytes \<Rightarrow> u32 \<times> bytes" where
  "hw_words ins c d =
     (if 8 \<le> length d then hw_words ins (crc_u64 ins c (of_nat (mem_le (take 8 d)))) (drop 8 d) else (c, d))"

definition hw_head :: "crc_ins \<Rightarrow> u32 list \<Rightarrow> u32 \<Rightarrow> bytes \<Rightarrow> u32 \<times> bytes" where
  "hw_head ins pow poly d =
     (if 3 * 64 \<le> length d then
        (let third = length d div 3 div 8 * 8 in
         case hw_lanes ins (third div 8) d (drop third d) (drop (2 * third) d) (0xFFFFFFFF, 0, 0) of
           (c0, c1, c2) \<Rightarrow>
             let c0 = crc32_shift c0 third pow poly XOR c1;
                 c0 = crc32_shift c0 third pow poly XOR c2
             in (c0, drop (3 * third) d))
      else (0xFFFFFFFF, d))"

definition hw_tail :: "crc_ins \<Rightarrow> u32 \<Rightarrow> bytes \<Rightarrow> u32" where
  "hw_tail ins c d =
     (let (c, d) = (if 4 \<le> length d then (crc_u32 ins c (of_nat (mem_le (take 4 d))), drop 4 d) else (c, d));
          (c, d) = (if 2 \<le> length d then (crc_u16 ins c (of_nat (mem_le (take 2 d))), drop 2 d) else (c, d))
      in if d \<noteq> [] then crc_u8 ins c (d ! 0) else c)"

definition crc32_hw :: "crc_ins \<Rightarrow> u32 list \<Rightarrow> u32 \<Rightarrow> bytes \<Rightarrow> u32" where
  "crc32_hw ins pow poly d =
     (let (c, d) = hw_head ins pow poly d;
          (c, d) = hw_words ins c d
      in hw_tail ins c d XOR 0xFFFFFFFF)"

abbreviation DYN_CRC32_POLY :: u32 where "DYN_CRC32_POLY \<equiv> 0xEDB88320"
abbreviation DYN_CRC32C_POLY :: u32 where "DYN_CRC32C_POLY \<equiv> 0x82F63B78"

definition DYN_CRC32C_HW_MIN :: nat where
  "DYN_CRC32C_HW_MIN = 8"

definition crc32c_hw :: "crc_ins \<Rightarrow> bytes \<Rightarrow> u32" where
  "crc32c_hw ins d = crc32_hw ins crc32c_pow DYN_CRC32C_POLY d"

definition crc32_ieee_hw :: "crc_ins \<Rightarrow> bytes \<Rightarrow> u32" where
  "crc32_ieee_hw ins d = crc32_hw ins crc32_ieee_pow DYN_CRC32_POLY d"

text \<open>The processor may or may not have the instructions: \<open>None\<close> where \<open>crc32c_hw_ok\<close> is false or
  the hardware path is not compiled in.\<close>

definition dyn_crc32c :: "crc_ins option \<Rightarrow> bytes \<Rightarrow> u32" where
  "dyn_crc32c hw data =
     (case hw of
        Some ins \<Rightarrow> if DYN_CRC32C_HW_MIN \<le> length data then crc32c_hw ins data else dyn_crc32_slice8 data crc32c_s8
      | None \<Rightarrow> dyn_crc32_slice8 data crc32c_s8)"

definition dyn_crc32 :: "crc_ins option \<Rightarrow> bytes \<Rightarrow> u32" where
  "dyn_crc32 hw data =
     (case hw of
        Some ins \<Rightarrow> if DYN_CRC32C_HW_MIN \<le> length data then crc32_ieee_hw ins data else dyn_crc32_slice8 data crc32_ieee_s8
      | None \<Rightarrow> dyn_crc32_slice8 data crc32_ieee_s8)"

definition dyn_crc32_poly :: "crc_ins option \<Rightarrow> bytes \<Rightarrow> u32 \<Rightarrow> u32" where
  "dyn_crc32_poly hw data poly =
     (if poly = DYN_CRC32_POLY then dyn_crc32_slice8 data crc32_ieee_s8
      else if poly = DYN_CRC32C_POLY then dyn_crc32c hw data
      else dyn_crc32_bitwise data poly)"

subsection \<open>The register step is linear\<close>

lemma crc_step_eq: "crc_step poly x = drop_bit 1 x XOR (if bit x 0 then poly else 0)"
proof -
  have "x AND 1 = of_bool (bit x 0)" by (simp add: and_one_eq bit_0 mod2_eq_if)
  then show ?thesis by (simp add: crc_step_def)
qed

lemma crc_step_xor [simp]: "crc_step poly (a XOR b) = crc_step poly a XOR crc_step poly b"
  by (rule bit_word_eqI) (auto simp: crc_step_eq bit_simps)

lemma crc_step_0 [simp]: "crc_step poly 0 = 0"
  by (simp add: crc_step_eq)

lemma crc_steps_xor: "(crc_step poly ^^ n) (a XOR b) = (crc_step poly ^^ n) a XOR (crc_step poly ^^ n) b"
  by (induction n) simp_all

lemma crc_steps_0 [simp]: "(crc_step poly ^^ n) 0 = 0"
  by (induction n) simp_all

text \<open>Steps that meet no set bit only shift.\<close>

lemma crc_steps_shift: "(\<And>i. i < n \<Longrightarrow> \<not> bit x i) \<Longrightarrow> (crc_step poly ^^ n) x = drop_bit n x"
proof (induction n)
  case (Suc n)
  then have "(crc_step poly ^^ n) x = drop_bit n x" by simp
  moreover have "\<not> bit (drop_bit n x) 0" using Suc.prems [of n] by (simp add: bit_drop_bit_eq)
  ultimately show ?case using crc_step_eq [of poly "drop_bit n x"] by (simp add: drop_bit_drop_bit)
qed simp

text \<open>A linear function on words is determined by its values on the powers of two.\<close>

lemma xor_linear_ext:
  fixes f g :: "u32 \<Rightarrow> u32"
  assumes f: "\<And>a b. f (a XOR b) = f a XOR f b" and g: "\<And>a b. g (a XOR b) = g a XOR g b"
    and eq: "\<And>j. j < 32 \<Longrightarrow> f (2 ^ j) = g (2 ^ j)"
  shows "f x = g x"
proof -
  have z: "f 0 = 0" "g 0 = 0" using f [of 0 0] g [of 0 0] by simp_all
  have "f (take_bit n x) = g (take_bit n x)" if "n \<le> 32" for n
    using that
  proof (induction n)
    case (Suc n)
    have "take_bit (Suc n) x = take_bit n x XOR (if bit x n then 2 ^ n else 0)"
      using Suc.prems by (intro bit_word_eqI) (auto simp: bit_simps less_Suc_eq)
    then show ?case using Suc z f g eq [of n] by (cases "bit x n") simp_all
  qed (simp add: z)
  from this [of 32] show ?thesis by (simp add: take_bit_word_eq_self)
qed

subsection \<open>Multiplication modulo the polynomial\<close>

text \<open>The operator a multiplier stands for: bit \<open>31 - i\<close> contributes \<open>i\<close> steps.\<close>

fun gf_op :: "u32 \<Rightarrow> u32 \<Rightarrow> nat \<Rightarrow> u32 \<Rightarrow> u32" where
  "gf_op poly b 0 a = 0"
| "gf_op poly b (Suc n) a = gf_op poly b n a XOR (if bit b (31 - n) then (crc_step poly ^^ n) a else 0)"

lemma xor_cancel:
  fixes x g e r n :: u32
  assumes "x XOR (g XOR e) = (r XOR e) XOR n"
  shows "x XOR g = r XOR n"
proof (rule bit_word_eqI)
  fix i
  assume "i < LENGTH(32)"
  show "bit (x XOR g) i = bit (r XOR n) i"
    using arg_cong [OF assms, of "\<lambda>w. bit w i"] by (auto simp: bit_xor_iff)
qed

lemma gf_mul_loop_eq:
  "n + m = 32 \<Longrightarrow> gf_mul_loop poly n ((crc_step poly ^^ m) a) (push_bit m b) r XOR gf_op poly b m a = r XOR gf_op poly b 32 a"
proof (induction n arbitrary: m r)
  case (Suc n)
  have top: "push_bit m b AND 0x80000000 \<noteq> 0 \<longleftrightarrow> bit b (31 - m)"
  proof -
    have "push_bit m b AND 2 ^ 31 \<noteq> 0 \<longleftrightarrow> bit (push_bit m b) 31"
      by (simp only: bit_iff_and_push_bit_not_eq_0 push_bit_of_1)
    also have "\<dots> \<longleftrightarrow> bit b (31 - m)" using Suc.prems by (simp add: bit_push_bit_iff)
    finally show ?thesis by simp
  qed
  have p: "push_bit 1 (push_bit m b) = push_bit (Suc m) b" by (simp add: push_bit_push_bit)
  define E where "E = (if bit b (31 - m) then (crc_step poly ^^ m) a else 0)"
  define X where "X = gf_mul_loop poly n ((crc_step poly ^^ Suc m) a) (push_bit (Suc m) b) (r XOR E)"
  have "gf_mul_loop poly (Suc n) ((crc_step poly ^^ m) a) (push_bit m b) r = X"
    unfolding gf_mul_loop.simps p X_def E_def using top by simp
  moreover have "X XOR (gf_op poly b m a XOR E) = (r XOR E) XOR gf_op poly b 32 a"
    using Suc.IH [of "Suc m" "r XOR E"] Suc.prems unfolding X_def E_def by simp
  then have "X XOR gf_op poly b m a = r XOR gf_op poly b 32 a" by (rule xor_cancel)
  ultimately show ?case by simp
qed simp


lemma crc32_gf_mul_op: "crc32_gf_mul a b poly = gf_op poly b 32 a"
  using gf_mul_loop_eq [of 32 0 poly a b 0] by (simp add: crc32_gf_mul_def)

lemma gf_op_xor: "gf_op poly b n (x XOR y) = gf_op poly b n x XOR gf_op poly b n y"
  by (induction n) (simp_all add: crc_steps_xor ac_simps)

lemma gf_op_xor_mult: "gf_op poly (b XOR c) n x = gf_op poly b n x XOR gf_op poly c n x"
  by (induction n) (auto simp: bit_xor_iff ac_simps)

lemma gf_op_0 [simp]: "gf_op poly 0 n x = 0"
  by (induction n) simp_all

lemma gf_op_step: "gf_op poly b n (crc_step poly x) = crc_step poly (gf_op poly b n x)"
  by (induction n) (simp_all add: funpow_swap1)

lemma gf_op_steps: "gf_op poly b n ((crc_step poly ^^ m) x) = (crc_step poly ^^ m) (gf_op poly b n x)"
  by (induction m) (simp_all add: gf_op_step)

lemma crc_steps_pow2: "i \<le> j \<Longrightarrow> j < 32 \<Longrightarrow> (crc_step poly ^^ i) (2 ^ j) = 2 ^ (j - i)"
proof -
  assume ij: "i \<le> j" "j < 32"
  have "(crc_step poly ^^ i) (2 ^ j) = drop_bit i (2 ^ j)"
    using ij by (intro crc_steps_shift) (auto simp: bit_exp_iff)
  also have "\<dots> = 2 ^ (j - i)"
    using ij by (intro bit_word_eqI) (auto simp: bit_simps)
  finally show ?thesis .
qed

lemma gf_op_top: "n \<le> 32 \<Longrightarrow> bit (gf_op poly b n (2 ^ 31)) k \<longleftrightarrow> 32 - n \<le> k \<and> bit b k"
proof (induction n)
  case 0
  have "bit b k \<Longrightarrow> k < 32" using bit_imp_le_length [of b k] by simp
  then show ?case by auto
next
  case (Suc n)
  have "(crc_step poly ^^ n) (2 ^ 31) = 2 ^ (31 - n)" using Suc.prems by (intro crc_steps_pow2) simp_all
  then have "bit (gf_op poly b (Suc n) (2 ^ 31)) k \<longleftrightarrow> (32 - n \<le> k \<and> bit b k) \<noteq> (bit b (31 - n) \<and> k = 31 - n)"
    using Suc by (auto simp: bit_xor_iff bit_exp_iff)
  moreover have "32 - Suc n \<le> k \<longleftrightarrow> 32 - n \<le> k \<or> k = 31 - n" "32 - n \<le> k \<Longrightarrow> k \<noteq> 31 - n"
    using Suc.prems by auto
  ultimately show ?case by auto
qed

text \<open>The step operator satisfies its own polynomial.\<close>

lemma gf_op_poly: "gf_op poly poly 32 x = (crc_step poly ^^ 32) x"
proof (rule xor_linear_ext [of "gf_op poly poly 32" "crc_step poly ^^ 32"])
  have one: "(crc_step poly ^^ 31) (2 ^ 31) = 1" using crc_steps_pow2 [of 31 31 poly] by simp
  have "(crc_step poly ^^ 32) (2 ^ 31) = crc_step poly ((crc_step poly ^^ 31) (2 ^ 31))"
    by (simp flip: funpow.simps(2) comp_apply [of "crc_step poly" "crc_step poly ^^ 31"])
  also have "\<dots> = poly" unfolding one by (simp add: crc_step_eq)
  finally have top: "(crc_step poly ^^ 32) (2 ^ 31) = poly" .
  have "gf_op poly poly 32 (2 ^ 31) = poly"
    by (rule bit_word_eqI) (simp only: gf_op_top, simp)
  with top have base: "gf_op poly poly 32 (2 ^ 31) = (crc_step poly ^^ 32) (2 ^ 31)" by simp
  fix j :: nat
  assume j: "j < 32"
  have e: "(2 :: u32) ^ j = (crc_step poly ^^ (31 - j)) (2 ^ 31)" using crc_steps_pow2 [of "31 - j" 31 poly] j by simp
  show "gf_op poly poly 32 (2 ^ j) = (crc_step poly ^^ 32) (2 ^ j)"
    unfolding e gf_op_steps base by (simp only: funpow_add [symmetric, THEN fun_cong, unfolded comp_apply] add.commute)
qed (simp_all add: gf_op_xor crc_steps_xor)

lemma gf_op_shift:
  "n \<le> 31 \<Longrightarrow> gf_op poly (drop_bit 1 b) (Suc n) x = crc_step poly (gf_op poly b n x)"
proof (induction n)
  case 0
  have "\<not> bit b 32" using bit_imp_le_length [of b 32] by auto
  then show ?case by (simp add: bit_drop_bit_eq)
next
  case (Suc n)
  have "Suc (31 - Suc n) = 31 - n" using Suc.prems by simp
  then show ?case using Suc by (simp add: bit_drop_bit_eq)
qed

lemma gf_op_mult_step: "gf_op poly (crc_step poly b) 32 x = crc_step poly (gf_op poly b 32 x)"
proof -
  have S: "(32 :: nat) = Suc 31" by simp
  have "gf_op poly (drop_bit 1 b) 32 x = crc_step poly (gf_op poly b 31 x)"
    unfolding S by (rule gf_op_shift) simp
  moreover have "gf_op poly b 32 x = gf_op poly b 31 x XOR (if bit b 0 then (crc_step poly ^^ 31) x else 0)"
    unfolding S gf_op.simps by simp
  moreover have "crc_step poly ((crc_step poly ^^ 31) x) = gf_op poly poly 32 x"
    unfolding gf_op_poly unfolding S by (simp only: funpow.simps comp_apply)
  ultimately show ?thesis by (simp add: crc_step_eq [of poly b] gf_op_xor_mult)
qed

lemma gf_op_mult_steps: "gf_op poly ((crc_step poly ^^ m) b) 32 x = (crc_step poly ^^ m) (gf_op poly b 32 x)"
  by (induction m) (simp_all add: gf_op_mult_step)

text \<open>Multiplication of multipliers is composition of their operators.\<close>

lemma gf_op_compose: "gf_op poly (gf_op poly p n b) 32 x = gf_op poly p n (gf_op poly b 32 x)"
  by (induction n) (simp_all add: gf_op_xor_mult gf_op_mult_steps)

lemma gf_mul_compose:
  assumes "\<And>x. gf_op poly r 32 x = (crc_step poly ^^ m) x" "\<And>x. gf_op poly p 32 x = (crc_step poly ^^ k) x"
  shows "gf_op poly (crc32_gf_mul r p poly) 32 x = (crc_step poly ^^ (k + m)) x"
  by (subst crc32_gf_mul_op, subst gf_op_compose, simp only: assms funpow_add comp_apply)

lemma gf_op_one_bit: "i < 32 \<Longrightarrow> gf_op poly (2 ^ (31 - i)) 32 x = (crc_step poly ^^ i) x"
proof -
  assume i: "i < 32"
  have "n \<le> 32 \<Longrightarrow> gf_op poly (2 ^ (31 - i)) n x = (if i < n then (crc_step poly ^^ i) x else 0)" for n
  proof (induction n)
    case (Suc n)
    have "31 - n = 31 - i \<longleftrightarrow> n = i" using Suc.prems i by auto
    then show ?case using Suc i by (auto simp: bit_exp_iff less_Suc_eq)
  qed simp
  then show ?thesis using i by simp
qed

declare slice8_words.simps [simp del] crc32_shift_loop.simps [simp del] hw_words.simps [simp del]

subsection \<open>Bytes of a word\<close>

lemma ucast_le32_split:
  fixes x :: u32
  shows "x = (x AND 0xFF) XOR push_bit 8 (drop_bit 8 x AND 0xFF) XOR push_bit 16 (drop_bit 16 x AND 0xFF) XOR
    push_bit 24 (drop_bit 24 x AND 0xFF)"
proof -
  have m: "(0xFF :: u32) = mask 8" by (simp add: mask_eq_exp_minus_1)
  show ?thesis unfolding m by (rule bit_word_eqI) (auto simp: bit_simps)
qed

lemma crc_steps_byte:
  fixes x :: u32
  assumes "k \<le> 24"
  shows "(crc_step poly ^^ (n + k)) (push_bit k (x AND 0xFF)) = (crc_step poly ^^ n) (x AND 0xFF)"
proof -
  have m: "(0xFF :: u32) = mask 8" by (simp add: mask_eq_exp_minus_1)
  have "(crc_step poly ^^ k) (push_bit k (x AND 0xFF)) = drop_bit k (push_bit k (x AND 0xFF))"
    by (rule crc_steps_shift) (simp only: bit_push_bit_iff, simp)
  also have "\<dots> = x AND 0xFF"
    unfolding m using assms by (intro bit_word_eqI) (auto simp: bit_simps)
  finally show ?thesis by (simp add: funpow_add)
qed

text \<open>Thirty-two steps or more split over the bytes of the register.\<close>

lemma crc_steps_split:
  "(crc_step poly ^^ (n + 32)) x =
    (crc_step poly ^^ (n + 32)) (x AND 0xFF) XOR (crc_step poly ^^ (n + 24)) (drop_bit 8 x AND 0xFF) XOR
    (crc_step poly ^^ (n + 16)) (drop_bit 16 x AND 0xFF) XOR (crc_step poly ^^ (n + 8)) (drop_bit 24 x AND 0xFF)"
proof -
  have e: "n + 32 = n + 24 + 8" "n + 32 = n + 16 + 16" "n + 32 = n + 8 + 24" by simp_all
  have b: "(crc_step poly ^^ (n + 32)) (push_bit 8 (drop_bit 8 x AND 0xFF)) = (crc_step poly ^^ (n + 24)) (drop_bit 8 x AND 0xFF)"
    "(crc_step poly ^^ (n + 32)) (push_bit 16 (drop_bit 16 x AND 0xFF)) = (crc_step poly ^^ (n + 16)) (drop_bit 16 x AND 0xFF)"
    "(crc_step poly ^^ (n + 32)) (push_bit 24 (drop_bit 24 x AND 0xFF)) = (crc_step poly ^^ (n + 8)) (drop_bit 24 x AND 0xFF)"
    by (simp only: e(1), rule crc_steps_byte, simp, simp only: e(2), rule crc_steps_byte, simp, simp only: e(3), rule crc_steps_byte, simp)
  show ?thesis
    by (subst ucast_le32_split [of x]) (simp only: crc_steps_xor b)
qed

lemma crc_fold_xor: "foldl (crc_byte poly) (a XOR b) xs = (crc_step poly ^^ (8 * length xs)) a XOR foldl (crc_byte poly) b xs"
proof (induction xs arbitrary: a b)
  case (Cons d xs)
  have "crc_byte poly (a XOR b) d = (crc_step poly ^^ 8) a XOR crc_byte poly b d"
    by (simp add: crc_byte_def crc_steps_xor xor.assoc)
  then show ?case
    using Cons [of "(crc_step poly ^^ 8) a" "crc_byte poly b d"]
    by (simp add: funpow_add [symmetric, THEN fun_cong, unfolded comp_apply] add.commute)
qed simp

lemma crc_fold_append:
  "foldl (crc_byte poly) c (xs @ ys) = (crc_step poly ^^ (8 * length ys)) (foldl (crc_byte poly) c xs) XOR foldl (crc_byte poly) 0 ys"
  using crc_fold_xor [of poly "foldl (crc_byte poly) c xs" 0 ys] by simp

text \<open>Four bytes at once: the register meets the little-endian word they form.\<close>

lemma crc_four_bytes:
  "foldl (crc_byte poly) c [d0, d1, d2, d3] = (crc_step poly ^^ 32) (c XOR load_le32 [d0, d1, d2, d3])"
proof -
  have bits: "load_le32 [d0, d1, d2, d3] = ucast d0 XOR push_bit 8 (ucast d1) XOR push_bit 16 (ucast d2) XOR push_bit 24 (ucast d3)"
    unfolding load_le32_def by (rule bit_word_eqI) (auto simp: bit_simps dest: bit_imp_le_length)
  have m: "(ucast d :: u32) AND 0xFF = ucast d" for d :: byte
  proof -
    have "(0xFF :: u32) = mask 8" by (simp add: mask_eq_exp_minus_1)
    moreover have "(ucast d :: u32) AND mask 8 = ucast d"
      by (rule bit_word_eqI) (auto simp: bit_simps dest: bit_imp_le_length)
    ultimately show ?thesis by (simp only:)
  qed
  note b = crc_steps_byte [where k = 8 and poly = poly and n = 24 and x = "ucast d1", unfolded m] crc_steps_byte [where k = 16 and poly = poly and n = 16 and x = "ucast d2", unfolded m]
    crc_steps_byte [where k = 24 and poly = poly and n = 8 and x = "ucast d3", unfolded m]
  show ?thesis
    unfolding bits crc_steps_xor b [simplified]
    by (simp add: crc_byte_def crc_steps_xor funpow_add [symmetric, THEN fun_cong, unfolded comp_apply] xor.assoc)
qed


subsection \<open>Tables of linear functions\<close>

text \<open>The table of a linear function on the numbers below \<open>2 ^ n\<close>, built from its values on the powers of two.\<close>

fun lin_table :: "u32 list \<Rightarrow> u32 list \<Rightarrow> u32 list" where
  "lin_table t [] = t"
| "lin_table t (b # bs) = lin_table (t @ map (\<lambda>x. x XOR b) t) bs"

lemma lin_table_nth:
  assumes F: "\<And>a b. F (a XOR b) = F a XOR F b"
    and t: "length t = 2 ^ n" "\<And>i. i < 2 ^ n \<Longrightarrow> t ! i = F (of_nat i :: u32)"
    and "n + length bs \<le> 32" "\<And>j. j < length bs \<Longrightarrow> bs ! j = F (2 ^ (n + j))" "i < 2 ^ (n + length bs)"
  shows "lin_table t bs ! i = F (of_nat i)"
  using t assms(4-)
proof (induction bs arbitrary: t n)
  case (Cons b bs)
  have b: "b = F (2 ^ n)" using Cons.prems(4) [of 0] by simp
  have "(t @ map (\<lambda>x. x XOR b) t) ! i = F (of_nat i)" if i: "i < 2 ^ Suc n" for i
  proof (cases "i < 2 ^ n")
    case True
    then show ?thesis using Cons.prems(1,2) by (simp add: nth_append)
  next
    case False
    define k where "k = i - 2 ^ n"
    have k: "k < 2 ^ n" "i = push_bit n 1 OR k" using False i nat_or_push [of "i - 2 ^ n" n 1] by (auto simp: k_def)
    have x: "(of_nat i :: u32) = of_nat k XOR 2 ^ n"
    proof (rule bit_word_eqI)
      fix m assume "m < LENGTH(32)"
      have "bit k m \<Longrightarrow> m < n"
        using k(1) by (metis bit_take_bit_iff take_bit_nat_eq_self)
      then show "bit (of_nat i :: u32) m = bit (of_nat k XOR 2 ^ n :: u32) m"
        using Cons.prems(3) unfolding k(2) by (auto simp: bit_simps)
    qed
    have "(t @ map (\<lambda>x. x XOR b) t) ! i = t ! k XOR b"
      using False Cons.prems(1) k(1) by (simp add: nth_append k_def)
    then show ?thesis using x k Cons.prems(2) b F by simp
  qed
  then show ?case
    using Cons.IH [of "t @ map (\<lambda>x. x XOR b) t" "Suc n"] Cons.prems(1,3,5) Cons.prems(4) [of "Suc _"]
    by simp
qed simp

end
