(* ===== verification/CrcCorrect.thy ===== *)
theory CrcCorrect
  imports Crc
begin

text \<open>
  Correctness of the CRC-32 routines. Every entry of the lookup tables is compared with the value the
  register algebra gives for it; slicing by eight and the hardware paths are then equal to the
  bit-by-bit reference on every input.
\<close>

subsection \<open>The tables\<close>

text \<open>The first 64 steps from the lowest bit: the values of every table on the powers of two.\<close>

fun crc_steps_list :: "u32 \<Rightarrow> u32 list \<Rightarrow> bool" where
  "crc_steps_list poly (x # y # ys) \<longleftrightarrow> y = crc_step poly x \<and> crc_steps_list poly (y # ys)"
| "crc_steps_list poly _ \<longleftrightarrow> True"

lemma crc_steps_list_nth:
  "crc_steps_list poly (x # xs) \<Longrightarrow> i \<le> length xs \<Longrightarrow> (x # xs) ! i = (crc_step poly ^^ i) x"
proof (induction xs arbitrary: x i)
  case (Cons y ys)
  show ?case
  proof (cases i)
    case (Suc j)
    moreover have y: "y = crc_step poly x" "crc_steps_list poly (y # ys)" using Cons.prems by auto
    moreover have "(y # ys) ! j = (crc_step poly ^^ j) y" using Cons.IH [OF y(2), of j] Cons.prems Suc by simp
    ultimately show ?thesis by (simp add: funpow_swap1)
  qed simp
qed simp

definition crc32_ieee_s8_steps :: "u32 list" where
  "crc32_ieee_s8_steps = [
     0x00000001, 0xEDB88320, 0x76DC4190, 0x3B6E20C8, 0x1DB71064, 0x0EDB8832, 0x076DC419, 0xEE0E612C,
     0x77073096, 0x3B83984B, 0xF0794F05, 0x958424A2, 0x4AC21251, 0xC8D98A08, 0x646CC504, 0x32366282,
     0x191B3141, 0xE1351B80, 0x709A8DC0, 0x384D46E0, 0x1C26A370, 0x0E1351B8, 0x0709A8DC, 0x0384D46E,
     0x01C26A37, 0xED59B63B, 0x9B14583D, 0xA032AF3E, 0x5019579F, 0xC5B428EF, 0x8F629757, 0xAA09C88B,
     0xB8BC6765, 0xB1E6B092, 0x58F35849, 0xC1C12F04, 0x60E09782, 0x30704BC1, 0xF580A6C0, 0x7AC05360,
     0x3D6029B0, 0x1EB014D8, 0x0F580A6C, 0x07AC0536, 0x03D6029B, 0xEC53826D, 0x9B914216, 0x4DC8A10B,
     0xCB5CD3A5, 0x8816EAF2, 0x440B7579, 0xCFBD399C, 0x67DE9CCE, 0x33EF4E67, 0xF44F2413, 0x979F1129,
     0xA6770BB4, 0x533B85DA, 0x299DC2ED, 0xF9766256, 0x7CBB312B, 0xD3E51BB5, 0x844A0EFA, 0x4225077D,
     0xCCAA009E]"

lemma crc32_ieee_s8_steps: "crc_steps_list 0xEDB88320 crc32_ieee_s8_steps" "length crc32_ieee_s8_steps = 65" "crc32_ieee_s8_steps ! 0 = 1"
  by (simp_all add: crc32_ieee_s8_steps_def crc_step_def)

lemma crc32_ieee_s8_0_lin: "crc32_ieee_s8_0 = lin_table [0] (rev (take 8 (drop 1 crc32_ieee_s8_steps)))"
  by (simp add: crc32_ieee_s8_0_def crc32_ieee_s8_steps_def)

lemma crc32_ieee_s8_1_lin: "crc32_ieee_s8_1 = lin_table [0] (rev (take 8 (drop 9 crc32_ieee_s8_steps)))"
  by (simp add: crc32_ieee_s8_1_def crc32_ieee_s8_steps_def)

lemma crc32_ieee_s8_2_lin: "crc32_ieee_s8_2 = lin_table [0] (rev (take 8 (drop 17 crc32_ieee_s8_steps)))"
  by (simp add: crc32_ieee_s8_2_def crc32_ieee_s8_steps_def)

lemma crc32_ieee_s8_3_lin: "crc32_ieee_s8_3 = lin_table [0] (rev (take 8 (drop 25 crc32_ieee_s8_steps)))"
  by (simp add: crc32_ieee_s8_3_def crc32_ieee_s8_steps_def)

lemma crc32_ieee_s8_4_lin: "crc32_ieee_s8_4 = lin_table [0] (rev (take 8 (drop 33 crc32_ieee_s8_steps)))"
  by (simp add: crc32_ieee_s8_4_def crc32_ieee_s8_steps_def)

lemma crc32_ieee_s8_5_lin: "crc32_ieee_s8_5 = lin_table [0] (rev (take 8 (drop 41 crc32_ieee_s8_steps)))"
  by (simp add: crc32_ieee_s8_5_def crc32_ieee_s8_steps_def)

lemma crc32_ieee_s8_6_lin: "crc32_ieee_s8_6 = lin_table [0] (rev (take 8 (drop 49 crc32_ieee_s8_steps)))"
  by (simp add: crc32_ieee_s8_6_def crc32_ieee_s8_steps_def)

lemma crc32_ieee_s8_7_lin: "crc32_ieee_s8_7 = lin_table [0] (rev (take 8 (drop 57 crc32_ieee_s8_steps)))"
  by (simp add: crc32_ieee_s8_7_def crc32_ieee_s8_steps_def)

definition crc32c_s8_steps :: "u32 list" where
  "crc32c_s8_steps = [
     0x00000001, 0x82F63B78, 0x417B1DBC, 0x20BD8EDE, 0x105EC76F, 0x8AD958CF, 0xC79A971F, 0xE13B70F7,
     0xF26B8303, 0xFBC3FAF9, 0xFF17C604, 0x7F8BE302, 0x3FC5F181, 0x9D14C3B8, 0x4E8A61DC, 0x274530EE,
     0x13A29877, 0x8B277743, 0xC76580D9, 0xE144FB14, 0x70A27D8A, 0x38513EC5, 0x9EDEA41A, 0x4F6F520D,
     0xA541927E, 0x52A0C93F, 0xABA65FE7, 0xD725148B, 0xE964B13D, 0xF64463E6, 0x7B2231F3, 0xBF672381,
     0xDD45AAB8, 0x6EA2D55C, 0x37516AAE, 0x1BA8B557, 0x8F2261D3, 0xC5670B91, 0xE045BEB0, 0x7022DF58,
     0x38116FAC, 0x1C08B7D6, 0x0E045BEB, 0x85F4168D, 0xC00C303E, 0x6006181F, 0xB2F53777, 0xDB8CA0C3,
     0xEF306B19, 0xF56E0EF4, 0x7AB7077A, 0x3D5B83BD, 0x9C5BFAA6, 0x4E2DFD53, 0xA5E0C5D1, 0xD0065990,
     0x68032CC8, 0x34019664, 0x1A00CB32, 0x0D006599, 0x847609B4, 0x423B04DA, 0x211D826D, 0x9278FA4E,
     0x493C7D27]"

lemma crc32c_s8_steps: "crc_steps_list 0x82F63B78 crc32c_s8_steps" "length crc32c_s8_steps = 65" "crc32c_s8_steps ! 0 = 1"
  by (simp_all add: crc32c_s8_steps_def crc_step_def)

lemma crc32c_s8_0_lin: "crc32c_s8_0 = lin_table [0] (rev (take 8 (drop 1 crc32c_s8_steps)))"
  by (simp add: crc32c_s8_0_def crc32c_s8_steps_def)

lemma crc32c_s8_1_lin: "crc32c_s8_1 = lin_table [0] (rev (take 8 (drop 9 crc32c_s8_steps)))"
  by (simp add: crc32c_s8_1_def crc32c_s8_steps_def)

lemma crc32c_s8_2_lin: "crc32c_s8_2 = lin_table [0] (rev (take 8 (drop 17 crc32c_s8_steps)))"
  by (simp add: crc32c_s8_2_def crc32c_s8_steps_def)

lemma crc32c_s8_3_lin: "crc32c_s8_3 = lin_table [0] (rev (take 8 (drop 25 crc32c_s8_steps)))"
  by (simp add: crc32c_s8_3_def crc32c_s8_steps_def)

lemma crc32c_s8_4_lin: "crc32c_s8_4 = lin_table [0] (rev (take 8 (drop 33 crc32c_s8_steps)))"
  by (simp add: crc32c_s8_4_def crc32c_s8_steps_def)

lemma crc32c_s8_5_lin: "crc32c_s8_5 = lin_table [0] (rev (take 8 (drop 41 crc32c_s8_steps)))"
  by (simp add: crc32c_s8_5_def crc32c_s8_steps_def)

lemma crc32c_s8_6_lin: "crc32c_s8_6 = lin_table [0] (rev (take 8 (drop 49 crc32c_s8_steps)))"
  by (simp add: crc32c_s8_6_def crc32c_s8_steps_def)

lemma crc32c_s8_7_lin: "crc32c_s8_7 = lin_table [0] (rev (take 8 (drop 57 crc32c_s8_steps)))"
  by (simp add: crc32c_s8_7_def crc32c_s8_steps_def)


definition crc_table_ok :: "u32 \<Rightarrow> u32 list list \<Rightarrow> bool" where
  "crc_table_ok poly t \<longleftrightarrow> (\<forall>k < 8. \<forall>i < 256. t ! k ! i = (crc_step poly ^^ (8 * k + 8)) (of_nat i))"

lemma crc_row_ok:
  assumes steps: "crc_steps_list poly steps" "length steps = 65" "steps ! 0 = 1"
    and row: "row = lin_table [0] (rev (take 8 (drop (8 * k + 1) steps)))" and k: "k < 8" and i: "i < 256"
  shows "row ! i = (crc_step poly ^^ (8 * k + 8)) (of_nat i)"
proof -
  define bs where "bs = rev (take 8 (drop (8 * k + 1) steps))"
  have len: "length bs = 8" using steps(2) k by (simp add: bs_def)
  have nth: "bs ! j = (crc_step poly ^^ (8 * k + 8)) (2 ^ j)" if j: "j < 8" for j
  proof -
    have "Suc (8 * k + 7 - j) = 8 * k + 8 - j" using j by simp
    then have "bs ! j = steps ! (8 * k + 8 - j)"
      using j k steps(2) by (simp add: bs_def rev_nth)
    also have "\<dots> = (crc_step poly ^^ (8 * k + 8 - j)) 1"
    proof (cases steps)
      case (Cons x xs)
      then show ?thesis using crc_steps_list_nth [of poly x xs "8 * k + 8 - j"] steps k by simp
    qed (use steps(2) in simp)
    also have "1 = (crc_step poly ^^ j) (2 ^ j)" using crc_steps_pow2 [of j j poly] j by simp
    also have "(crc_step poly ^^ (8 * k + 8 - j)) ((crc_step poly ^^ j) (2 ^ j)) = (crc_step poly ^^ (8 * k + 8)) (2 ^ j)"
      using j by (simp add: funpow_add [symmetric, THEN fun_cong, unfolded comp_apply])
    finally show ?thesis .
  qed
  have "lin_table [0] bs ! i = (crc_step poly ^^ (8 * k + 8)) (of_nat i)"
    by (rule lin_table_nth [where n = 0]) (use len nth i in \<open>simp_all add: crc_steps_xor\<close>)
  then show ?thesis by (simp add: row bs_def)
qed

lemma crc_table_okI:
  assumes "crc_steps_list poly steps" "length steps = 65" "steps ! 0 = 1"
    and "\<And>k. k < 8 \<Longrightarrow> t ! k = lin_table [0] (rev (take 8 (drop (8 * k + 1) steps)))"
  shows "crc_table_ok poly t"
  unfolding crc_table_ok_def using crc_row_ok [OF assms(1-3) assms(4)] by blast

lemma all_less_8: "(\<forall>k < 8. P k) \<longleftrightarrow> P 0 \<and> P 1 \<and> P 2 \<and> P 3 \<and> P 4 \<and> P 5 \<and> P 6 \<and> P (7 :: nat)"
  by (simp add: numeral_eq_Suc All_less_Suc) blast

lemma crc32_ieee_s8_ok: "crc_table_ok 0xEDB88320 crc32_ieee_s8"
proof (rule crc_table_okI [OF crc32_ieee_s8_steps])
  have "\<forall>k < 8. crc32_ieee_s8 ! k = lin_table [0] (rev (take 8 (drop (8 * k + 1) crc32_ieee_s8_steps)))"
    using crc32_ieee_s8_0_lin crc32_ieee_s8_1_lin crc32_ieee_s8_2_lin crc32_ieee_s8_3_lin crc32_ieee_s8_4_lin
      crc32_ieee_s8_5_lin crc32_ieee_s8_6_lin crc32_ieee_s8_7_lin unfolding all_less_8 by (simp add: crc32_ieee_s8_def)
  then show "crc32_ieee_s8 ! k = lin_table [0] (rev (take 8 (drop (8 * k + 1) crc32_ieee_s8_steps)))" if "k < 8" for k
    using that by blast
qed

lemma crc32c_s8_ok: "crc_table_ok 0x82F63B78 crc32c_s8"
proof (rule crc_table_okI [OF crc32c_s8_steps])
  have "\<forall>k < 8. crc32c_s8 ! k = lin_table [0] (rev (take 8 (drop (8 * k + 1) crc32c_s8_steps)))"
    using crc32c_s8_0_lin crc32c_s8_1_lin crc32c_s8_2_lin crc32c_s8_3_lin crc32c_s8_4_lin
      crc32c_s8_5_lin crc32c_s8_6_lin crc32c_s8_7_lin unfolding all_less_8 by (simp add: crc32c_s8_def)
  then show "crc32c_s8 ! k = lin_table [0] (rev (take 8 (drop (8 * k + 1) crc32c_s8_steps)))" if "k < 8" for k
    using that by blast
qed

subsection \<open>Slicing by eight\<close>

lemma crc32_entry_eq:
  assumes "crc_table_ok poly t" "k < 8"
  shows "crc32_entry t k x = (crc_step poly ^^ (8 * k + 8)) (x AND 0xFF)"
proof -
  have "unat (x AND 0xFF) = unat x mod 256" by (simp add: unsigned_and_eq nat_and_low)
  then have "unat (x AND 0xFF) < 256" by simp
  then show ?thesis using assms by (simp add: crc32_entry_def crc_table_ok_def)
qed

lemma slice8_byte_eq:
  assumes "crc_table_ok poly t"
  shows "slice8_byte t crc d = crc_byte poly crc d"
proof -
  have m: "(0xFF :: u32) = mask 8" by (simp add: mask_eq_exp_minus_1)
  define x where "x = crc XOR ucast d"
  have x: "x = (x AND 0xFF) XOR push_bit 8 (drop_bit 8 x)" unfolding m by (rule bit_word_eqI) (auto simp: bit_simps)
  have "(crc_step poly ^^ 8) (push_bit 8 (drop_bit 8 x)) = drop_bit 8 (push_bit 8 (drop_bit 8 x))"
    by (rule crc_steps_shift) (simp only: bit_push_bit_iff, simp)
  also have "\<dots> = drop_bit 8 crc"
    unfolding x_def by (rule bit_word_eqI) (auto simp: bit_simps dest: bit_imp_le_length)
  finally have "(crc_step poly ^^ 8) x = (crc_step poly ^^ 8) (x AND 0xFF) XOR drop_bit 8 crc"
    by (subst x) (simp only: crc_steps_xor)
  then show ?thesis
    using crc32_entry_eq [OF assms, of 0 x] by (simp add: slice8_byte_def crc_byte_def x_def)
qed

lemma slice8_group:
  assumes "crc_table_ok poly t"
  shows "foldl (crc_byte poly) c [d0, d1, d2, d3, d4, d5, d6, d7] =
    (let lo = load_le32 [d0, d1, d2, d3] XOR c; hi = load_le32 [d4, d5, d6, d7] in
     crc32_entry t 7 lo XOR crc32_entry t 6 (drop_bit 8 lo) XOR crc32_entry t 5 (drop_bit 16 lo) XOR
     crc32_entry t 4 (drop_bit 24 lo) XOR crc32_entry t 3 hi XOR crc32_entry t 2 (drop_bit 8 hi) XOR
     crc32_entry t 1 (drop_bit 16 hi) XOR crc32_entry t 0 (drop_bit 24 hi))"
proof -
  define l where "l = load_le32 [d0, d1, d2, d3] XOR c"
  define h where "h = load_le32 [d4, d5, d6, d7]"
  note entry = crc32_entry_eq [OF assms]
  have "foldl (crc_byte poly) c [d0, d1, d2, d3, d4, d5, d6, d7] =
      foldl (crc_byte poly) (foldl (crc_byte poly) c [d0, d1, d2, d3]) [d4, d5, d6, d7]" by simp
  also have "\<dots> = (crc_step poly ^^ 32) ((crc_step poly ^^ 32) l XOR h)"
    by (simp only: crc_four_bytes l_def h_def xor.commute)
  also have "\<dots> = (crc_step poly ^^ (32 + 32)) l XOR (crc_step poly ^^ (0 + 32)) h"
    by (simp only: crc_steps_xor funpow_add comp_apply) simp
  also have "\<dots> = crc32_entry t 7 l XOR crc32_entry t 6 (drop_bit 8 l) XOR crc32_entry t 5 (drop_bit 16 l) XOR
     crc32_entry t 4 (drop_bit 24 l) XOR crc32_entry t 3 h XOR crc32_entry t 2 (drop_bit 8 h) XOR
     crc32_entry t 1 (drop_bit 16 h) XOR crc32_entry t 0 (drop_bit 24 h)"
    unfolding crc_steps_split [where n = 32 and x = l] crc_steps_split [where n = 0 and x = h] by (simp add: entry xor.assoc)
  finally show ?thesis by (simp only: Let_def l_def h_def)
qed

lemma list8_cases:
  assumes "8 \<le> length data"
  obtains d0 d1 d2 d3 d4 d5 d6 d7 ds where "data = d0 # d1 # d2 # d3 # d4 # d5 # d6 # d7 # ds"
proof -
  have "Suc (Suc (Suc (Suc (Suc (Suc (Suc (Suc 0))))))) \<le> length data" using assms by simp
  then show ?thesis using that by (auto simp: Suc_le_length_iff)
qed

lemma slice8_words_eq:
  assumes ok: "crc_table_ok poly t"
  shows "foldl (crc_byte poly) crc data = (case slice8_words t crc data of (c', rest) \<Rightarrow> foldl (crc_byte poly) c' rest)"
proof (induction data arbitrary: crc rule: length_induct)
  case (1 data)
  show ?case
  proof (cases "8 \<le> length data")
    case True
    then obtain d0 d1 d2 d3 d4 d5 d6 d7 ds where d: "data = d0 # d1 # d2 # d3 # d4 # d5 # d6 # d7 # ds"
      by (rule list8_cases)
    define c' where "c' = foldl (crc_byte poly) crc [d0, d1, d2, d3, d4, d5, d6, d7]"
    have le: "load_le32 data = load_le32 [d0, d1, d2, d3]" "load_le32 (drop 4 data) = load_le32 [d4, d5, d6, d7]"
      by (simp_all add: d load_le32_def)
    have dr: "drop 8 data = ds" by (simp add: d)
    have "slice8_words t crc data = slice8_words t c' ds"
      unfolding c'_def slice8_group [OF ok] using True
      by (subst slice8_words.simps) (simp only: le dr Let_def if_True)
    moreover have "foldl (crc_byte poly) crc data = foldl (crc_byte poly) c' ds" by (simp add: d c'_def)
    ultimately show ?thesis using 1 d by simp
  next
    case False
    then show ?thesis by (subst slice8_words.simps) simp
  qed
qed

lemma dyn_crc32_slice8_eq:
  assumes "crc_table_ok poly t"
  shows "dyn_crc32_slice8 data t = dyn_crc32_bitwise data poly"
proof -
  have "slice8_byte t = crc_byte poly" using slice8_byte_eq [OF assms] by blast
  then show ?thesis
    using slice8_words_eq [OF assms, of "0xFFFFFFFF" data]
    by (cases "slice8_words t 0xFFFFFFFF data") (simp add: dyn_crc32_slice8_def dyn_crc32_bitwise_def)
qed

subsection \<open>The hardware paths\<close>

lemma crc32_shift_loop_op:
  assumes pow: "\<And>j x. j < 64 \<Longrightarrow> gf_op poly (pow ! j) 32 x = (crc_step poly ^^ (2 ^ j)) x"
  shows "i \<le> 64 \<Longrightarrow> k < 2 ^ (64 - i) \<Longrightarrow> (\<And>x. gf_op poly r 32 x = (crc_step poly ^^ m) x) \<Longrightarrow>
    gf_op poly (crc32_shift_loop pow poly i k r) 32 x = (crc_step poly ^^ (m + k * 2 ^ i)) x"
proof (induction k arbitrary: i r m x rule: less_induct)
  case (less k)
  show ?case
  proof (cases "k = 0")
    case True
    then show ?thesis using less.prems by (subst crc32_shift_loop.simps) simp
  next
    case False
    then have i: "i < 64" using less.prems(1,2) by (cases "i = 64") auto
    have k: "k div 2 < 2 ^ (64 - (i + 1))"
    proof -
      have "64 - i = Suc (64 - (i + 1))" using i by simp
      then show ?thesis using less.prems(2) by (simp add: less_mult_imp_div_less mult.commute)
    qed
    define r' where "r' = (if odd k then crc32_gf_mul r (pow ! i) poly else r)"
    define m' where "m' = (if odd k then 2 ^ i + m else m)"
    have r': "gf_op poly r' 32 x = (crc_step poly ^^ m') x" for x
      using gf_mul_compose [OF less.prems(3) pow [OF i]] less.prems(3) by (simp add: r'_def m'_def)
    have "gf_op poly (crc32_shift_loop pow poly i k r) 32 x = gf_op poly (crc32_shift_loop pow poly (i + 1) (k div 2) r') 32 x"
      using False by (subst crc32_shift_loop.simps) (simp only: r'_def if_False)
    also have "\<dots> = (crc_step poly ^^ (m' + k div 2 * 2 ^ (i + 1))) x"
      using less.IH [of "k div 2" "i + 1" r' m'] False i k r' by simp
    also have "m' + k div 2 * 2 ^ (i + 1) = m + k * 2 ^ i"
    proof -
      have "k = 2 * (k div 2) + of_bool (odd k)" by simp
      then have "k * 2 ^ i = k div 2 * 2 ^ (i + 1) + of_bool (odd k) * 2 ^ i"
        by (metis add_mult_distrib mult.assoc mult.commute power_Suc Suc_eq_plus1)
      then show ?thesis by (simp add: m'_def)
    qed
    finally show ?thesis .
  qed
qed

lemma crc32_shift_eq:
  assumes "\<And>j x. j < 64 \<Longrightarrow> gf_op poly (pow ! j) 32 x = (crc_step poly ^^ (2 ^ j)) x" "n < 2 ^ 61"
  shows "crc32_shift crc n pow poly = (crc_step poly ^^ (8 * n)) crc"
proof -
  have "n * 8 mod 2 ^ 64 = n * 8" using assms(2) by simp
  moreover have "gf_op poly 0x80000000 32 x = (crc_step poly ^^ 0) x" for x
    using gf_op_one_bit [of 0 poly x] by simp
  ultimately show ?thesis
    using crc32_shift_loop_op [OF assms(1), of 0 "n * 8" "0x80000000" 0 crc] assms(2)
    by (simp add: crc32_shift_def crc32_gf_mul_op mult.commute)
qed

text \<open>Each entry of a table of powers is the square of the one before.\<close>

fun crc_pow_list :: "u32 \<Rightarrow> u32 list \<Rightarrow> bool" where
  "crc_pow_list poly (x # y # ys) \<longleftrightarrow> y = crc32_gf_mul x x poly \<and> crc_pow_list poly (y # ys)"
| "crc_pow_list poly _ \<longleftrightarrow> True"

lemma crc_pow_list_op:
  "crc_pow_list poly (x # xs) \<Longrightarrow> j \<le> length xs \<Longrightarrow> (\<And>w. gf_op poly x 32 w = (crc_step poly ^^ m) w) \<Longrightarrow>
    gf_op poly ((x # xs) ! j) 32 w = (crc_step poly ^^ (m * 2 ^ j)) w"
proof (induction xs arbitrary: x m j w)
  case (Cons y ys)
  show ?case
  proof (cases j)
    case 0
    then show ?thesis using Cons.prems(3) by simp
  next
    case (Suc i)
    have y: "y = crc32_gf_mul x x poly" "crc_pow_list poly (y # ys)" using Cons.prems(1) by auto
    have "gf_op poly y 32 w = (crc_step poly ^^ (m + m)) w" for w
      unfolding y(1) by (rule gf_mul_compose) (rule Cons.prems(3))+
    from Cons.IH [OF y(2) _ this, of i w] show ?thesis using Cons.prems(2) Suc
      by (simp add: mult_2 [symmetric] mult.assoc mult.left_commute)
  qed
qed simp

lemma gf_mul_loop_numeral [simp]:
  "gf_mul_loop poly (numeral k) a b r =
    gf_mul_loop poly (pred_numeral k) (crc_step poly a) (push_bit 1 b) (if b AND 0x80000000 \<noteq> 0 then r XOR a else r)"
  by (simp add: numeral_eq_Suc)

lemma crc32c_pow_list: "crc_pow_list 0x82F63B78 crc32c_pow"
  by (simp add: crc32c_pow_def crc32_gf_mul_def crc_step_def)

lemma crc32_ieee_pow_list: "crc_pow_list 0xEDB88320 crc32_ieee_pow"
  by (simp add: crc32_ieee_pow_def crc32_gf_mul_def crc_step_def)

lemma crc_pow_ok:
  assumes "crc_pow_list poly pow" "length pow = 64" "pow ! 0 = 0x40000000" "j < 64"
  shows "gf_op poly (pow ! j) 32 x = (crc_step poly ^^ (2 ^ j)) x"
proof -
  obtain p ps where p: "pow = p # ps" using assms(2) by (cases pow) simp_all
  have "gf_op poly p 32 w = (crc_step poly ^^ 1) w" for w
    using gf_op_one_bit [of 1 poly w] assms(3) p by simp
  then show ?thesis using crc_pow_list_op [of poly p ps j 1 x] assms p by simp
qed

text \<open>What the code relies on of the CRC instructions: they feed the little-endian bytes of their
  operand to the register, least significant byte first.\<close>

definition crc_ins_ok :: "u32 \<Rightarrow> crc_ins \<Rightarrow> bool" where
  "crc_ins_ok poly ins \<longleftrightarrow>
     (\<forall>c b. crc_u8 ins c b = crc_byte poly c b) \<and>
     (\<forall>c bs. length bs = 2 \<longrightarrow> crc_u16 ins c (of_nat (mem_le bs)) = foldl (crc_byte poly) c bs) \<and>
     (\<forall>c bs. length bs = 4 \<longrightarrow> crc_u32 ins c (of_nat (mem_le bs)) = foldl (crc_byte poly) c bs) \<and>
     (\<forall>c bs. length bs = 8 \<longrightarrow> crc_u64 ins c (of_nat (mem_le bs)) = foldl (crc_byte poly) c bs)"

lemma hw_lanes_eq:
  assumes "crc_ins_ok poly ins"
  shows "8 * k \<le> length p0 \<Longrightarrow> 8 * k \<le> length p1 \<Longrightarrow> 8 * k \<le> length p2 \<Longrightarrow>
    hw_lanes ins k p0 p1 p2 (c0, c1, c2) =
      (foldl (crc_byte poly) c0 (take (8 * k) p0), foldl (crc_byte poly) c1 (take (8 * k) p1),
       foldl (crc_byte poly) c2 (take (8 * k) p2))"
proof (induction k arbitrary: p0 p1 p2 c0 c1 c2)
  case (Suc k)
  have "8 * Suc k = 8 + 8 * k" by simp
  then have t: "take (8 * Suc k) p = take 8 p @ take (8 * k) (drop 8 p)" for p :: bytes by (simp only: take_add)
  have "crc_u64 ins c (of_nat (mem_le (take 8 p))) = foldl (crc_byte poly) c (take 8 p)" if "8 * Suc k \<le> length p" for c p
    using assms that by (simp add: crc_ins_ok_def)
  then show ?case using Suc by (simp only: hw_lanes.simps t foldl_append) simp
qed simp

lemma hw_words_eq:
  assumes "crc_ins_ok poly ins" "hw_words ins c d = (c', d')"
  shows "foldl (crc_byte poly) c d = foldl (crc_byte poly) c' d' \<and> length d' < 8"
  using assms(2)
proof (induction d arbitrary: c rule: length_induct)
  case (1 d)
  show ?case
  proof (cases "8 \<le> length d")
    case True
    then have "hw_words ins (foldl (crc_byte poly) c (take 8 d)) (drop 8 d) = (c', d')"
      using 1(2) assms(1) by (subst (asm) hw_words.simps) (simp add: crc_ins_ok_def)
    moreover have "length (drop 8 d) < length d" using True by simp
    ultimately have "foldl (crc_byte poly) (foldl (crc_byte poly) c (take 8 d)) (drop 8 d) = foldl (crc_byte poly) c' d' \<and> length d' < 8"
      using 1(1) by blast
    then show ?thesis by (metis append_take_drop_id foldl_append)
  next
    case False
    then show ?thesis using 1(2) by (subst (asm) hw_words.simps) simp
  qed
qed

lemma crc_fold_take_drop: "foldl (crc_byte poly) (foldl (crc_byte poly) c (take n d)) (drop n d) = foldl (crc_byte poly) c d"
  by (metis append_take_drop_id foldl_append)

text \<open>Three lanes over thirds of the input, combined by two shifts.\<close>

lemma crc_three_lanes:
  assumes pow: "\<And>j x. j < 64 \<Longrightarrow> gf_op poly (pow ! j) 32 x = (crc_step poly ^^ (2 ^ j)) x"
    and d: "3 * n \<le> length d" "length d < 2 ^ 61"
  shows "crc32_shift (crc32_shift (foldl (crc_byte poly) c (take n d)) n pow poly XOR
      foldl (crc_byte poly) 0 (take n (drop n d))) n pow poly XOR
      foldl (crc_byte poly) 0 (take n (drop (2 * n) d)) = foldl (crc_byte poly) c (take (3 * n) d)"
proof -
  have n: "n < 2 ^ 61" using d by simp
  have two: "2 * n = n + n" and three: "3 * n = n + n + n" by simp_all
  have len: "length (take n (drop n d)) = n" "length (take n (drop (n + n) d)) = n" using d by simp_all
  have t: "take (n + n + n) d = (take n d @ take n (drop n d)) @ take n (drop (n + n) d)"
    by (simp only: take_add)
  have shift: "crc32_shift x n pow poly = (crc_step poly ^^ (8 * n)) x" for x
    by (rule crc32_shift_eq) (use pow n in auto)
  show ?thesis
    unfolding three t two crc_fold_append len shift by (rule refl)
qed

lemma hw_head_eq:
  assumes ins: "crc_ins_ok poly ins"
    and pow: "\<And>j x. j < 64 \<Longrightarrow> gf_op poly (pow ! j) 32 x = (crc_step poly ^^ (2 ^ j)) x"
    and d: "length d < 2 ^ 61"
  shows "(case hw_head ins pow poly d of (c, d') \<Rightarrow> foldl (crc_byte poly) c d') = foldl (crc_byte poly) 0xFFFFFFFF d"
proof (cases "3 * 64 \<le> length d")
  case True
  define n where "n = length d div 3 div 8 * 8"
  have "n \<le> length d div 3" unfolding n_def by (rule div_times_less_eq_dividend)
  then have n: "3 * n \<le> length d" "8 * (n div 8) = n" by (simp_all add: n_def)
  have "hw_lanes ins (n div 8) d (drop n d) (drop (2 * n) d) (0xFFFFFFFF, 0, 0) =
      (foldl (crc_byte poly) 0xFFFFFFFF (take n d), foldl (crc_byte poly) 0 (take n (drop n d)),
       foldl (crc_byte poly) 0 (take n (drop (2 * n) d)))"
    using hw_lanes_eq [OF ins, of "n div 8" d "drop n d" "drop (2 * n) d"] n by simp
  then have "hw_head ins pow poly d = (foldl (crc_byte poly) 0xFFFFFFFF (take (3 * n) d), drop (3 * n) d)"
    using True crc_three_lanes [OF pow n(1) d, of "0xFFFFFFFF"] by (simp add: hw_head_def n_def [symmetric] Let_def)
  then show ?thesis by (simp add: crc_fold_take_drop)
qed (simp add: hw_head_def)

lemma hw_tail_eq:
  assumes ins: "crc_ins_ok poly ins" and d: "length d < 8"
  shows "hw_tail ins c d = foldl (crc_byte poly) c d"
proof -
  have four: "crc_u32 ins c (of_nat (mem_le (take 4 d))) = foldl (crc_byte poly) c (take 4 d)" if "4 \<le> length d" for c d
    using ins that by (simp add: crc_ins_ok_def)
  have two: "crc_u16 ins c (of_nat (mem_le (take 2 d))) = foldl (crc_byte poly) c (take 2 d)" if "2 \<le> length d" for c d
    using ins that by (simp add: crc_ins_ok_def)
  have one: "(if d \<noteq> [] then crc_u8 ins c (d ! 0) else c) = foldl (crc_byte poly) c d" if "length d < 2" for c d
    using ins that by (cases d) (auto simp: crc_ins_ok_def)
  have low: "(let (c, d) = (if 2 \<le> length d then (crc_u16 ins c (of_nat (mem_le (take 2 d))), drop 2 d) else (c, d))
      in if d \<noteq> [] then crc_u8 ins c (d ! 0) else c) = foldl (crc_byte poly) c d" if "length d < 4" for c d
    using that one [of d c] one [of "drop 2 d" "foldl (crc_byte poly) c (take 2 d)"] two [of d c] crc_fold_take_drop [of poly c 2 d]
    by (cases "2 \<le> length d") simp_all
  show ?thesis
    using d low [of d c] low [of "drop 4 d" "foldl (crc_byte poly) c (take 4 d)"] four [of d c] crc_fold_take_drop [of poly c 4 d]
    unfolding hw_tail_def by (cases "4 \<le> length d") simp_all
qed

lemma crc32_hw_eq:
  assumes ins: "crc_ins_ok poly ins"
    and pow: "\<And>j x. j < 64 \<Longrightarrow> gf_op poly (pow ! j) 32 x = (crc_step poly ^^ (2 ^ j)) x"
    and d: "length d < 2 ^ 61"
  shows "crc32_hw ins pow poly d = dyn_crc32_bitwise d poly"
proof -
  obtain c1 d1 where head: "hw_head ins pow poly d = (c1, d1)" by fastforce
  obtain c2 d2 where words: "hw_words ins c1 d1 = (c2, d2)" by fastforce
  have "foldl (crc_byte poly) 0xFFFFFFFF d = foldl (crc_byte poly) c1 d1"
    using hw_head_eq [OF ins pow d] head by simp
  also have "\<dots> = foldl (crc_byte poly) c2 d2" using hw_words_eq [OF ins words] by simp
  also have "\<dots> = hw_tail ins c2 d2" using hw_tail_eq [OF ins] hw_words_eq [OF ins words] by simp
  finally show ?thesis by (simp add: crc32_hw_def dyn_crc32_bitwise_def head words)
qed


subsection \<open>Instructions that satisfy the contract\<close>

definition sw_ins :: "u32 \<Rightarrow> crc_ins" where
  "sw_ins poly = \<lparr>crc_u8 = crc_byte poly,
     crc_u16 = (\<lambda>c v. foldl (crc_byte poly) c (le_bytes 2 (unat v))),
     crc_u32 = (\<lambda>c v. foldl (crc_byte poly) c (le_bytes 4 (unat v))),
     crc_u64 = (\<lambda>c v. foldl (crc_byte poly) c (le_bytes 8 (unat v)))\<rparr>"

lemma mem_le_less: "mem_le bs < 256 ^ length bs"
proof (induction bs)
  case (Cons b bs)
  then show ?case using unat8_less [of b] by simp
qed simp

lemma mem_le_byte: "i < length bs \<Longrightarrow> of_nat (mem_le bs div 256 ^ i) = bs ! i"
proof (induction bs arbitrary: i)
  case (Cons b bs)
  show ?case
  proof (cases i)
    case 0
    then show ?thesis using of_nat_mod256 [of "unat b + 256 * mem_le bs"] by (simp add: unat8_less del: of_nat_add)
  next
    case (Suc j)
    have "mem_le (b # bs) div 256 = mem_le bs" using unat8_less [of b] by simp
    then have "mem_le (b # bs) div 256 ^ i = mem_le bs div 256 ^ j" by (simp only: Suc power_Suc div_mult2_eq)
    then show ?thesis using Cons Suc by simp
  qed
qed simp

lemma le_bytes_mem_le: "le_bytes (length bs) (mem_le bs) = bs"
  by (intro nth_equalityI) (simp_all add: le_bytes_def mem_le_byte)

lemma sw_ins_ok: "crc_ins_ok poly (sw_ins poly)"
proof -
  have "unat (of_nat (mem_le bs) :: 16 word) = mem_le bs" if "length bs = 2" for bs
    using mem_le_less [of bs] that by (simp add: unsigned_of_nat take_bit_nat_eq_self)
  moreover have "unat (of_nat (mem_le bs) :: u32) = mem_le bs" if "length bs = 4" for bs
    using mem_le_less [of bs] that by (simp add: unsigned_of_nat take_bit_nat_eq_self)
  moreover have "unat (of_nat (mem_le bs) :: u64) = mem_le bs" if "length bs = 8" for bs
    using mem_le_less [of bs] that by (simp add: unsigned_of_nat take_bit_nat_eq_self)
  ultimately show ?thesis using le_bytes_mem_le by (simp add: crc_ins_ok_def sw_ins_def) metis
qed

lemma crc32c_hw_eq:
  assumes "crc_ins_ok DYN_CRC32C_POLY ins" "length data < 2 ^ 61"
  shows "crc32c_hw ins data = dyn_crc32_bitwise data DYN_CRC32C_POLY"
proof -
  have len: "length crc32c_pow = 64" "crc32c_pow ! 0 = 0x40000000" by (simp_all add: crc32c_pow_def)
  have "crc32_hw ins crc32c_pow DYN_CRC32C_POLY data = dyn_crc32_bitwise data DYN_CRC32C_POLY"
    by (rule crc32_hw_eq) (use assms crc_pow_ok [OF crc32c_pow_list len] in auto)
  then show ?thesis by (simp add: crc32c_hw_def)
qed

lemma crc32_ieee_hw_eq:
  assumes "crc_ins_ok DYN_CRC32_POLY ins" "length data < 2 ^ 61"
  shows "crc32_ieee_hw ins data = dyn_crc32_bitwise data DYN_CRC32_POLY"
proof -
  have len: "length crc32_ieee_pow = 64" "crc32_ieee_pow ! 0 = 0x40000000" by (simp_all add: crc32_ieee_pow_def)
  have "crc32_hw ins crc32_ieee_pow DYN_CRC32_POLY data = dyn_crc32_bitwise data DYN_CRC32_POLY"
    by (rule crc32_hw_eq) (use assms crc_pow_ok [OF crc32_ieee_pow_list len] in auto)
  then show ?thesis by (simp add: crc32_ieee_hw_def)
qed

lemmas crc32_soft = dyn_crc32_slice8_eq [OF crc32_ieee_s8_ok] dyn_crc32_slice8_eq [OF crc32c_s8_ok]

subsection \<open>Properties\<close>

text \<open>C39. The table-driven CRC, which consumes eight bytes per step through eight tables of 256 entries,
  computes the bit-by-bit CRC on every input, for both polynomials: all 4096 table entries are right.\<close>

theorem dyn_crc32_slice8_bitwise:
  "dyn_crc32_slice8 data crc32_ieee_s8 = dyn_crc32_bitwise data DYN_CRC32_POLY \<and>
   dyn_crc32_slice8 data crc32c_s8 = dyn_crc32_bitwise data DYN_CRC32C_POLY"
  by (simp add: crc32_soft)

text \<open>C38. On a processor whose CRC instructions behave as documented, the three-lane hardware paths, which
  combine their lanes by multiplication with a power of \<open>x\<close> taken from a table of squares, compute the
  bit-by-bit CRC on every input of fewer than \<open>2 ^ 61\<close> bytes.\<close>

theorem crc32_hw_bitwise:
  assumes "crc_ins_ok DYN_CRC32C_POLY ins_c" "crc_ins_ok DYN_CRC32_POLY ins_ieee" "length data < 2 ^ 61"
  shows "crc32c_hw ins_c data = dyn_crc32_bitwise data DYN_CRC32C_POLY \<and>
    crc32_ieee_hw ins_ieee data = dyn_crc32_bitwise data DYN_CRC32_POLY"
  using crc32c_hw_eq [OF assms(1,3)] crc32_ieee_hw_eq [OF assms(2,3)] by simp

theorem crc32_hw_bitwise_witness:
  "crc_ins_ok DYN_CRC32C_POLY (sw_ins DYN_CRC32C_POLY) \<and> crc_ins_ok DYN_CRC32_POLY (sw_ins DYN_CRC32_POLY) \<and>
   crc32c_hw (sw_ins DYN_CRC32C_POLY) (replicate 200 7) = dyn_crc32_bitwise (replicate 200 7) DYN_CRC32C_POLY"
  using crc32_hw_bitwise [OF sw_ins_ok sw_ins_ok, of "replicate 200 7"] sw_ins_ok by simp

text \<open>The public entry points agree whatever the processor offers: \<open>dyn_crc32c\<close>, \<open>dyn_crc32\<close> and
  \<open>dyn_crc32_poly\<close> return the bit-by-bit CRC on the software and on the hardware path.\<close>

theorem dyn_crc32_dispatch:
  assumes "case hw of None \<Rightarrow> True | Some ins \<Rightarrow> crc_ins_ok poly ins" "length data < 2 ^ 61"
  shows "(poly = DYN_CRC32C_POLY \<longrightarrow> dyn_crc32c hw data = dyn_crc32_bitwise data poly) \<and>
    (poly = DYN_CRC32_POLY \<longrightarrow> dyn_crc32 hw data = dyn_crc32_bitwise data poly) \<and>
    dyn_crc32_poly hw data poly = dyn_crc32_bitwise data poly"
proof -
  have "dyn_crc32c hw data = dyn_crc32_bitwise data poly" if "poly = DYN_CRC32C_POLY"
    using that assms crc32c_hw_eq by (cases hw) (simp_all add: dyn_crc32c_def crc32_soft)
  moreover have "dyn_crc32 hw data = dyn_crc32_bitwise data poly" if "poly = DYN_CRC32_POLY"
    using that assms crc32_ieee_hw_eq by (cases hw) (simp_all add: dyn_crc32_def crc32_soft)
  ultimately show ?thesis by (simp add: dyn_crc32_poly_def crc32_soft)
qed

theorem dyn_crc32_dispatch_witness:
  "dyn_crc32c (Some (sw_ins DYN_CRC32C_POLY)) (replicate 200 7) = dyn_crc32c None (replicate 200 7)"
  using dyn_crc32_dispatch [of DYN_CRC32C_POLY "Some (sw_ins DYN_CRC32C_POLY)" "replicate 200 7"]
    dyn_crc32_dispatch [of DYN_CRC32C_POLY None "replicate 200 7"] sw_ins_ok by simp

end
