(* ===== verification/Sha2.thy ===== *)
theory Sha2
  imports HashWords
begin

text \<open>
  SHA-224, SHA-256, SHA-384 and SHA-512 of \<open>src/core/dyn-hash.c\<close>: round constants, initial states, compression
  functions and digest extraction. SHA-256 blocks have three implementations, chosen by the build and by the
  processor: portable C, the ARMv8 instructions and the x86 SHA extensions. The union \<open>dyn_hash_state_t\<close> is
  the list of the words an algorithm uses.
\<close>

datatype dyn_hash_state = W32 "u32 list" | W64 "u64 list"

primrec w32 :: "dyn_hash_state \<Rightarrow> u32 list" where
  "w32 (W32 ws) = ws"
| "w32 (W64 ws) = []"

primrec w64 :: "dyn_hash_state \<Rightarrow> u64 list" where
  "w64 (W32 ws) = []"
| "w64 (W64 ws) = ws"

subsection \<open>Round constants\<close>

text \<open>
  The arrays \<open>sha256_K\<close> and \<open>sha512_K\<close> of the source list the published constants. Here the same numbers are
  computed in integer arithmetic: the integer cube root of \<open>p * 2 ^ (3 * w)\<close> for the first primes \<open>p\<close>,
  of which the word keeps the low \<open>w\<close> bits. The root is found bit by bit.
\<close>

fun icbrt :: "nat \<Rightarrow> nat \<Rightarrow> nat \<Rightarrow> nat" where
  "icbrt n 0 r = r"
| "icbrt n (Suc k) r = (let q = r + 2 ^ k in icbrt n k (if q * q * q \<le> n then q else r))"

definition primes_below :: "nat \<Rightarrow> nat list" where
  "primes_below m = filter (\<lambda>n. \<forall>d \<in> set [2..<n]. n mod d \<noteq> 0) [2..<m]"

definition sha256_K :: "u32 list" where
  "sha256_K = map (\<lambda>p. of_nat (icbrt (p * 2 ^ 96) 35 0)) (primes_below 312)"

definition sha512_K :: "u64 list" where
  "sha512_K = map (\<lambda>p. of_nat (icbrt (p * 2 ^ 192) 67 0)) (primes_below 410)"

subsection \<open>SHA-224 and SHA-256 in portable C\<close>

definition sha256_init :: dyn_hash_state where
  "sha256_init = W32 [0x6a09e667, 0xbb67ae85, 0x3c6ef372, 0xa54ff53a, 0x510e527f, 0x9b05688c, 0x1f83d9ab, 0x5be0cd19]"

definition sha224_init :: dyn_hash_state where
  "sha224_init = W32 [0xc1059ed8, 0x367cd507, 0x3070dd17, 0xf70e5939, 0xffc00b31, 0x68581511, 0x64f98fa7, 0xbefa4fa4]"

text \<open>The round macro assigns to its arguments \<open>d\<close> and \<open>h\<close>; the model returns their new values.\<close>

definition DYN_SHA256_R :: "u32 \<Rightarrow> u32 \<Rightarrow> u32 \<Rightarrow> u32 \<Rightarrow> u32 \<Rightarrow> u32 \<Rightarrow> u32 \<Rightarrow> u32 \<Rightarrow> u32 \<Rightarrow> u32 \<Rightarrow> u32 \<times> u32" where
  "DYN_SHA256_R a b c d e f g h k w =
     (let S1 = rotr32 e 6 XOR rotr32 e 11 XOR rotr32 e 25;
          ch = g XOR (e AND (f XOR g));
          t1 = h + S1 + ch + k + w;
          S0 = rotr32 a 2 XOR rotr32 a 13 XOR rotr32 a 22;
          mj = (a AND b) OR (c AND (a OR b))
      in (d + t1, t1 + S0 + mj))"

definition sha256_schedule :: "bytes \<Rightarrow> u32 list" where
  "sha256_schedule block =
     foldl (\<lambda>w i.
         let s0 = rotr32 (w ! (i - 15)) 7 XOR rotr32 (w ! (i - 15)) 18 XOR drop_bit 3 (w ! (i - 15));
             s1 = rotr32 (w ! (i - 2)) 17 XOR rotr32 (w ! (i - 2)) 19 XOR drop_bit 10 (w ! (i - 2))
         in w @ [w ! (i - 16) + s0 + w ! (i - 7) + s1])
       (map (\<lambda>i. load_be32 (drop (i * 4) block)) [0..<16]) [16..<64]"

type_synonym sha256_vars = "u32 \<times> u32 \<times> u32 \<times> u32 \<times> u32 \<times> u32 \<times> u32 \<times> u32"

text \<open>Eight rounds, the body of the loop of \<open>sha256_compress_sw\<close>.\<close>

definition sha256_eight :: "u32 list \<Rightarrow> sha256_vars \<Rightarrow> nat \<Rightarrow> sha256_vars" where
  "sha256_eight w = (\<lambda>(a, b, c, d, e, f, g, h) i.
     let (d, h) = DYN_SHA256_R a b c d e f g h (sha256_K ! (i + 0)) (w ! (i + 0));
         (c, g) = DYN_SHA256_R h a b c d e f g (sha256_K ! (i + 1)) (w ! (i + 1));
         (b, f) = DYN_SHA256_R g h a b c d e f (sha256_K ! (i + 2)) (w ! (i + 2));
         (a, e) = DYN_SHA256_R f g h a b c d e (sha256_K ! (i + 3)) (w ! (i + 3));
         (h, d) = DYN_SHA256_R e f g h a b c d (sha256_K ! (i + 4)) (w ! (i + 4));
         (g, c) = DYN_SHA256_R d e f g h a b c (sha256_K ! (i + 5)) (w ! (i + 5));
         (f, b) = DYN_SHA256_R c d e f g h a b (sha256_K ! (i + 6)) (w ! (i + 6));
         (e, a) = DYN_SHA256_R b c d e f g h a (sha256_K ! (i + 7)) (w ! (i + 7))
     in (a, b, c, d, e, f, g, h))"

definition sha256_compress_sw :: "dyn_hash_state \<Rightarrow> bytes \<Rightarrow> dyn_hash_state" where
  "sha256_compress_sw s block =
     (let v = w32 s;
          (a, b, c, d, e, f, g, h) =
            foldl (sha256_eight (sha256_schedule block))
              (v ! 0, v ! 1, v ! 2, v ! 3, v ! 4, v ! 5, v ! 6, v ! 7) (map (\<lambda>n. 8 * n) [0..<8])
      in W32 [v ! 0 + a, v ! 1 + b, v ! 2 + c, v ! 3 + d, v ! 4 + e, v ! 5 + f, v ! 6 + g, v ! 7 + h])"

subsection \<open>SHA-256 with the ARMv8 instructions\<close>

text \<open>
  A vector register of four 32-bit lanes, lane 0 first. The instructions with lane-wise arithmetic are
  modelled directly; the cryptographic ones are parameters of the model, with what the architecture manual
  says of them as the contract \<open>arm_sha_ok\<close> of the correctness theory.
\<close>

type_synonym quad = "u32 \<times> u32 \<times> u32 \<times> u32"

fun quad_add :: "quad \<Rightarrow> quad \<Rightarrow> quad" where
  "quad_add (a, b, c, d) (a', b', c', d') = (a + a', b + b', c + c', d + d')"

definition quad_of :: "u32 list \<Rightarrow> nat \<Rightarrow> quad" where
  "quad_of ws i = (ws ! i, ws ! (i + 1), ws ! (i + 2), ws ! (i + 3))"

text \<open>Sixteen bytes loaded with the bytes of every lane reversed, as both variants load the block.\<close>

definition quad_be :: "bytes \<Rightarrow> nat \<Rightarrow> quad" where
  "quad_be p i = (load_be32 (drop i p), load_be32 (drop (i + 4) p), load_be32 (drop (i + 8) p), load_be32 (drop (i + 12) p))"

record arm_sha =
  vsha256hq_u32 :: "quad \<Rightarrow> quad \<Rightarrow> quad \<Rightarrow> quad"
  vsha256h2q_u32 :: "quad \<Rightarrow> quad \<Rightarrow> quad \<Rightarrow> quad"
  vsha256su0q_u32 :: "quad \<Rightarrow> quad \<Rightarrow> quad"
  vsha256su1q_u32 :: "quad \<Rightarrow> quad \<Rightarrow> quad \<Rightarrow> quad"

text \<open>The macro assigns to \<open>m0\<close> and to the variables \<open>abcd\<close> and \<open>efgh\<close> around it.\<close>

definition DYN_SHA256_QUAD :: "arm_sha \<Rightarrow> quad \<Rightarrow> quad \<Rightarrow> quad \<Rightarrow> quad \<Rightarrow> nat \<Rightarrow> bool \<Rightarrow> quad \<times> quad \<Rightarrow> quad \<times> quad \<times> quad" where
  "DYN_SHA256_QUAD ins m0 m1 m2 m3 kidx sched = (\<lambda>(abcd, efgh).
     let t = quad_add m0 (quad_of sha256_K kidx);
         s = abcd;
         m0 = (if sched then vsha256su0q_u32 ins m0 m1 else m0);
         abcd = vsha256hq_u32 ins abcd efgh t;
         efgh = vsha256h2q_u32 ins efgh s t;
         m0 = (if sched then vsha256su1q_u32 ins m0 m2 m3 else m0)
     in (m0, abcd, efgh))"

definition sha256_hw_loop :: "arm_sha \<Rightarrow> (quad \<times> quad \<times> quad \<times> quad) \<times> quad \<times> quad \<Rightarrow> nat \<Rightarrow> (quad \<times> quad \<times> quad \<times> quad) \<times> quad \<times> quad" where
  "sha256_hw_loop ins = (\<lambda>((w0, w1, w2, w3), h) i.
     let sched = i < 48;
         (w0, h) = DYN_SHA256_QUAD ins w0 w1 w2 w3 (i + 0) sched h;
         (w1, h) = DYN_SHA256_QUAD ins w1 w2 w3 w0 (i + 4) sched h;
         (w2, h) = DYN_SHA256_QUAD ins w2 w3 w0 w1 (i + 8) sched h;
         (w3, h) = DYN_SHA256_QUAD ins w3 w0 w1 w2 (i + 12) sched h
     in ((w0, w1, w2, w3), h))"

fun store_state :: "quad \<Rightarrow> quad \<Rightarrow> dyn_hash_state" where
  "store_state (a, b, c, d) (e, f, g, h) = W32 [a, b, c, d, e, f, g, h]"

definition sha256_compress_hw :: "arm_sha \<Rightarrow> dyn_hash_state \<Rightarrow> bytes \<Rightarrow> dyn_hash_state" where
  "sha256_compress_hw ins s block =
     (let abcd0 = quad_of (w32 s) 0;
          efgh0 = quad_of (w32 s) 4;
          ws = (quad_be block 0, quad_be block 16, quad_be block 32, quad_be block 48);
          (_, abcd, efgh) = foldl (sha256_hw_loop ins) (ws, abcd0, efgh0) [0, 16, 32, 48]
      in store_state (quad_add abcd0 abcd) (quad_add efgh0 efgh))"

subsection \<open>SHA-256 with the x86 SHA extensions\<close>

text \<open>
  The lane permutations are modelled for the shapes in use: \<open>_mm_shuffle_epi32\<close> with its two-bit lane numbers,
  \<open>_mm_alignr_epi8\<close> by whole lanes and \<open>_mm_blend_epi16\<close> with mask \<open>0xF0\<close>, which takes the upper two lanes
  from the second operand. The three SHA instructions are parameters, with the contract \<open>sha_ni_spec\<close>.
\<close>

fun quad_lane :: "quad \<Rightarrow> nat \<Rightarrow> u32" where
  "quad_lane (a, b, c, d) i = (if i = 0 then a else if i = 1 then b else if i = 2 then c else d)"

definition mm_shuffle_epi32 :: "quad \<Rightarrow> nat \<Rightarrow> quad" where
  "mm_shuffle_epi32 v imm =
     (quad_lane v (imm mod 4), quad_lane v (imm div 4 mod 4), quad_lane v (imm div 16 mod 4), quad_lane v (imm div 64 mod 4))"

fun quad_list :: "quad \<Rightarrow> u32 list" where
  "quad_list (a, b, c, d) = [a, b, c, d]"

definition mm_alignr_epi8 :: "quad \<Rightarrow> quad \<Rightarrow> nat \<Rightarrow> quad" where
  "mm_alignr_epi8 a b n = quad_of (quad_list b @ quad_list a) (n div 4)"

fun mm_blend_epi16_F0 :: "quad \<Rightarrow> quad \<Rightarrow> quad" where
  "mm_blend_epi16_F0 (a0, a1, a2, a3) (b0, b1, b2, b3) = (a0, a1, b2, b3)"

record sha_ni =
  mm_sha256rnds2_epu32 :: "quad \<Rightarrow> quad \<Rightarrow> quad \<Rightarrow> quad"
  mm_sha256msg1_epu32 :: "quad \<Rightarrow> quad \<Rightarrow> quad"
  mm_sha256msg2_epu32 :: "quad \<Rightarrow> quad \<Rightarrow> quad"

text \<open>The two instructions that run four rounds on \<open>state0\<close> and \<open>state1\<close>, which every group of rounds contains.\<close>

definition ni_rounds :: "sha_ni \<Rightarrow> quad \<Rightarrow> quad \<times> quad \<Rightarrow> quad \<times> quad" where
  "ni_rounds ins msg = (\<lambda>(state0, state1).
     let state1 = mm_sha256rnds2_epu32 ins state1 state0 msg;
         msg = mm_shuffle_epi32 msg 0x0E;
         state0 = mm_sha256rnds2_epu32 ins state0 state1 msg
     in (state0, state1))"

text \<open>
  The message computation between the two instructions does not touch the state, and they do not touch the
  message registers; the model runs the rounds first.
\<close>

definition DYN_SHA256_NI_QUAD :: "sha_ni \<Rightarrow> quad \<Rightarrow> quad \<Rightarrow> quad \<Rightarrow> nat \<Rightarrow> bool \<Rightarrow> quad \<times> quad \<Rightarrow> quad \<times> quad \<times> quad \<times> quad" where
  "DYN_SHA256_NI_QUAD ins a p n kidx sched st =
     (let st = ni_rounds ins (quad_add a (quad_of sha256_K kidx)) st;
          tmp = mm_alignr_epi8 a p 4;
          n = quad_add n tmp;
          n = mm_sha256msg2_epu32 ins n a;
          p = (if sched then mm_sha256msg1_epu32 ins p a else p)
      in (p, n, st))"

text \<open>The first sixteen rounds, which load the block, and the forty-eight that follow.\<close>

definition sha_ni_head :: "sha_ni \<Rightarrow> bytes \<Rightarrow> quad \<times> quad \<Rightarrow> (quad \<times> quad \<times> quad \<times> quad) \<times> quad \<times> quad" where
  "sha_ni_head ins block st =
     (let msg0 = quad_be block 0;
          st = ni_rounds ins (quad_add msg0 (quad_of sha256_K 0)) st;
          msg1 = quad_be block 16;
          st = ni_rounds ins (quad_add msg1 (quad_of sha256_K 4)) st;
          msg0 = mm_sha256msg1_epu32 ins msg0 msg1;
          msg2 = quad_be block 32;
          st = ni_rounds ins (quad_add msg2 (quad_of sha256_K 8)) st;
          msg1 = mm_sha256msg1_epu32 ins msg1 msg2;
          msg3 = quad_be block 48;
          st = ni_rounds ins (quad_add msg3 (quad_of sha256_K 12)) st;
          tmp = mm_alignr_epi8 msg3 msg2 4;
          msg0 = quad_add msg0 tmp;
          msg0 = mm_sha256msg2_epu32 ins msg0 msg3;
          msg2 = mm_sha256msg1_epu32 ins msg2 msg3
      in ((msg0, msg1, msg2, msg3), st))"

definition sha_ni_body :: "sha_ni \<Rightarrow> (quad \<times> quad \<times> quad \<times> quad) \<times> quad \<times> quad \<Rightarrow> quad \<times> quad" where
  "sha_ni_body ins = (\<lambda>((msg0, msg1, msg2, msg3), st).
     let (msg3, msg1, st) = DYN_SHA256_NI_QUAD ins msg0 msg3 msg1 16 True st;
         (msg0, msg2, st) = DYN_SHA256_NI_QUAD ins msg1 msg0 msg2 20 True st;
         (msg1, msg3, st) = DYN_SHA256_NI_QUAD ins msg2 msg1 msg3 24 True st;
         (msg2, msg0, st) = DYN_SHA256_NI_QUAD ins msg3 msg2 msg0 28 True st;
         (msg3, msg1, st) = DYN_SHA256_NI_QUAD ins msg0 msg3 msg1 32 True st;
         (msg0, msg2, st) = DYN_SHA256_NI_QUAD ins msg1 msg0 msg2 36 True st;
         (msg1, msg3, st) = DYN_SHA256_NI_QUAD ins msg2 msg1 msg3 40 True st;
         (msg2, msg0, st) = DYN_SHA256_NI_QUAD ins msg3 msg2 msg0 44 True st;
         (msg3, msg1, st) = DYN_SHA256_NI_QUAD ins msg0 msg3 msg1 48 True st;
         (msg0, msg2, st) = DYN_SHA256_NI_QUAD ins msg1 msg0 msg2 52 False st;
         (msg1, msg3, st) = DYN_SHA256_NI_QUAD ins msg2 msg1 msg3 56 False st;
         (msg2, msg0, st) = DYN_SHA256_NI_QUAD ins msg3 msg2 msg0 60 False st
     in st)"

definition sha256_compress_sha_ni :: "sha_ni \<Rightarrow> dyn_hash_state \<Rightarrow> bytes \<Rightarrow> dyn_hash_state" where
  "sha256_compress_sha_ni ins s block =
     (let tmp = quad_of (w32 s) 0;
          state1 = quad_of (w32 s) 4;
          tmp = mm_shuffle_epi32 tmp 0xB1;
          state1 = mm_shuffle_epi32 state1 0x1B;
          state0 = mm_alignr_epi8 tmp state1 8;
          state1 = mm_blend_epi16_F0 state1 tmp;
          abef_save = state0;
          cdgh_save = state1;
          (state0, state1) = sha_ni_body ins (sha_ni_head ins block (state0, state1));
          state0 = quad_add state0 abef_save;
          state1 = quad_add state1 cdgh_save;
          tmp = mm_shuffle_epi32 state0 0x1B;
          state1 = mm_shuffle_epi32 state1 0xB1;
          state0 = mm_blend_epi16_F0 tmp state1;
          state1 = mm_alignr_epi8 state1 tmp 8
      in store_state state0 state1)"

subsection \<open>Dispatch\<close>

text \<open>
  What the build and the processor offer: on x86 the flag is the answer of \<open>sha_ni_ok\<close>, which asks the
  processor once and remembers it.
\<close>

datatype sha2_cpu = SHA2_GENERIC | SHA2_ARM arm_sha | SHA2_X86 bool sha_ni

definition sha256_compress :: "sha2_cpu \<Rightarrow> dyn_hash_state \<Rightarrow> bytes \<Rightarrow> dyn_hash_state" where
  "sha256_compress T s block =
     (case T of
        SHA2_ARM ins \<Rightarrow> sha256_compress_hw ins s block
      | SHA2_X86 sha_ni_ok ins \<Rightarrow> if sha_ni_ok then sha256_compress_sha_ni ins s block else sha256_compress_sw s block
      | SHA2_GENERIC \<Rightarrow> sha256_compress_sw s block)"

definition sha256_extract :: "dyn_hash_state \<Rightarrow> bytes" where
  "sha256_extract s = concat (map (\<lambda>i. store_be32 (w32 s ! i)) [0..<8])"

definition sha224_extract :: "dyn_hash_state \<Rightarrow> bytes" where
  "sha224_extract s = concat (map (\<lambda>i. store_be32 (w32 s ! i)) [0..<7])"

subsection \<open>SHA-384 and SHA-512\<close>

definition sha512_init :: dyn_hash_state where
  "sha512_init = W64 [0x6a09e667f3bcc908, 0xbb67ae8584caa73b, 0x3c6ef372fe94f82b, 0xa54ff53a5f1d36f1,
     0x510e527fade682d1, 0x9b05688c2b3e6c1f, 0x1f83d9abfb41bd6b, 0x5be0cd19137e2179]"

definition sha384_init :: dyn_hash_state where
  "sha384_init = W64 [0xcbbb9d5dc1059ed8, 0x629a292a367cd507, 0x9159015a3070dd17, 0x152fecd8f70e5939,
     0x67332667ffc00b31, 0x8eb44a8768581511, 0xdb0c2e0d64f98fa7, 0x47b5481dbefa4fa4]"

definition DYN_SHA512_R :: "u64 \<Rightarrow> u64 \<Rightarrow> u64 \<Rightarrow> u64 \<Rightarrow> u64 \<Rightarrow> u64 \<Rightarrow> u64 \<Rightarrow> u64 \<Rightarrow> u64 \<Rightarrow> u64 \<Rightarrow> u64 \<times> u64" where
  "DYN_SHA512_R a b c d e f g h k w =
     (let S1 = rotr64 e 14 XOR rotr64 e 18 XOR rotr64 e 41;
          ch = g XOR (e AND (f XOR g));
          t1 = h + S1 + ch + k + w;
          S0 = rotr64 a 28 XOR rotr64 a 34 XOR rotr64 a 39;
          mj = (a AND b) OR (c AND (a OR b))
      in (d + t1, t1 + S0 + mj))"

definition sha512_schedule :: "bytes \<Rightarrow> u64 list" where
  "sha512_schedule block =
     foldl (\<lambda>w i.
         let s0 = rotr64 (w ! (i - 15)) 1 XOR rotr64 (w ! (i - 15)) 8 XOR drop_bit 7 (w ! (i - 15));
             s1 = rotr64 (w ! (i - 2)) 19 XOR rotr64 (w ! (i - 2)) 61 XOR drop_bit 6 (w ! (i - 2))
         in w @ [w ! (i - 16) + s0 + w ! (i - 7) + s1])
       (map (\<lambda>i. load_be64 (drop (i * 8) block)) [0..<16]) [16..<80]"

type_synonym sha512_vars = "u64 \<times> u64 \<times> u64 \<times> u64 \<times> u64 \<times> u64 \<times> u64 \<times> u64"

definition sha512_eight :: "u64 list \<Rightarrow> sha512_vars \<Rightarrow> nat \<Rightarrow> sha512_vars" where
  "sha512_eight w = (\<lambda>(a, b, c, d, e, f, g, h) i.
     let (d, h) = DYN_SHA512_R a b c d e f g h (sha512_K ! (i + 0)) (w ! (i + 0));
         (c, g) = DYN_SHA512_R h a b c d e f g (sha512_K ! (i + 1)) (w ! (i + 1));
         (b, f) = DYN_SHA512_R g h a b c d e f (sha512_K ! (i + 2)) (w ! (i + 2));
         (a, e) = DYN_SHA512_R f g h a b c d e (sha512_K ! (i + 3)) (w ! (i + 3));
         (h, d) = DYN_SHA512_R e f g h a b c d (sha512_K ! (i + 4)) (w ! (i + 4));
         (g, c) = DYN_SHA512_R d e f g h a b c (sha512_K ! (i + 5)) (w ! (i + 5));
         (f, b) = DYN_SHA512_R c d e f g h a b (sha512_K ! (i + 6)) (w ! (i + 6));
         (e, a) = DYN_SHA512_R b c d e f g h a (sha512_K ! (i + 7)) (w ! (i + 7))
     in (a, b, c, d, e, f, g, h))"

definition sha512_compress :: "dyn_hash_state \<Rightarrow> bytes \<Rightarrow> dyn_hash_state" where
  "sha512_compress s block =
     (let v = w64 s;
          (a, b, c, d, e, f, g, h) =
            foldl (sha512_eight (sha512_schedule block))
              (v ! 0, v ! 1, v ! 2, v ! 3, v ! 4, v ! 5, v ! 6, v ! 7) (map (\<lambda>n. 8 * n) [0..<10])
      in W64 [v ! 0 + a, v ! 1 + b, v ! 2 + c, v ! 3 + d, v ! 4 + e, v ! 5 + f, v ! 6 + g, v ! 7 + h])"

definition sha512_extract :: "dyn_hash_state \<Rightarrow> bytes" where
  "sha512_extract s = concat (map (\<lambda>i. store_be64 (w64 s ! i)) [0..<8])"

definition sha384_extract :: "dyn_hash_state \<Rightarrow> bytes" where
  "sha384_extract s = concat (map (\<lambda>i. store_be64 (w64 s ! i)) [0..<6])"

end
