(* ===== verification/Sha2Correct.thy ===== *)
theory Sha2Correct
  imports Sha2
begin

text \<open>
  Every implementation of the SHA-2 compression functions against FIPS 180-4: the round constants are the
  fractional parts of cube roots of primes, and the unrolled portable rounds, the ARMv8 code and the x86 code
  compute the message schedule and the rounds of the standard. For the processor instructions the theory
  states what the architecture manuals define.
\<close>

subsection \<open>Round constants\<close>

text \<open>FIPS 180-4, 4.2.2 and 4.2.3: the first \<open>w\<close> bits of the fractional part of the cube root of \<open>p\<close>.\<close>

definition cbrt_frac :: "nat \<Rightarrow> nat \<Rightarrow> nat" where
  "cbrt_frac w p = nat \<lfloor>frac (root 3 (real p)) * 2 ^ w\<rfloor>"

definition sha256_std_K :: "u32 list" where
  "sha256_std_K = map (\<lambda>p. of_nat (cbrt_frac 32 p)) (primes_below 312)"

definition sha512_std_K :: "u64 list" where
  "sha512_std_K = map (\<lambda>p. of_nat (cbrt_frac 64 p)) (primes_below 410)"

lemma primes_below_iff: "p \<in> set (primes_below m) \<longleftrightarrow> 1 < p \<and> p < m \<and> (\<forall>d. d dvd p \<longrightarrow> d = 1 \<or> d = p)"
proof -
  have "(\<forall>d \<in> set [2..<p]. p mod d \<noteq> 0) \<longleftrightarrow> (\<forall>d. d dvd p \<longrightarrow> d = 1 \<or> d = p)" if "1 < p"
  proof
    assume a: "\<forall>d \<in> set [2..<p]. p mod d \<noteq> 0"
    show "\<forall>d. d dvd p \<longrightarrow> d = 1 \<or> d = p"
    proof (intro allI impI)
      fix d assume "d dvd p"
      then have d: "d \<le> p" "d \<noteq> 0" "p mod d = 0" using that by (auto dest: dvd_imp_le intro!: Nat.gr0I)
      have "d \<notin> set [2..<p]" using bspec [OF a, of d] d(3) by (metis (no_types))
      then show "d = 1 \<or> d = p" using d(1,2) by auto
    qed
  qed (auto simp: dvd_eq_mod_eq_0 [symmetric])
  then show ?thesis by (auto simp: primes_below_def)
qed

lemma icbrt_bounds:
  assumes "r * r * r \<le> n" "n < (r + 2 ^ k) * (r + 2 ^ k) * (r + 2 ^ k)"
  shows "icbrt n k r * icbrt n k r * icbrt n k r \<le> n \<and> n < (icbrt n k r + 1) * (icbrt n k r + 1) * (icbrt n k r + 1)"
  using assms
proof (induction k arbitrary: r)
  case (Suc k)
  define q where "q = r + 2 ^ k"
  have q2: "q + 2 ^ k = r + 2 ^ Suc k" by (simp add: q_def)
  show ?case
  proof (cases "q * q * q \<le> n")
    case True
    then show ?thesis using Suc.IH [of q] Suc.prems(2) unfolding icbrt.simps Let_def q_def [symmetric] q2 [symmetric] by (simp only: if_True)
  next
    case False
    then show ?thesis using Suc.IH [of r] Suc.prems(1) unfolding icbrt.simps Let_def q_def [symmetric] if_not_P [OF False] not_le by blast
  qed
qed simp

lemma floor_root3:
  assumes "q * q * q \<le> p * 2 ^ (3 * w)" "p * 2 ^ (3 * w) < (q + 1) * (q + 1) * (q + 1)"
  shows "\<lfloor>root 3 (real p) * 2 ^ w\<rfloor> = int q"
proof -
  have cube: "root 3 (real (x * x * x)) = real x" for x
    using real_root_power_cancel [of 3 "real x"] by (simp add: power3_eq_cube)
  have e: "real (p * 2 ^ (3 * w)) = real p * (2 ^ w) ^ 3" by (simp add: power_mult [symmetric] mult.commute)
  have "root 3 ((2 ^ w) ^ 3) = (2 ^ w :: real)" by (rule real_root_power_cancel) simp_all
  then have r: "root 3 (real (p * 2 ^ (3 * w))) = root 3 (real p) * 2 ^ w"
    unfolding e by (simp only: real_root_mult)
  have "real q \<le> root 3 (real (p * 2 ^ (3 * w)))"
    using real_root_le_mono [of 3 "real (q * q * q)" "real (p * 2 ^ (3 * w))"] assms(1) cube [of q]
    by (simp only: of_nat_le_iff zero_less_numeral)
  moreover have "root 3 (real (p * 2 ^ (3 * w))) < real (q + 1)"
    using real_root_less_mono [of 3 "real (p * 2 ^ (3 * w))" "real ((q + 1) * (q + 1) * (q + 1))"] assms(2) cube [of "q + 1"]
    by (simp only: of_nat_less_iff zero_less_numeral)
  ultimately show ?thesis unfolding r by (intro floor_unique) simp_all
qed

lemma frac_floor: "\<lfloor>frac (x :: real) * 2 ^ w\<rfloor> = \<lfloor>x * 2 ^ w\<rfloor> mod 2 ^ w"
proof -
  have "frac x * 2 ^ w = x * 2 ^ w - real_of_int (\<lfloor>x\<rfloor> * 2 ^ w)" by (simp add: frac_def algebra_simps)
  then have e: "\<lfloor>frac x * 2 ^ w\<rfloor> = \<lfloor>x * 2 ^ w\<rfloor> - \<lfloor>x\<rfloor> * 2 ^ w" by (simp only: floor_diff_of_int)
  have "0 \<le> \<lfloor>frac x * 2 ^ w\<rfloor>" "\<lfloor>frac x * 2 ^ w\<rfloor> < 2 ^ w" using frac_lt_1 [of x] by (simp_all add: frac_ge_0 floor_less_iff)
  then have "\<lfloor>frac x * 2 ^ w\<rfloor> = \<lfloor>frac x * 2 ^ w\<rfloor> mod 2 ^ w" by simp
  also have "\<dots> = \<lfloor>x * 2 ^ w\<rfloor> mod 2 ^ w" unfolding e by (metis minus_mod_self2 mod_diff_right_eq mod_mult_self2_is_0 diff_zero)
  finally show ?thesis .
qed

lemma icbrt_frac:
  assumes "p * 2 ^ (3 * w) < 2 ^ k * 2 ^ k * 2 ^ k"
  shows "cbrt_frac w p = icbrt (p * 2 ^ (3 * w)) k 0 mod 2 ^ w"
proof -
  let ?q = "icbrt (p * 2 ^ (3 * w)) k 0"
  have "?q * ?q * ?q \<le> p * 2 ^ (3 * w) \<and> p * 2 ^ (3 * w) < (?q + 1) * (?q + 1) * (?q + 1)"
    using icbrt_bounds [of 0 "p * 2 ^ (3 * w)" k] assms by simp
  then have "\<lfloor>frac (root 3 (real p)) * 2 ^ w\<rfloor> = int ?q mod 2 ^ w" 
    using floor_root3 [of ?q p w] frac_floor [of "root 3 (real p)" w] by simp
  then show ?thesis unfolding cbrt_frac_def by (simp add: nat_mod_distrib nat_power_eq)
qed

lemma primes_below_less: "p \<in> set (primes_below m) \<Longrightarrow> p < m"
  by (simp add: primes_below_def)

lemma of_nat_mod_word: "of_nat (n mod 2 ^ LENGTH('a)) = (of_nat n :: 'a :: len word)"
  by (rule word_unat_eq_iff [THEN iffD2]) (simp add: unat_of_nat)

lemma sha256_K_std: "sha256_K = sha256_std_K"
  unfolding sha256_K_def sha256_std_K_def
proof (rule map_cong [OF refl])
  fix p assume "p \<in> set (primes_below 312)"
  then have "p * 2 ^ (3 * 32) < 2 ^ 35 * 2 ^ 35 * (2 ^ 35 :: nat)" using primes_below_less by fastforce
  then show "of_nat (icbrt (p * 2 ^ 96) 35 0) = (of_nat (cbrt_frac 32 p) :: u32)"
    using icbrt_frac [of p 32 35] of_nat_mod_word [of _, where 'a = 32] by simp
qed

lemma sha512_K_std: "sha512_K = sha512_std_K"
  unfolding sha512_K_def sha512_std_K_def
proof (rule map_cong [OF refl])
  fix p assume "p \<in> set (primes_below 410)"
  then have "p * 2 ^ (3 * 64) < 2 ^ 67 * 2 ^ 67 * (2 ^ 67 :: nat)" using primes_below_less by fastforce
  then show "of_nat (icbrt (p * 2 ^ 192) 67 0) = (of_nat (cbrt_frac 64 p) :: u64)"
    using icbrt_frac [of p 64 67] of_nat_mod_word [of _, where 'a = 64] by simp
qed

subsection \<open>The rounds of the standard\<close>

text \<open>FIPS 180-4, 4.1.2 and 6.2.2: the choice and majority functions and one round on the working
  variables \<open>a\<close> to \<open>h\<close>.\<close>

definition std_Ch :: "'a :: len word \<Rightarrow> 'a word \<Rightarrow> 'a word \<Rightarrow> 'a word" where
  "std_Ch x y z = (x AND y) XOR (NOT x AND z)"

definition std_Maj :: "'a :: len word \<Rightarrow> 'a word \<Rightarrow> 'a word \<Rightarrow> 'a word" where
  "std_Maj x y z = (x AND y) XOR (x AND z) XOR (y AND z)"

lemma std_Ch_eq: "std_Ch e f g = g XOR (e AND (f XOR g))"
  by (rule bit_word_eqI) (auto simp: std_Ch_def bit_simps)

lemma std_Maj_eq: "std_Maj a b c = (a AND b) OR (c AND (a OR b))"
  by (rule bit_word_eqI) (auto simp: std_Maj_def bit_simps)

lemma schedule_std:
  assumes "\<And>n. 16 \<le> n \<Longrightarrow> F (map W [0..<n]) n = W n" "i = map W [0..<16]" "16 \<le> m"
  shows "foldl (\<lambda>w n. w @ [F w n]) i [16..<m] = map W [0..<m]"
  using assms(3)
proof (induction m rule: dec_induct)
  case (step m)
  then show ?case using assms(1) [of m] by simp
qed (simp add: assms(2))

lemma upt_eight: "[0..<8 * Suc m] = [0..<8 * m] @ [8 * m, 8 * m + 1, 8 * m + 2, 8 * m + 3, 8 * m + 4, 8 * m + 5, 8 * m + 6, 8 * m + 7]"
proof -
  have "8 * Suc m = Suc (Suc (Suc (Suc (Suc (Suc (Suc (Suc (8 * m))))))))" by simp
  then have "[0..<8 * Suc m] = [0..<Suc (Suc (Suc (Suc (Suc (Suc (Suc (Suc (8 * m))))))))]" by (simp only:)
  then show ?thesis by (simp add: numeral_eq_Suc)
qed

definition std_S0 :: "u32 \<Rightarrow> u32" where
  "std_S0 x = rotr32 x 2 XOR rotr32 x 13 XOR rotr32 x 22"

definition std_S1 :: "u32 \<Rightarrow> u32" where
  "std_S1 x = rotr32 x 6 XOR rotr32 x 11 XOR rotr32 x 25"

definition std_s0 :: "u32 \<Rightarrow> u32" where
  "std_s0 x = rotr32 x 7 XOR rotr32 x 18 XOR drop_bit 3 x"

definition std_s1 :: "u32 \<Rightarrow> u32" where
  "std_s1 x = rotr32 x 17 XOR rotr32 x 19 XOR drop_bit 10 x"

fun sha256_std_W :: "bytes \<Rightarrow> nat \<Rightarrow> u32" where
  "sha256_std_W M t =
     (if t < 16 then load_be32 (drop (t * 4) M)
      else std_s1 (sha256_std_W M (t - 2)) + sha256_std_W M (t - 7) + std_s0 (sha256_std_W M (t - 15)) + sha256_std_W M (t - 16))"

declare sha256_std_W.simps [simp del]

lemma sha256_schedule_std: "sha256_schedule block = map (sha256_std_W block) [0..<64]"
  unfolding sha256_schedule_def Let_def
proof (rule schedule_std, goal_cases)
  case (1 t)
  then show ?case unfolding sha256_std_W.simps [of block t] by (simp add: std_s0_def std_s1_def ac_simps)
next
  case 2
  show ?case by (rule map_cong) (auto simp: sha256_std_W.simps [of block])
qed simp

text \<open>One round on the working variables, with the sum of constant and message word.\<close>

fun std_round :: "sha256_vars \<Rightarrow> u32 \<Rightarrow> sha256_vars" where
  "std_round (a, b, c, d, e, f, g, h) kw =
     (let T1 = h + std_S1 e + std_Ch e f g + kw;
          T2 = std_S0 a + std_Maj a b c
      in (T1 + T2, a, b, c, d + T1, e, f, g))"

definition sha256_std_round :: "u32 list \<Rightarrow> sha256_vars \<Rightarrow> nat \<Rightarrow> sha256_vars" where
  "sha256_std_round w x t = std_round x (sha256_std_K ! t + w ! t)"

definition sha256_std_compress :: "u32 list \<Rightarrow> bytes \<Rightarrow> u32 list" where
  "sha256_std_compress v block =
     (case foldl (sha256_std_round (map (sha256_std_W block) [0..<64])) (v ! 0, v ! 1, v ! 2, v ! 3, v ! 4, v ! 5, v ! 6, v ! 7) [0..<64] of
        (a, b, c, d, e, f, g, h) \<Rightarrow>
          [v ! 0 + a, v ! 1 + b, v ! 2 + c, v ! 3 + d, v ! 4 + e, v ! 5 + f, v ! 6 + g, v ! 7 + h])"

subsection \<open>Portable SHA-256\<close>

lemma sha256_std_round_R:
  "sha256_std_round w (a, b, c, d, e, f, g, h) t =
     (case DYN_SHA256_R a b c d e f g h (sha256_K ! t) (w ! t) of (d', h') \<Rightarrow> (h', a, b, c, d', e, f, g))"
  by (simp add: sha256_std_round_def sha256_K_std DYN_SHA256_R_def std_Ch_eq std_Maj_eq std_S0_def std_S1_def Let_def add.assoc)

lemma sha256_eight_std: "sha256_eight w x i = foldl (sha256_std_round w) x [i, i + 1, i + 2, i + 3, i + 4, i + 5, i + 6, i + 7]"
proof -
  obtain a b c d e f g h where x: "x = (a, b, c, d, e, f, g, h)" by (metis surj_pair)
  obtain d1 h1 where r0: "DYN_SHA256_R a b c d e f g h (sha256_K ! i) (w ! i) = (d1, h1)" by (rule prod.exhaust)
  obtain c1 g1 where r1: "DYN_SHA256_R h1 a b c d1 e f g (sha256_K ! (i + 1)) (w ! (i + 1)) = (c1, g1)" by (rule prod.exhaust)
  obtain b1 f1 where r2: "DYN_SHA256_R g1 h1 a b c1 d1 e f (sha256_K ! (i + 2)) (w ! (i + 2)) = (b1, f1)" by (rule prod.exhaust)
  obtain a1 e1 where r3: "DYN_SHA256_R f1 g1 h1 a b1 c1 d1 e (sha256_K ! (i + 3)) (w ! (i + 3)) = (a1, e1)" by (rule prod.exhaust)
  obtain h2 d2 where r4: "DYN_SHA256_R e1 f1 g1 h1 a1 b1 c1 d1 (sha256_K ! (i + 4)) (w ! (i + 4)) = (h2, d2)" by (rule prod.exhaust)
  obtain g2 c2 where r5: "DYN_SHA256_R d2 e1 f1 g1 h2 a1 b1 c1 (sha256_K ! (i + 5)) (w ! (i + 5)) = (g2, c2)" by (rule prod.exhaust)
  obtain f2 b2 where r6: "DYN_SHA256_R c2 d2 e1 f1 g2 h2 a1 b1 (sha256_K ! (i + 6)) (w ! (i + 6)) = (f2, b2)" by (rule prod.exhaust)
  obtain e2 a2 where r7: "DYN_SHA256_R b2 c2 d2 e1 f2 g2 h2 a1 (sha256_K ! (i + 7)) (w ! (i + 7)) = (e2, a2)" by (rule prod.exhaust)
  show ?thesis
    unfolding x sha256_eight_def by (simp add: sha256_std_round_R r0 r1 [simplified] r2 [simplified] r3 r4 r5 r6 r7)
qed

lemma sha256_loop_std: "foldl (sha256_eight w) x (map (\<lambda>n. 8 * n) [0..<m]) = foldl (sha256_std_round w) x [0..<8 * m]"
proof (induction m arbitrary: x)
  case (Suc m)
  then show ?case unfolding upt_eight by (simp add: sha256_eight_std)
qed simp

lemma sha256_sw_std: "sha256_compress_sw (W32 v) block = W32 (sha256_std_compress v block)"
  using sha256_loop_std [of "sha256_schedule block" _ 8]
  by (simp add: sha256_compress_sw_def sha256_std_compress_def sha256_schedule_std Let_def split: prod.split)

subsection \<open>Groups of four rounds\<close>

text \<open>The message words \<open>4 * q\<close> to \<open>4 * q + 3\<close>, and the working variables after \<open>4 * q\<close> rounds.\<close>

definition Wq :: "bytes \<Rightarrow> nat \<Rightarrow> quad" where
  "Wq M q = (sha256_std_W M (4 * q), sha256_std_W M (4 * q + 1), sha256_std_W M (4 * q + 2), sha256_std_W M (4 * q + 3))"

definition after :: "bytes \<Rightarrow> u32 list \<Rightarrow> nat \<Rightarrow> sha256_vars" where
  "after M v q = foldl (sha256_std_round (map (sha256_std_W M) [0..<64])) (v ! 0, v ! 1, v ! 2, v ! 3, v ! 4, v ! 5, v ! 6, v ! 7) [0..<4 * q]"

fun std_four :: "sha256_vars \<Rightarrow> quad \<Rightarrow> sha256_vars" where
  "std_four x (k0, k1, k2, k3) = std_round (std_round (std_round (std_round x k0) k1) k2) k3"

lemma after_0: "after M v 0 = (v ! 0, v ! 1, v ! 2, v ! 3, v ! 4, v ! 5, v ! 6, v ! 7)"
  by (simp add: after_def)

lemma after_Suc:
  assumes "q < 16"
  shows "after M v (Suc q) = std_four (after M v q) (quad_add (Wq M q) (quad_of sha256_K (4 * q)))"
proof -
  have u: "[0..<4 * Suc q] = [0..<4 * q] @ [4 * q, 4 * q + 1, 4 * q + 2, 4 * q + 3]"
    using upt_add_eq_append [of 0 "4 * q" 4] by (simp add: upt_conv_Cons numeral_eq_Suc)
  have n: "map (sha256_std_W M) [0..<64] ! j = sha256_std_W M j" if "j < 64" for j using that by simp
  have l: "4 * q < 64" "4 * q + 1 < 64" "4 * q + 2 < 64" "4 * q + 3 < 64" using assms by simp_all
  show ?thesis
    unfolding after_def u foldl_append foldl.simps sha256_std_round_def n [OF l(1)] n [OF l(2)] n [OF l(3)] n [OF l(4)]
      Wq_def quad_of_def quad_add.simps std_four.simps sha256_K_std add.commute [of "sha256_std_K ! _"] by (rule refl)
qed

lemma Wq_load: "quad_be M 0 = Wq M 0" "quad_be M 16 = Wq M 1" "quad_be M 32 = Wq M 2" "quad_be M 48 = Wq M 3"
  by (simp_all add: quad_be_def Wq_def sha256_std_W.simps [of M])

lemma W_step:
  "sha256_std_W M (4 * q + 16 + e) = std_s1 (sha256_std_W M (4 * q + 14 + e)) + sha256_std_W M (4 * q + 9 + e) +
     std_s0 (sha256_std_W M (4 * q + 1 + e)) + sha256_std_W M (4 * q + e)"
  unfolding sha256_std_W.simps [of M "4 * q + 16 + e"] by (simp add: algebra_simps)

text \<open>Message words from position \<open>4 * q\<close> on.\<close>

definition Wfrom :: "bytes \<Rightarrow> nat \<Rightarrow> nat \<Rightarrow> u32" where
  "Wfrom M q j = sha256_std_W M (4 * q + j)"

lemma Wq_from: "Wq M (q + i) = (Wfrom M q (4 * i), Wfrom M q (4 * i + 1), Wfrom M q (4 * i + 2), Wfrom M q (4 * i + 3))"
  by (simp add: Wq_def Wfrom_def algebra_simps)

lemma Wq_from0: "Wq M q = (Wfrom M q 0, Wfrom M q 1, Wfrom M q 2, Wfrom M q 3)"
  by (simp add: Wq_def Wfrom_def)

lemma Wfrom_step:
  "Wfrom M q 16 = std_s1 (Wfrom M q 14) + Wfrom M q 9 + std_s0 (Wfrom M q 1) + Wfrom M q 0"
  "Wfrom M q 17 = std_s1 (Wfrom M q 15) + Wfrom M q 10 + std_s0 (Wfrom M q 2) + Wfrom M q 1"
  "Wfrom M q 18 = std_s1 (Wfrom M q 16) + Wfrom M q 11 + std_s0 (Wfrom M q 3) + Wfrom M q 2"
  "Wfrom M q 19 = std_s1 (Wfrom M q 17) + Wfrom M q 12 + std_s0 (Wfrom M q 4) + Wfrom M q 3"
  unfolding Wfrom_def using W_step [of M q 0] W_step [of M q 1] W_step [of M q 2] W_step [of M q 3]
  by (simp_all add: numeral_eq_Suc)

lemma vars_cases:
  fixes x :: sha256_vars
  obtains a b c d e f g h where "x = (a, b, c, d, e, f, g, h)"
  by (metis surj_pair)

lemma std_compress_after:
  "sha256_std_compress v M = (case after M v 16 of (a, b, c, d, e, f, g, h) \<Rightarrow>
     [v ! 0 + a, v ! 1 + b, v ! 2 + c, v ! 3 + d, v ! 4 + e, v ! 5 + f, v ! 6 + g, v ! 7 + h])"
  by (simp add: sha256_std_compress_def after_def)

subsection \<open>ARMv8\<close>

text \<open>
  The Arm architecture manual on \<open>SHA256H\<close> and \<open>SHA256H2\<close>: four rounds on the pair of registers, which each
  round rotates by one lane; \<open>SHA256SU0\<close> and \<open>SHA256SU1\<close> together give the next four message words.
\<close>

fun arm_round :: "quad \<times> quad \<Rightarrow> u32 \<Rightarrow> quad \<times> quad" where
  "arm_round ((x0, x1, x2, x3), (y0, y1, y2, y3)) w =
     (let t = y3 + std_S1 y0 + std_Ch y0 y1 y2 + w;
          x3 = t + x3;
          y3 = t + std_S0 x0 + std_Maj x0 x1 x2
      in ((y3, x0, x1, x2), (x3, y0, y1, y2)))"

definition arm_hash :: "quad \<Rightarrow> quad \<Rightarrow> quad \<Rightarrow> quad \<times> quad" where
  "arm_hash x y w = foldl arm_round (x, y) (quad_list w)"

fun arm_su0 :: "quad \<Rightarrow> quad \<Rightarrow> quad" where
  "arm_su0 (w0, w1, w2, w3) (w4, w5, w6, w7) = (w0 + std_s0 w1, w1 + std_s0 w2, w2 + std_s0 w3, w3 + std_s0 w4)"

fun arm_su1 :: "quad \<Rightarrow> quad \<Rightarrow> quad \<Rightarrow> quad" where
  "arm_su1 (t0, t1, t2, t3) (w8, w9, w10, w11) (w12, w13, w14, w15) =
     (let r0 = t0 + std_s1 w14 + w9;
          r1 = t1 + std_s1 w15 + w10
      in (r0, r1, t2 + std_s1 r0 + w11, t3 + std_s1 r1 + w12))"

definition arm_sha_ok :: "arm_sha \<Rightarrow> bool" where
  "arm_sha_ok ins \<longleftrightarrow> (\<forall>x y w. vsha256hq_u32 ins x y w = fst (arm_hash x y w)) \<and>
     (\<forall>x y w. vsha256h2q_u32 ins y x w = snd (arm_hash x y w)) \<and>
     (\<forall>a b. vsha256su0q_u32 ins a b = arm_su0 a b) \<and> (\<forall>a b c. vsha256su1q_u32 ins a b c = arm_su1 a b c)"

lemma arm_sha_okD:
  assumes "arm_sha_ok ins"
  shows "vsha256hq_u32 ins x y w = fst (arm_hash x y w)" "vsha256h2q_u32 ins y x w = snd (arm_hash x y w)"
    "vsha256su0q_u32 ins a b = arm_su0 a b" "vsha256su1q_u32 ins a b c = arm_su1 a b c"
  using assms unfolding arm_sha_ok_def by blast+

fun arm_state :: "sha256_vars \<Rightarrow> quad \<times> quad" where
  "arm_state (a, b, c, d, e, f, g, h) = ((a, b, c, d), (e, f, g, h))"

lemma arm_round_std: "arm_round (arm_state x) w = arm_state (std_round x w)"
  by (rule vars_cases [of x]) (simp add: Let_def algebra_simps)

lemma arm_hash_std: "arm_hash (fst (arm_state x)) (snd (arm_state x)) w = arm_state (std_four x w)"
  by (cases w) (simp add: arm_hash_def arm_round_std)

lemma arm_schedule: "arm_su1 (arm_su0 (Wq M q) (Wq M (q + 1))) (Wq M (q + 2)) (Wq M (q + 3)) = Wq M (q + 4)"
  unfolding Wq_from Wq_from0 [of M q] by (simp add: Wfrom_step Let_def ac_simps)

lemma arm_quad:
  assumes "arm_sha_ok ins" "q < 16" "k = 4 * q"
  shows "DYN_SHA256_QUAD ins (Wq M q) (Wq M (q + 1)) (Wq M (q + 2)) (Wq M (q + 3)) k sched (arm_state (after M v q)) =
    (if sched then Wq M (q + 4) else Wq M q, arm_state (after M v (q + 1)))"
proof -
  obtain x y where s: "arm_state (after M v q) = (x, y)" by (rule prod.exhaust)
  then have "arm_hash x y w = arm_state (std_four (after M v q) w)" for w using arm_hash_std [of "after M v q"] by simp
  then show ?thesis
    using assms(3) arm_schedule [of M q] after_Suc [OF assms(2), of M v]
    by (simp add: s DYN_SHA256_QUAD_def arm_sha_okD [OF assms(1)] Let_def)
qed

text \<open>The last quarter does not extend the schedule, and its macro calls still see the words they need.\<close>

lemma arm_quad_last:
  assumes "arm_sha_ok ins" "q < 16" "k = 4 * q"
  shows "DYN_SHA256_QUAD ins (Wq M q) m1 m2 m3 k False (arm_state (after M v q)) = (Wq M q, arm_state (after M v (q + 1)))"
  using arm_quad [OF assms, of M False v] by (simp add: DYN_SHA256_QUAD_def Let_def split: prod.splits)

lemma arm_loop:
  assumes "arm_sha_ok ins" "q + 3 < 12"
  shows "sha256_hw_loop ins ((Wq M q, Wq M (q + 1), Wq M (q + 2), Wq M (q + 3)), arm_state (after M v q)) (4 * q) =
    ((Wq M (q + 4), Wq M (q + 5), Wq M (q + 6), Wq M (q + 7)), arm_state (after M v (q + 4)))"
  using assms arm_quad [OF assms(1), of q "4 * q" M True v] arm_quad [OF assms(1), of "q + 1" "4 * q + 4" M True v]
    arm_quad [OF assms(1), of "q + 2" "4 * q + 8" M True v] arm_quad [OF assms(1), of "q + 3" "4 * q + 12" M True v]
  by (simp add: sha256_hw_loop_def Let_def add.commute add.left_commute numeral_eq_Suc)

lemma arm_loop_last:
  assumes "arm_sha_ok ins"
  shows "snd (sha256_hw_loop ins ((Wq M 12, Wq M 13, Wq M 14, Wq M 15), arm_state (after M v 12)) 48) = arm_state (after M v 16)"
  using arm_quad_last [OF assms, of 12 48 M _ _ _ v] arm_quad_last [OF assms, of 13 52 M _ _ _ v]
    arm_quad_last [OF assms, of 14 56 M _ _ _ v] arm_quad_last [OF assms, of 15 60 M _ _ _ v]
  by (simp add: sha256_hw_loop_def Let_def)

lemma sha256_hw_std:
  assumes "arm_sha_ok ins"
  shows "sha256_compress_hw ins (W32 v) block = W32 (sha256_std_compress v block)"
proof -
  define st where "st = (\<lambda>q. ((Wq block q, Wq block (q + 1), Wq block (q + 2), Wq block (q + 3)), arm_state (after block v q)))"
  have "sha256_hw_loop ins (st 0) 0 = st 4" "sha256_hw_loop ins (st 4) 16 = st 8" "sha256_hw_loop ins (st 8) 32 = st 12"
    using arm_loop [OF assms, of 0 block v] arm_loop [OF assms, of 4 block v] arm_loop [OF assms, of 8 block v]
    by (simp_all add: st_def)
  then have "foldl (sha256_hw_loop ins) (st 0) [0, 16, 32, 48] = sha256_hw_loop ins (st 12) 48" by simp
  then have l: "snd (foldl (sha256_hw_loop ins) (st 0) [0, 16, 32, 48]) = arm_state (after block v 16)"
    using arm_loop_last [OF assms, of block v] by (simp add: st_def)
  have s0: "((quad_be block 0, quad_be block 16, quad_be block 32, quad_be block 48), quad_of v 0, quad_of v 4) = st 0"
    unfolding st_def Wq_load after_0 arm_state.simps quad_of_def by (simp add: numeral_2_eq_2)
  obtain a b c d e f g h where x: "after block v 16 = (a, b, c, d, e, f, g, h)" by (metis surj_pair)
  obtain ws where F: "foldl (sha256_hw_loop ins) (st 0) [0, 16, 32, 48] = (ws, (a, b, c, d), (e, f, g, h))"
    using l unfolding x arm_state.simps by (metis prod.collapse)
  show ?thesis
    unfolding sha256_compress_hw_def Let_def w32.simps s0 F prod.case
    by (simp add: std_compress_after x quad_of_def numeral_2_eq_2)
qed

subsection \<open>x86\<close>

text \<open>
  The Intel manual on \<open>SHA256RNDS2\<close>: two rounds on the variables \<open>C, D, G, H\<close> of the first operand and
  \<open>A, B, E, F\<close> of the second, from the high lane down, with the new \<open>A, B, E, F\<close> as the result;
  \<open>SHA256MSG1\<close> and \<open>SHA256MSG2\<close> do the two halves of the message schedule.
\<close>

fun ni_rnds2 :: "quad \<Rightarrow> quad \<Rightarrow> quad \<Rightarrow> quad" where
  "ni_rnds2 (h, g, d, c) (f, e, b, a) (k0, k1, _, _) =
     (case std_round (std_round (a, b, c, d, e, f, g, h) k0) k1 of (a, b, c, d, e, f, g, h) \<Rightarrow> (f, e, b, a))"

fun ni_msg1 :: "quad \<Rightarrow> quad \<Rightarrow> quad" where
  "ni_msg1 (w0, w1, w2, w3) (w4, w5, w6, w7) = (w0 + std_s0 w1, w1 + std_s0 w2, w2 + std_s0 w3, w3 + std_s0 w4)"

fun ni_msg2 :: "quad \<Rightarrow> quad \<Rightarrow> quad" where
  "ni_msg2 (x0, x1, x2, x3) (w12, w13, w14, w15) =
     (let w16 = x0 + std_s1 w14;
          w17 = x1 + std_s1 w15
      in (w16, w17, x2 + std_s1 w16, x3 + std_s1 w17))"

definition sha_ni_spec :: "sha_ni \<Rightarrow> bool" where
  "sha_ni_spec ins \<longleftrightarrow> (\<forall>x y k. mm_sha256rnds2_epu32 ins x y k = ni_rnds2 x y k) \<and>
     (\<forall>a b. mm_sha256msg1_epu32 ins a b = ni_msg1 a b) \<and> (\<forall>a b. mm_sha256msg2_epu32 ins a b = ni_msg2 a b)"

lemma sha_ni_specD:
  assumes "sha_ni_spec ins"
  shows "mm_sha256rnds2_epu32 ins x y k = ni_rnds2 x y k" "mm_sha256msg1_epu32 ins a b = ni_msg1 a b"
    "mm_sha256msg2_epu32 ins a b = ni_msg2 a b"
  using assms unfolding sha_ni_spec_def by blast+

fun ni_state :: "sha256_vars \<Rightarrow> quad \<times> quad" where
  "ni_state (a, b, c, d, e, f, g, h) = ((f, e, b, a), (h, g, d, c))"

lemma ni_rounds_std:
  assumes "sha_ni_spec ins"
  shows "ni_rounds ins k (ni_state x) = ni_state (std_four x k)"
proof -
  obtain k0 k1 k2 k3 where k: "k = (k0, k1, k2, k3)" by (metis surj_pair)
  obtain a b c d e f g h where x: "x = (a, b, c, d, e, f, g, h)" by (rule vars_cases)
  have sh: "mm_shuffle_epi32 (k0, k1, k2, k3) 14 = (k2, k3, k0, k0)" by (simp add: mm_shuffle_epi32_def)
  obtain a2 b2 c2 d2 e2 f2 g2 h2 where y: "std_round (std_round x k0) k1 = (a2, b2, c2, d2, e2, f2, g2, h2)" by (rule vars_cases)
  then have y2: "c2 = a" "d2 = b" "g2 = e" "h2 = f" by (auto simp: x Let_def)
  obtain a4 b4 c4 d4 e4 f4 g4 h4
    where z: "std_round (std_round (a2, b2, a, b, e2, f2, e, f) k2) k3 = (a4, b4, c4, d4, e4, f4, g4, h4)" by (rule vars_cases)
  then have z2: "c4 = a2" "d4 = b2" "g4 = e2" "h4 = f2" by (auto simp: Let_def)
  have four: "std_four x k = (a4, b4, a2, b2, e4, f4, e2, f2)" using z by (simp add: k y y2 z2)
  have 1: "ni_rnds2 (h, g, d, c) (f, e, b, a) (k0, k1, k2, k3) = (f2, e2, b2, a2)"
    using y by (simp add: x)
  have 2: "ni_rnds2 (f, e, b, a) (f2, e2, b2, a2) (k2, k3, k0, k0) = (f4, e4, b4, a4)"
    using z by simp
  show ?thesis
    unfolding ni_rounds_def four unfolding k x ni_state.simps prod.case Let_def sha_ni_specD [OF assms] sh 1 2 ..
qed

lemma ni_after:
  assumes "sha_ni_spec ins" "q < 16" "k = 4 * q"
  shows "ni_rounds ins (quad_add (Wq M q) (quad_of sha256_K k)) (ni_state (after M v q)) = ni_state (after M v (q + 1))"
  using after_Suc [OF assms(2), of M v] assms(3) by (simp add: ni_rounds_std [OF assms(1)])

lemma ni_schedule:
  "ni_msg2 (quad_add (ni_msg1 (Wq M q) (Wq M (q + 1))) (mm_alignr_epi8 (Wq M (q + 3)) (Wq M (q + 2)) 4)) (Wq M (q + 3)) = Wq M (q + 4)"
  unfolding Wq_from Wq_from0 [of M q] by (simp add: mm_alignr_epi8_def quad_of_def Wfrom_step Let_def ac_simps)

definition part :: "bytes \<Rightarrow> nat \<Rightarrow> quad" where
  "part M q = ni_msg1 (Wq M q) (Wq M (q + 1))"

lemma ni_quad:
  assumes "sha_ni_spec ins" "q < 13" "k = 4 * q + 12"
  shows "DYN_SHA256_NI_QUAD ins (Wq M (q + 3)) (Wq M (q + 2)) (part M q) k sched (ni_state (after M v (q + 3))) =
    (if sched then part M (q + 2) else Wq M (q + 2), Wq M (q + 4), ni_state (after M v (q + 4)))"
  using ni_after [OF assms(1), of "q + 3" k M v] ni_schedule [of M q] assms(2,3)
  by (simp add: DYN_SHA256_NI_QUAD_def Let_def sha_ni_specD [OF assms(1)] part_def numeral_eq_Suc)

lemma ni_quad_state:
  assumes "sha_ni_spec ins" "q < 16" "k = 4 * q"
  shows "snd (snd (DYN_SHA256_NI_QUAD ins (Wq M q) p n k sched (ni_state (after M v q)))) = ni_state (after M v (q + 1))"
  using ni_after [OF assms, of M v] by (simp add: DYN_SHA256_NI_QUAD_def Let_def)

lemma ni_head:
  assumes "sha_ni_spec ins"
  shows "sha_ni_head ins M (ni_state (after M v 0)) = ((Wq M 4, part M 1, part M 2, Wq M 3), ni_state (after M v 4))"
proof -
  have r: "ni_rounds ins (quad_add (Wq M 0) (quad_of sha256_K 0)) (ni_state (after M v 0)) = ni_state (after M v 1)"
    "ni_rounds ins (quad_add (Wq M 1) (quad_of sha256_K 4)) (ni_state (after M v 1)) = ni_state (after M v 2)"
    "ni_rounds ins (quad_add (Wq M 2) (quad_of sha256_K 8)) (ni_state (after M v 2)) = ni_state (after M v 3)"
    "ni_rounds ins (quad_add (Wq M 3) (quad_of sha256_K 12)) (ni_state (after M v 3)) = ni_state (after M v 4)"
    using ni_after [OF assms, of 0 0 M v] ni_after [OF assms, of 1 4 M v] ni_after [OF assms, of 2 8 M v]
      ni_after [OF assms, of 3 12 M v] by (simp_all add: numeral_2_eq_2 [symmetric] numeral_3_eq_3 [symmetric])
  have p: "ni_msg1 (Wq M 1) (Wq M 2) = part M 1" "ni_msg1 (Wq M 2) (Wq M 3) = part M 2"
    by (simp_all add: part_def numeral_2_eq_2 [symmetric] numeral_3_eq_3 [symmetric])
  have w: "ni_msg2 (quad_add (ni_msg1 (Wq M 0) (Wq M 1)) (mm_alignr_epi8 (Wq M 3) (Wq M 2) 4)) (Wq M 3) = Wq M 4"
    using ni_schedule [of M 0] by (simp add: numeral_2_eq_2)
  show ?thesis unfolding sha_ni_head_def Let_def Wq_load sha_ni_specD [OF assms] r p w ..
qed

lemma ni_body:
  assumes "sha_ni_spec ins"
  shows "sha_ni_body ins ((Wq M 4, part M 1, part M 2, Wq M 3), ni_state (after M v 4)) = ni_state (after M v 16)"
proof -
  have q:
    "DYN_SHA256_NI_QUAD ins (Wq M 4) (Wq M 3) (part M 1) 16 True (ni_state (after M v 4)) = (part M 3, Wq M 5, ni_state (after M v 5))"
    "DYN_SHA256_NI_QUAD ins (Wq M 5) (Wq M 4) (part M 2) 20 True (ni_state (after M v 5)) = (part M 4, Wq M 6, ni_state (after M v 6))"
    "DYN_SHA256_NI_QUAD ins (Wq M 6) (Wq M 5) (part M 3) 24 True (ni_state (after M v 6)) = (part M 5, Wq M 7, ni_state (after M v 7))"
    "DYN_SHA256_NI_QUAD ins (Wq M 7) (Wq M 6) (part M 4) 28 True (ni_state (after M v 7)) = (part M 6, Wq M 8, ni_state (after M v 8))"
    "DYN_SHA256_NI_QUAD ins (Wq M 8) (Wq M 7) (part M 5) 32 True (ni_state (after M v 8)) = (part M 7, Wq M 9, ni_state (after M v 9))"
    "DYN_SHA256_NI_QUAD ins (Wq M 9) (Wq M 8) (part M 6) 36 True (ni_state (after M v 9)) = (part M 8, Wq M 10, ni_state (after M v 10))"
    "DYN_SHA256_NI_QUAD ins (Wq M 10) (Wq M 9) (part M 7) 40 True (ni_state (after M v 10)) = (part M 9, Wq M 11, ni_state (after M v 11))"
    "DYN_SHA256_NI_QUAD ins (Wq M 11) (Wq M 10) (part M 8) 44 True (ni_state (after M v 11)) = (part M 10, Wq M 12, ni_state (after M v 12))"
    "DYN_SHA256_NI_QUAD ins (Wq M 12) (Wq M 11) (part M 9) 48 True (ni_state (after M v 12)) = (part M 11, Wq M 13, ni_state (after M v 13))"
    "DYN_SHA256_NI_QUAD ins (Wq M 13) (Wq M 12) (part M 10) 52 False (ni_state (after M v 13)) = (Wq M 12, Wq M 14, ni_state (after M v 14))"
    "DYN_SHA256_NI_QUAD ins (Wq M 14) (Wq M 13) (part M 11) 56 False (ni_state (after M v 14)) = (Wq M 13, Wq M 15, ni_state (after M v 15))"
    using ni_quad [OF assms, of 1 16 M True v] ni_quad [OF assms, of 2 20 M True v] ni_quad [OF assms, of 3 24 M True v]
      ni_quad [OF assms, of 4 28 M True v] ni_quad [OF assms, of 5 32 M True v] ni_quad [OF assms, of 6 36 M True v]
      ni_quad [OF assms, of 7 40 M True v] ni_quad [OF assms, of 8 44 M True v] ni_quad [OF assms, of 9 48 M True v]
      ni_quad [OF assms, of 10 52 M False v] ni_quad [OF assms, of 11 56 M False v]
    by (simp_all add: numeral_2_eq_2 [symmetric] numeral_3_eq_3 [symmetric])
  have last: "snd (snd (DYN_SHA256_NI_QUAD ins (Wq M 15) p n 60 False (ni_state (after M v 15)))) = ni_state (after M v 16)" for p n
    using ni_quad_state [OF assms, of 15 60 M p n False v] by simp
  show ?thesis
    unfolding sha_ni_body_def prod.case Let_def q using last by (simp add: case_prod_beta)
qed

lemma sha256_ni_std:
  assumes "sha_ni_spec ins"
  shows "sha256_compress_sha_ni ins (W32 v) block = W32 (sha256_std_compress v block)"
proof -
  obtain a b c d e f g h where x: "after block v 16 = (a, b, c, d, e, f, g, h)" by (rule vars_cases)
  have in0: "mm_alignr_epi8 (mm_shuffle_epi32 (quad_of v 0) 177) (mm_shuffle_epi32 (quad_of v 4) 27) 8 = (v ! 5, v ! 4, v ! 1, v ! 0)"
    "mm_blend_epi16_F0 (mm_shuffle_epi32 (quad_of v 4) 27) (mm_shuffle_epi32 (quad_of v 0) 177) = (v ! 7, v ! 6, v ! 3, v ! 2)"
    by (simp_all add: mm_alignr_epi8_def mm_shuffle_epi32_def quad_of_def numeral_2_eq_2)
  have st: "((v ! 5, v ! 4, v ! 1, v ! 0), (v ! 7, v ! 6, v ! 3, v ! 2)) = ni_state (after block v 0)" by (simp add: after_0)
  have out: "sha_ni_body ins (sha_ni_head ins block (ni_state (after block v 0))) = ((f, e, b, a), (h, g, d, c))"
    unfolding ni_head [OF assms] ni_body [OF assms] x by simp
  show ?thesis
    unfolding sha256_compress_sha_ni_def Let_def w32.simps in0 st out prod.case
    by (simp add: mm_alignr_epi8_def mm_shuffle_epi32_def quad_of_def std_compress_after x)
qed

subsection \<open>SHA-384 and SHA-512\<close>

fun sha512_std_W :: "bytes \<Rightarrow> nat \<Rightarrow> u64" where
  "sha512_std_W M t =
     (if t < 16 then load_be64 (drop (t * 8) M)
      else (rotr64 (sha512_std_W M (t - 2)) 19 XOR rotr64 (sha512_std_W M (t - 2)) 61 XOR drop_bit 6 (sha512_std_W M (t - 2)))
         + sha512_std_W M (t - 7)
         + (rotr64 (sha512_std_W M (t - 15)) 1 XOR rotr64 (sha512_std_W M (t - 15)) 8 XOR drop_bit 7 (sha512_std_W M (t - 15)))
         + sha512_std_W M (t - 16))"

declare sha512_std_W.simps [simp del]

lemma sha512_schedule_std: "sha512_schedule block = map (sha512_std_W block) [0..<80]"
  unfolding sha512_schedule_def Let_def
proof (rule schedule_std, goal_cases)
  case (1 t)
  then show ?case unfolding sha512_std_W.simps [of block t] by (simp add: ac_simps)
next
  case 2
  show ?case by (rule map_cong) (auto simp: sha512_std_W.simps [of block])
qed simp

definition sha512_std_round :: "u64 list \<Rightarrow> sha512_vars \<Rightarrow> nat \<Rightarrow> sha512_vars" where
  "sha512_std_round w = (\<lambda>(a, b, c, d, e, f, g, h) t.
     let T1 = h + (rotr64 e 14 XOR rotr64 e 18 XOR rotr64 e 41) + std_Ch e f g + sha512_std_K ! t + w ! t;
         T2 = (rotr64 a 28 XOR rotr64 a 34 XOR rotr64 a 39) + std_Maj a b c
     in (T1 + T2, a, b, c, d + T1, e, f, g))"

definition sha512_std_compress :: "u64 list \<Rightarrow> bytes \<Rightarrow> u64 list" where
  "sha512_std_compress v block =
     (case foldl (sha512_std_round (map (sha512_std_W block) [0..<80])) (v ! 0, v ! 1, v ! 2, v ! 3, v ! 4, v ! 5, v ! 6, v ! 7) [0..<80] of
        (a, b, c, d, e, f, g, h) \<Rightarrow>
          [v ! 0 + a, v ! 1 + b, v ! 2 + c, v ! 3 + d, v ! 4 + e, v ! 5 + f, v ! 6 + g, v ! 7 + h])"

lemma sha512_std_round_R:
  "sha512_std_round w (a, b, c, d, e, f, g, h) t =
     (case DYN_SHA512_R a b c d e f g h (sha512_K ! t) (w ! t) of (d', h') \<Rightarrow> (h', a, b, c, d', e, f, g))"
  by (simp add: sha512_std_round_def sha512_K_std DYN_SHA512_R_def std_Ch_eq std_Maj_eq Let_def add.assoc)

lemma sha512_eight_std: "sha512_eight w x i = foldl (sha512_std_round w) x [i, i + 1, i + 2, i + 3, i + 4, i + 5, i + 6, i + 7]"
proof -
  obtain a b c d e f g h where x: "x = (a, b, c, d, e, f, g, h)" by (metis surj_pair)
  obtain d1 h1 where r0: "DYN_SHA512_R a b c d e f g h (sha512_K ! i) (w ! i) = (d1, h1)" by (rule prod.exhaust)
  obtain c1 g1 where r1: "DYN_SHA512_R h1 a b c d1 e f g (sha512_K ! (i + 1)) (w ! (i + 1)) = (c1, g1)" by (rule prod.exhaust)
  obtain b1 f1 where r2: "DYN_SHA512_R g1 h1 a b c1 d1 e f (sha512_K ! (i + 2)) (w ! (i + 2)) = (b1, f1)" by (rule prod.exhaust)
  obtain a1 e1 where r3: "DYN_SHA512_R f1 g1 h1 a b1 c1 d1 e (sha512_K ! (i + 3)) (w ! (i + 3)) = (a1, e1)" by (rule prod.exhaust)
  obtain h2 d2 where r4: "DYN_SHA512_R e1 f1 g1 h1 a1 b1 c1 d1 (sha512_K ! (i + 4)) (w ! (i + 4)) = (h2, d2)" by (rule prod.exhaust)
  obtain g2 c2 where r5: "DYN_SHA512_R d2 e1 f1 g1 h2 a1 b1 c1 (sha512_K ! (i + 5)) (w ! (i + 5)) = (g2, c2)" by (rule prod.exhaust)
  obtain f2 b2 where r6: "DYN_SHA512_R c2 d2 e1 f1 g2 h2 a1 b1 (sha512_K ! (i + 6)) (w ! (i + 6)) = (f2, b2)" by (rule prod.exhaust)
  obtain e2 a2 where r7: "DYN_SHA512_R b2 c2 d2 e1 f2 g2 h2 a1 (sha512_K ! (i + 7)) (w ! (i + 7)) = (e2, a2)" by (rule prod.exhaust)
  show ?thesis
    unfolding x sha512_eight_def by (simp add: sha512_std_round_R r0 r1 [simplified] r2 [simplified] r3 r4 r5 r6 r7)
qed

lemma sha512_loop_std: "foldl (sha512_eight w) x (map (\<lambda>n. 8 * n) [0..<m]) = foldl (sha512_std_round w) x [0..<8 * m]"
proof (induction m arbitrary: x)
  case (Suc m)
  then show ?case unfolding upt_eight by (simp add: sha512_eight_std)
qed simp

lemma sha512_compress_eq: "sha512_compress (W64 v) block = W64 (sha512_std_compress v block)"
  using sha512_loop_std [of "sha512_schedule block" _ 10]
  by (simp add: sha512_compress_def sha512_std_compress_def sha512_schedule_std Let_def split: prod.split)

subsection \<open>Properties\<close>

text \<open>What the manuals promise of the instructions that the chosen variant executes.\<close>

definition sha2_cpu_ok :: "sha2_cpu \<Rightarrow> bool" where
  "sha2_cpu_ok T = (case T of SHA2_GENERIC \<Rightarrow> True | SHA2_ARM ins \<Rightarrow> arm_sha_ok ins | SHA2_X86 ni ins \<Rightarrow> ni \<longrightarrow> sha_ni_spec ins)"

text \<open>C40. The SHA-2 compression functions compute the message schedule and the rounds of FIPS 180-4, with the
  constants that the standard defines by cube roots of primes, for every chaining value and block. For
  SHA-256 this holds of all three variants that \<open>sha256_compress\<close> chooses from: the portable code, which renames
  the working variables instead of moving them, the ARMv8 code and the x86 code, given that the SHA
  instructions do what the architecture manuals say.\<close>

theorem sha2_compress_standard:
  assumes "sha2_cpu_ok T"
  shows "sha256_compress T (W32 v) block = W32 (sha256_std_compress v block) \<and>
    sha512_compress (W64 u) block' = W64 (sha512_std_compress u block')"
proof -
  have "sha256_compress T (W32 v) block = W32 (sha256_std_compress v block)"
    using assms by (cases T) (auto simp: sha256_compress_def sha2_cpu_ok_def sha256_sw_std sha256_hw_std sha256_ni_std)
  then show ?thesis by (simp add: sha512_compress_eq)
qed

definition arm_reference :: arm_sha where
  "arm_reference = \<lparr>vsha256hq_u32 = (\<lambda>x y w. fst (arm_hash x y w)), vsha256h2q_u32 = (\<lambda>y x w. snd (arm_hash x y w)),
     vsha256su0q_u32 = arm_su0, vsha256su1q_u32 = arm_su1\<rparr>"

definition ni_reference :: sha_ni where
  "ni_reference = \<lparr>mm_sha256rnds2_epu32 = ni_rnds2, mm_sha256msg1_epu32 = ni_msg1, mm_sha256msg2_epu32 = ni_msg2\<rparr>"

theorem sha2_compress_standard_witness:
  "sha2_cpu_ok SHA2_GENERIC \<and> sha2_cpu_ok (SHA2_ARM arm_reference) \<and> sha2_cpu_ok (SHA2_X86 True ni_reference) \<and>
   sha256_compress (SHA2_ARM arm_reference) sha256_init (replicate 64 0) = sha256_compress SHA2_GENERIC sha256_init (replicate 64 0) \<and>
   sha256_compress (SHA2_X86 True ni_reference) sha256_init (replicate 64 0) = sha256_compress SHA2_GENERIC sha256_init (replicate 64 0)"
proof -
  have ok: "sha2_cpu_ok SHA2_GENERIC" "sha2_cpu_ok (SHA2_ARM arm_reference)" "sha2_cpu_ok (SHA2_X86 True ni_reference)"
    unfolding sha2_cpu_ok_def arm_sha_ok_def sha_ni_spec_def arm_reference_def ni_reference_def by simp_all
  show ?thesis
    using ok sha2_compress_standard [OF ok(1)] sha2_compress_standard [OF ok(2)] sha2_compress_standard [OF ok(3)]
    by (simp add: sha256_init_def)
qed

end
