(* ===== verification/HashAlgos.thy ===== *)
theory HashAlgos
  imports Sha2
begin

text \<open>
  MD5 and SHA-1 of \<open>src/core/dyn-hash.c\<close> and the table of the six algorithms.
\<close>

subsection \<open>MD5\<close>

definition md5_K :: "u32 list" where
  "md5_K = [
     0xd76aa478, 0xe8c7b756, 0x242070db, 0xc1bdceee, 0xf57c0faf, 0x4787c62a,
     0xa8304613, 0xfd469501, 0x698098d8, 0x8b44f7af, 0xffff5bb1, 0x895cd7be,
     0x6b901122, 0xfd987193, 0xa679438e, 0x49b40821, 0xf61e2562, 0xc040b340,
     0x265e5a51, 0xe9b6c7aa, 0xd62f105d, 0x02441453, 0xd8a1e681, 0xe7d3fbc8,
     0x21e1cde6, 0xc33707d6, 0xf4d50d87, 0x455a14ed, 0xa9e3e905, 0xfcefa3f8,
     0x676f02d9, 0x8d2a4c8a, 0xfffa3942, 0x8771f681, 0x6d9d6122, 0xfde5380c,
     0xa4beea44, 0x4bdecfa9, 0xf6bb4b60, 0xbebfbc70, 0x289b7ec6, 0xeaa127fa,
     0xd4ef3085, 0x04881d05, 0xd9d4d039, 0xe6db99e5, 0x1fa27cf8, 0xc4ac5665,
     0xf4292244, 0x432aff97, 0xab9423a7, 0xfc93a039, 0x655b59c3, 0x8f0ccc92,
     0xffeff47d, 0x85845dd1, 0x6fa87e4f, 0xfe2ce6e0, 0xa3014314, 0x4e0811a1,
     0xf7537e82, 0xbd3af235, 0x2ad7d2bb, 0xeb86d391]"

definition md5_s :: "nat list" where
  "md5_s = [
     7, 12, 17, 22, 7, 12, 17, 22, 7, 12, 17, 22, 7, 12, 17, 22,
     5, 9, 14, 20, 5, 9, 14, 20, 5, 9, 14, 20, 5, 9, 14, 20,
     4, 11, 16, 23, 4, 11, 16, 23, 4, 11, 16, 23, 4, 11, 16, 23,
     6, 10, 15, 21, 6, 10, 15, 21, 6, 10, 15, 21, 6, 10, 15, 21]"

definition md5_init :: dyn_hash_state where
  "md5_init = W32 [0x67452301, 0xefcdab89, 0x98badcfe, 0x10325476]"

definition md5_round :: "u32 list \<Rightarrow> u32 \<times> u32 \<times> u32 \<times> u32 \<Rightarrow> nat \<Rightarrow> u32 \<times> u32 \<times> u32 \<times> u32" where
  "md5_round m = (\<lambda>(a, b, c, d) i.
     let (f, g) =
       (if i < 16 then ((b AND c) OR (NOT b AND d), i)
        else if i < 32 then ((d AND b) OR (NOT d AND c), (5 * i + 1) AND 15)
        else if i < 48 then (b XOR c XOR d, (3 * i + 5) AND 15)
        else (c XOR (b OR NOT d), (7 * i) AND 15));
         f = f + (a + md5_K ! i + m ! g)
     in (d, b + rotl32 f (md5_s ! i), b, c))"

definition md5_compress :: "dyn_hash_state \<Rightarrow> bytes \<Rightarrow> dyn_hash_state" where
  "md5_compress s block =
     (let w = w32 s;
          m = map (\<lambda>i. load_le32 (drop (i * 4) block)) [0..<16];
          (a, b, c, d) = foldl (md5_round m) (w ! 0, w ! 1, w ! 2, w ! 3) [0..<64]
      in W32 [w ! 0 + a, w ! 1 + b, w ! 2 + c, w ! 3 + d])"

definition md5_extract :: "dyn_hash_state \<Rightarrow> bytes" where
  "md5_extract s =
     (let w = w32 s in store_le32 (w ! 0) @ store_le32 (w ! 1) @ store_le32 (w ! 2) @ store_le32 (w ! 3))"

subsection \<open>SHA-1\<close>

definition sha1_init :: dyn_hash_state where
  "sha1_init = W32 [0x67452301, 0xEFCDAB89, 0x98BADCFE, 0x10325476, 0xC3D2E1F0]"

definition sha1_schedule :: "bytes \<Rightarrow> u32 list" where
  "sha1_schedule block =
     foldl (\<lambda>w i. w @ [rotl32 (w ! (i - 3) XOR w ! (i - 8) XOR w ! (i - 14) XOR w ! (i - 16)) 1])
       (map (\<lambda>i. load_be32 (drop (i * 4) block)) [0..<16]) [16..<80]"

definition sha1_round :: "u32 list \<Rightarrow> u32 \<times> u32 \<times> u32 \<times> u32 \<times> u32 \<Rightarrow> nat \<Rightarrow> u32 \<times> u32 \<times> u32 \<times> u32 \<times> u32" where
  "sha1_round w = (\<lambda>(a, b, c, d, e) i.
     let (f, k) =
       (if i < 20 then ((b AND c) OR (NOT b AND d), 0x5A827999)
        else if i < 40 then (b XOR c XOR d, 0x6ED9EBA1)
        else if i < 60 then ((b AND c) OR (b AND d) OR (c AND d), 0x8F1BBCDC)
        else (b XOR c XOR d, 0xCA62C1D6));
         t = rotl32 a 5 + f + e + k + w ! i
     in (t, a, rotl32 b 30, c, d))"

definition sha1_compress :: "dyn_hash_state \<Rightarrow> bytes \<Rightarrow> dyn_hash_state" where
  "sha1_compress s block =
     (let v = w32 s;
          (a, b, c, d, e) = foldl (sha1_round (sha1_schedule block)) (v ! 0, v ! 1, v ! 2, v ! 3, v ! 4) [0..<80]
      in W32 [v ! 0 + a, v ! 1 + b, v ! 2 + c, v ! 3 + d, v ! 4 + e])"

definition sha1_extract :: "dyn_hash_state \<Rightarrow> bytes" where
  "sha1_extract s = concat (map (\<lambda>i. store_be32 (w32 s ! i)) [0..<5])"

subsection \<open>The table of algorithms\<close>

datatype dyn_hash_algo_id = DYN_HASH_MD5 | DYN_HASH_SHA1 | DYN_HASH_SHA224 | DYN_HASH_SHA256 | DYN_HASH_SHA384 | DYN_HASH_SHA512

record dyn_hash_algo =
  alg_name :: string
  alg_block_size :: nat
  alg_digest_size :: nat
  alg_len_bytes :: nat
  alg_big_endian_len :: bool
  alg_init :: dyn_hash_state
  alg_compress :: "dyn_hash_state \<Rightarrow> bytes \<Rightarrow> dyn_hash_state"
  alg_extract :: "dyn_hash_state \<Rightarrow> bytes"

primrec dyn_hash_algos :: "sha2_cpu \<Rightarrow> dyn_hash_algo_id \<Rightarrow> dyn_hash_algo" where
  "dyn_hash_algos T DYN_HASH_MD5 = \<lparr>alg_name = ''md5'', alg_block_size = 64, alg_digest_size = 16, alg_len_bytes = 8,
     alg_big_endian_len = False, alg_init = md5_init, alg_compress = md5_compress, alg_extract = md5_extract\<rparr>"
| "dyn_hash_algos T DYN_HASH_SHA1 = \<lparr>alg_name = ''sha1'', alg_block_size = 64, alg_digest_size = 20, alg_len_bytes = 8,
     alg_big_endian_len = True, alg_init = sha1_init, alg_compress = sha1_compress, alg_extract = sha1_extract\<rparr>"
| "dyn_hash_algos T DYN_HASH_SHA224 = \<lparr>alg_name = ''sha224'', alg_block_size = 64, alg_digest_size = 28, alg_len_bytes = 8,
     alg_big_endian_len = True, alg_init = sha224_init, alg_compress = sha256_compress T, alg_extract = sha224_extract\<rparr>"
| "dyn_hash_algos T DYN_HASH_SHA256 = \<lparr>alg_name = ''sha256'', alg_block_size = 64, alg_digest_size = 32, alg_len_bytes = 8,
     alg_big_endian_len = True, alg_init = sha256_init, alg_compress = sha256_compress T, alg_extract = sha256_extract\<rparr>"
| "dyn_hash_algos T DYN_HASH_SHA384 = \<lparr>alg_name = ''sha384'', alg_block_size = 128, alg_digest_size = 48, alg_len_bytes = 16,
     alg_big_endian_len = True, alg_init = sha384_init, alg_compress = sha512_compress, alg_extract = sha384_extract\<rparr>"
| "dyn_hash_algos T DYN_HASH_SHA512 = \<lparr>alg_name = ''sha512'', alg_block_size = 128, alg_digest_size = 64, alg_len_bytes = 16,
     alg_big_endian_len = True, alg_init = sha512_init, alg_compress = sha512_compress, alg_extract = sha512_extract\<rparr>"

definition dyn_hash_algo_ids :: "dyn_hash_algo_id list" where
  "dyn_hash_algo_ids = [DYN_HASH_MD5, DYN_HASH_SHA1, DYN_HASH_SHA224, DYN_HASH_SHA256, DYN_HASH_SHA384, DYN_HASH_SHA512]"

definition dyn_hash_algo_by_name :: "sha2_cpu \<Rightarrow> string \<Rightarrow> dyn_hash_algo option" where
  "dyn_hash_algo_by_name T name =
     map_option (dyn_hash_algos T) (find (\<lambda>i. alg_name (dyn_hash_algos T i) = name) dyn_hash_algo_ids)"

definition dyn_hash_algo_by_id :: "sha2_cpu \<Rightarrow> nat \<Rightarrow> dyn_hash_algo option" where
  "dyn_hash_algo_by_id T i =
     (if length dyn_hash_algo_ids \<le> i then None else Some (dyn_hash_algos T (dyn_hash_algo_ids ! i)))"

end
