(* ===== verification/HashStream.thy ===== *)
theory HashStream
  imports HashAlgos
begin

text \<open>
  The incremental hash context of \<open>src/core/dyn-hash.c\<close>: \<open>dyn_hash_init\<close>, \<open>dyn_hash_update\<close>,
  \<open>dyn_hash_final\<close> and the one-shot functions. The context keeps the bytes that do not fill a block;
  the model's buffer is the valid prefix of the C array. The locale \<open>block_stream\<close> is the contract of
  buffered absorption, which the XXH32 context meets as well: a state depends only on the bytes
  absorbed, not on how they were cut into calls.
\<close>

subsection \<open>Buffered absorption\<close>

fun absorb_blocks :: "nat \<Rightarrow> ('s \<Rightarrow> bytes \<Rightarrow> 's) \<Rightarrow> 's \<Rightarrow> bytes \<Rightarrow> 's \<times> bytes" where
  "absorb_blocks block f st data =
     (if 0 < block \<and> block \<le> length data then absorb_blocks block f (f st (take block data)) (drop block data)
      else (st, data))"

declare absorb_blocks.simps [simp del]

lemma absorb_blocks_rest: "0 < block \<Longrightarrow> length (snd (absorb_blocks block f st data)) < block"
proof (induction data arbitrary: st rule: length_induct)
  case (1 data)
  then show ?case by (subst absorb_blocks.simps) auto
qed

lemma absorb_blocks_short [simp]: "length data < block \<Longrightarrow> absorb_blocks block f st data = (st, data)"
  by (subst absorb_blocks.simps) simp

lemma absorb_blocks_step:
  "0 < block \<Longrightarrow> length b = block \<Longrightarrow> absorb_blocks block f st (b @ data) = absorb_blocks block f (f st b) data"
  by (subst absorb_blocks.simps) simp

lemma absorb_blocks_append:
  "0 < block \<Longrightarrow> absorb_blocks block f st (a @ b) =
    (case absorb_blocks block f st a of (st', r) \<Rightarrow> absorb_blocks block f st' (r @ b))"
proof (induction a arbitrary: st rule: length_induct)
  case (1 a)
  show ?case
  proof (cases "block \<le> length a")
    case True
    have "absorb_blocks block f st (a @ b) = absorb_blocks block f (f st (take block a)) (drop block a @ b)"
      using absorb_blocks_step [OF 1(2), of "take block a" f st "drop block a @ b"] True
      by (simp flip: append_assoc)
    moreover have "absorb_blocks block f st a = absorb_blocks block f (f st (take block a)) (drop block a)"
      using absorb_blocks_step [OF 1(2), of "take block a" f st "drop block a"] True by simp
    ultimately show ?thesis using 1 True by simp
  qed simp
qed

locale block_stream =
  fixes update :: "'c \<Rightarrow> bytes \<Rightarrow> 'c"
    and block :: "'c \<Rightarrow> nat" and step :: "'c \<Rightarrow> 's \<Rightarrow> bytes \<Rightarrow> 's"
    and core :: "'c \<Rightarrow> 's \<times> bytes" and total :: "'c \<Rightarrow> u64" and ok :: "'c \<Rightarrow> bool"
  assumes block_pos: "ok c \<Longrightarrow> 0 < block c"
    and core_short: "ok c \<Longrightarrow> length (snd (core c)) < block c"
    and update_ok: "ok c \<Longrightarrow> ok (update c d)"
    and update_block: "ok c \<Longrightarrow> block (update c d) = block c"
    and update_step: "ok c \<Longrightarrow> step (update c d) = step c"
    and update_core: "ok c \<Longrightarrow> core (update c d) = absorb_blocks (block c) (step c) (fst (core c)) (snd (core c) @ d)"
    and update_total: "ok c \<Longrightarrow> total (update c d) = total c + of_nat (length d)"
begin

lemma updates_ok: "ok c \<Longrightarrow> ok (foldl update c ds)"
  by (induction ds arbitrary: c) (simp_all add: update_ok)

lemma updates_block: "ok c \<Longrightarrow> block (foldl update c ds) = block c \<and> step (foldl update c ds) = step c"
  by (induction ds arbitrary: c) (simp_all add: update_ok update_block update_step)

text \<open>Feeding the pieces is feeding their concatenation.\<close>

lemma updates_core:
  "ok c \<Longrightarrow> core (foldl update c ds) = absorb_blocks (block c) (step c) (fst (core c)) (snd (core c) @ concat ds)"
proof (induction ds arbitrary: c)
  case Nil
  then show ?case using core_short [OF Nil] by simp
next
  case (Cons d ds)
  have "core (foldl update (update c d) ds) =
      absorb_blocks (block c) (step c) (fst (core (update c d))) (snd (core (update c d)) @ concat ds)"
    using Cons by (simp add: update_ok update_block update_step)
  also have "\<dots> = absorb_blocks (block c) (step c) (fst (core c)) ((snd (core c) @ d) @ concat ds)"
    using absorb_blocks_append [OF block_pos [OF Cons.prems], of "step c" "fst (core c)" "snd (core c) @ d" "concat ds"]
      update_core [OF Cons.prems, of d]
    by (simp split: prod.splits)
  finally show ?case by simp
qed

lemma updates_total: "ok c \<Longrightarrow> total (foldl update c ds) = total c + of_nat (length (concat ds))"
  by (induction ds arbitrary: c) (simp_all add: update_ok update_total)

end

subsection \<open>Model\<close>

definition DYN_HASH_MAX_BLOCK :: nat where
  "DYN_HASH_MAX_BLOCK = 128"

definition DYN_HASH_MAX_DIGEST :: nat where
  "DYN_HASH_MAX_DIGEST = 64"

record dyn_hash_ctx =
  hc_algo :: dyn_hash_algo
  hc_st :: dyn_hash_state
  hc_buffer :: bytes
  hc_bytelen :: u64

definition dyn_hash_init :: "dyn_hash_algo \<Rightarrow> dyn_hash_ctx" where
  "dyn_hash_init a = \<lparr>hc_algo = a, hc_st = alg_init a, hc_buffer = [], hc_bytelen = 0\<rparr>"

text \<open>The part of \<open>dyn_hash_update\<close> that fills a block begun by an earlier call, the loop over full
  blocks and the copy of the rest.\<close>

definition hash_fill :: "dyn_hash_ctx \<Rightarrow> bytes \<Rightarrow> dyn_hash_ctx \<times> bytes" where
  "hash_fill c data =
     (let block = alg_block_size (hc_algo c) in
      if hc_buffer c \<noteq> [] then
        (let need = block - length (hc_buffer c);
             n = (if length data < need then length data else need);
             buffer = hc_buffer c @ take n data;
             data = drop n data
         in if length buffer = block
            then (c\<lparr>hc_st := alg_compress (hc_algo c) (hc_st c) buffer, hc_buffer := []\<rparr>, data)
            else (c\<lparr>hc_buffer := buffer\<rparr>, data))
      else (c, data))"

definition dyn_hash_update :: "dyn_hash_ctx \<Rightarrow> bytes \<Rightarrow> dyn_hash_ctx" where
  "dyn_hash_update c data =
     (let c = c\<lparr>hc_bytelen := hc_bytelen c + of_nat (length data)\<rparr>;
          (c, data) = hash_fill c data;
          (st, data) = absorb_blocks (alg_block_size (hc_algo c)) (alg_compress (hc_algo c)) (hc_st c) data;
          c = c\<lparr>hc_st := st\<rparr>
      in if data \<noteq> [] then c\<lparr>hc_buffer := data\<rparr> else c)"

text \<open>The length field: big-endian in 8 or 16 bytes, or little-endian in 8 bytes.\<close>

definition hash_length_field :: "dyn_hash_algo \<Rightarrow> u64 \<Rightarrow> bytes" where
  "hash_length_field a bytelen =
     (let bits = push_bit 3 bytelen; bits_hi = drop_bit 61 bytelen in
      if alg_big_endian_len a then
        (if alg_len_bytes a = 16 then store_be64 bits_hi @ store_be64 bits else store_be64 bits)
      else map (\<lambda>i. ucast (drop_bit (8 * i) bits)) [0..<8])"

text \<open>The finalisation leaves the padded last block in the buffer and does not touch \<open>buflen\<close>.\<close>

definition dyn_hash_final :: "dyn_hash_ctx \<Rightarrow> dyn_hash_ctx \<times> bytes" where
  "dyn_hash_final c =
     (let a = hc_algo c; block = alg_block_size a; lenb = alg_len_bytes a;
          buf = hc_buffer c @ [0x80];
          (st, buf) =
            (if length buf > block - lenb then (alg_compress a (hc_st c) (buf @ replicate (block - length buf) 0), [])
             else (hc_st c, buf));
          buf = buf @ replicate (block - lenb - length buf) 0 @ hash_length_field a (hc_bytelen c);
          st = alg_compress a st buf
      in (c\<lparr>hc_st := st, hc_buffer := take (length (hc_buffer c)) buf\<rparr>, alg_extract a st))"

definition dyn_hash_reset :: "dyn_hash_ctx \<Rightarrow> dyn_hash_ctx" where
  "dyn_hash_reset c = dyn_hash_init (hc_algo c)"

definition dyn_hash_oneshot :: "dyn_hash_algo \<Rightarrow> bytes \<Rightarrow> bytes" where
  "dyn_hash_oneshot a data = snd (dyn_hash_final (dyn_hash_update (dyn_hash_init a) data))"

definition dyn_md5 :: "sha2_cpu \<Rightarrow> bytes \<Rightarrow> bytes" where
  "dyn_md5 T data = dyn_hash_oneshot (dyn_hash_algos T DYN_HASH_MD5) data"

definition dyn_sha1 :: "sha2_cpu \<Rightarrow> bytes \<Rightarrow> bytes" where
  "dyn_sha1 T data = dyn_hash_oneshot (dyn_hash_algos T DYN_HASH_SHA1) data"

definition dyn_sha256 :: "sha2_cpu \<Rightarrow> bytes \<Rightarrow> bytes" where
  "dyn_sha256 T data = dyn_hash_oneshot (dyn_hash_algos T DYN_HASH_SHA256) data"

subsection \<open>The context is a block stream\<close>

definition hash_ctx_ok :: "dyn_hash_ctx \<Rightarrow> bool" where
  "hash_ctx_ok c \<longleftrightarrow> 0 < alg_block_size (hc_algo c) \<and> length (hc_buffer c) < alg_block_size (hc_algo c)"

lemma hash_fill_cases:
  assumes "hash_ctx_ok c" "hash_fill c data = (c', data')"
  shows "hc_algo c' = hc_algo c \<and> hc_bytelen c' = hc_bytelen c \<and> (hc_buffer c' \<noteq> [] \<longrightarrow> data' = []) \<and>
    length (hc_buffer c') < alg_block_size (hc_algo c) \<and>
    absorb_blocks (alg_block_size (hc_algo c)) (alg_compress (hc_algo c)) (hc_st c) (hc_buffer c @ data) =
    absorb_blocks (alg_block_size (hc_algo c)) (alg_compress (hc_algo c)) (hc_st c') (hc_buffer c' @ data')"
proof (cases "hc_buffer c = []")
  case True
  then show ?thesis using assms by (auto simp: hash_fill_def hash_ctx_ok_def Let_def)
next
  case False
  define block where "block = alg_block_size (hc_algo c)"
  define need where "need = block - length (hc_buffer c)"
  have ok: "0 < block" "length (hc_buffer c) < block" using assms(1) by (simp_all add: hash_ctx_ok_def block_def)
  show ?thesis
  proof (cases "length data < need")
    case True
    then have "length (hc_buffer c @ data) \<noteq> block" by (simp add: need_def)
    then have c': "c' = c\<lparr>hc_buffer := hc_buffer c @ data\<rparr>" "data' = []"
      using assms(2) False True by (auto simp: hash_fill_def Let_def block_def [symmetric] need_def [symmetric])
    then show ?thesis using True by (simp add: need_def block_def)
  next
    case full: False
    then have len: "length (hc_buffer c @ take need data) = block" using ok by (simp add: need_def)
    then have c': "c' = c\<lparr>hc_st := alg_compress (hc_algo c) (hc_st c) (hc_buffer c @ take need data), hc_buffer := []\<rparr>"
      "data' = drop need data"
      using assms(2) False full by (auto simp: hash_fill_def Let_def block_def [symmetric] need_def [symmetric])
    have "hc_buffer c @ data = (hc_buffer c @ take need data) @ data'" by (simp add: c')
    then show ?thesis
      using absorb_blocks_step [OF ok(1) len, of "alg_compress (hc_algo c)" "hc_st c" data'] ok(1)
      by (simp add: c' block_def)
  qed
qed

lemma dyn_hash_update_core:
  assumes "hash_ctx_ok c"
  shows "hc_algo (dyn_hash_update c data) = hc_algo c"
    and "hc_bytelen (dyn_hash_update c data) = hc_bytelen c + of_nat (length data)"
    and "(hc_st (dyn_hash_update c data), hc_buffer (dyn_hash_update c data)) =
      absorb_blocks (alg_block_size (hc_algo c)) (alg_compress (hc_algo c)) (hc_st c) (hc_buffer c @ data)"
proof -
  define c0 where "c0 = c\<lparr>hc_bytelen := hc_bytelen c + of_nat (length data)\<rparr>"
  have ok: "hash_ctx_ok c0" using assms by (simp add: c0_def hash_ctx_ok_def)
  obtain c1 d1 where f: "hash_fill c0 data = (c1, d1)" by fastforce
  note fill = hash_fill_cases [OF ok f]
  obtain st r where a: "absorb_blocks (alg_block_size (hc_algo c1)) (alg_compress (hc_algo c1)) (hc_st c1) d1 = (st, r)" by fastforce
  have u: "dyn_hash_update c data = (if r \<noteq> [] then c1\<lparr>hc_st := st, hc_buffer := r\<rparr> else c1\<lparr>hc_st := st\<rparr>)"
    by (simp add: dyn_hash_update_def Let_def c0_def [symmetric] f a)
  show "hc_algo (dyn_hash_update c data) = hc_algo c"
    "hc_bytelen (dyn_hash_update c data) = hc_bytelen c + of_nat (length data)"
    using fill u by (auto simp: c0_def)
  have "absorb_blocks (alg_block_size (hc_algo c)) (alg_compress (hc_algo c)) (hc_st c) (hc_buffer c @ data) =
      absorb_blocks (alg_block_size (hc_algo c1)) (alg_compress (hc_algo c1)) (hc_st c1) (hc_buffer c1 @ d1)"
    using fill by (simp add: c0_def)
  also have "\<dots> = (st, if r \<noteq> [] then r else hc_buffer c1)"
  proof (cases "hc_buffer c1 = []")
    case False
    then have "d1 = []" using fill by blast
    moreover have "st = hc_st c1 \<and> r = []" using a \<open>d1 = []\<close> ok fill by (simp add: hash_ctx_ok_def c0_def)
    ultimately show ?thesis using fill by (simp add: c0_def)
  qed (simp add: a)
  finally show "(hc_st (dyn_hash_update c data), hc_buffer (dyn_hash_update c data)) =
      absorb_blocks (alg_block_size (hc_algo c)) (alg_compress (hc_algo c)) (hc_st c) (hc_buffer c @ data)"
    using u by (cases "r = []") simp_all
qed

lemma dyn_hash_update_ok: "hash_ctx_ok c \<Longrightarrow> hash_ctx_ok (dyn_hash_update c data)"
  using absorb_blocks_rest [of "alg_block_size (hc_algo c)" "alg_compress (hc_algo c)" "hc_st c" "hc_buffer c @ data"]
    dyn_hash_update_core(1,3) [of c data]
  by (simp add: hash_ctx_ok_def) (metis snd_conv)

interpretation hs: block_stream dyn_hash_update "\<lambda>c. alg_block_size (hc_algo c)" "\<lambda>c. alg_compress (hc_algo c)"
  "\<lambda>c. (hc_st c, hc_buffer c)" hc_bytelen hash_ctx_ok
proof unfold_locales
  fix c :: dyn_hash_ctx and d :: bytes
  assume ok: "hash_ctx_ok c"
  show "0 < alg_block_size (hc_algo c)" "length (snd (hc_st c, hc_buffer c)) < alg_block_size (hc_algo c)"
    using ok by (simp_all add: hash_ctx_ok_def)
qed (simp_all add: dyn_hash_update_core dyn_hash_update_ok)

subsection \<open>Padding\<close>

text \<open>The reference: the padding of RFC 1321 and FIPS 180-4, the blocks of a padded message and the iterated
  compression.\<close>

definition hash_zeros :: "dyn_hash_algo \<Rightarrow> nat \<Rightarrow> nat" where
  "hash_zeros a n = (alg_block_size a - (n + 1 + alg_len_bytes a) mod alg_block_size a) mod alg_block_size a"

definition hash_pad :: "dyn_hash_algo \<Rightarrow> bytes \<Rightarrow> bytes" where
  "hash_pad a m = m @ 0x80 # replicate (hash_zeros a (length m)) 0 @
     (if alg_big_endian_len a then be_bytes else le_bytes) (alg_len_bytes a) (8 * length m)"

definition hash_blocks :: "nat \<Rightarrow> bytes \<Rightarrow> bytes list" where
  "hash_blocks n m = map (\<lambda>i. take n (drop (i * n) m)) [0..<length m div n]"

definition hash_ref :: "dyn_hash_algo \<Rightarrow> bytes \<Rightarrow> bytes" where
  "hash_ref a m = alg_extract a (foldl (alg_compress a) (alg_init a) (hash_blocks (alg_block_size a) (hash_pad a m)))"

definition hash_algo_ok :: "dyn_hash_algo \<Rightarrow> bool" where
  "hash_algo_ok a \<longleftrightarrow> 0 < alg_block_size a \<and> alg_len_bytes a \<le> alg_block_size a \<and>
     (alg_len_bytes a = 8 \<or> alg_len_bytes a = 16 \<and> alg_big_endian_len a)"

lemma hash_blocks_Cons:
  assumes "0 < n" "n \<le> length m"
  shows "hash_blocks n m = take n m # hash_blocks n (drop n m)"
proof -
  have d: "length m div n = Suc ((length m - n) div n)" using assms by (simp add: le_div_geq)
  show ?thesis
    unfolding hash_blocks_def d by (simp add: upt_conv_Cons map_Suc_upt [symmetric] comp_def add.commute del: upt_Suc)
qed

lemma absorb_blocks_foldl:
  "0 < n \<Longrightarrow> absorb_blocks n f st m = (foldl f st (hash_blocks n m), drop (n * (length m div n)) m)"
proof (induction m arbitrary: st rule: length_induct)
  case (1 m)
  show ?case
  proof (cases "n \<le> length m")
    case True
    have d: "length m div n = Suc ((length m - n) div n)" using 1(2) True by (simp add: le_div_geq)
    have "absorb_blocks n f st m = absorb_blocks n f (f st (take n m)) (drop n m)"
      using absorb_blocks_step [OF 1(2), of "take n m" f st "drop n m"] True by simp
    also have "\<dots> = (foldl f st (hash_blocks n m), drop (n * ((length m - n) div n)) (drop n m))"
      using 1 True by (simp add: hash_blocks_Cons)
    finally show ?thesis unfolding d by (simp add: add.commute)
  next
    case False
    then show ?thesis by (simp add: hash_blocks_def)
  qed
qed

lemma hash_zeros_mod: "hash_zeros a (n mod alg_block_size a) = hash_zeros a n"
  unfolding hash_zeros_def by (metis add.assoc mod_add_left_eq)

lemma hash_zeros_eq:
  assumes "hash_algo_ok a" "n < alg_block_size a"
  shows "hash_zeros a n =
    (if n + 1 > alg_block_size a - alg_len_bytes a then alg_block_size a - (n + 1) + (alg_block_size a - alg_len_bytes a)
     else alg_block_size a - alg_len_bytes a - (n + 1))"
proof -
  define b l where "b = alg_block_size a" "l = alg_len_bytes a"
  have ok: "l \<le> b" "n < b" using assms by (simp_all add: hash_algo_ok_def b_l_def)
  consider "n + 1 + l < b" | "n + 1 + l = b" | "b < n + 1 + l" "n + 1 + l < 2 * b" | "n + 1 + l = 2 * b"
    using ok by linarith
  then have "(b - (n + 1 + l) mod b) mod b = (if n + 1 > b - l then b - (n + 1) + (b - l) else b - l - (n + 1))"
  proof cases
    case 3
    then have "(n + 1 + l) mod b = n + 1 + l - b" by (intro mod_eq_sub) simp_all
    then show ?thesis using 3 ok by simp
  qed (use ok in auto)
  then show ?thesis by (simp add: hash_zeros_def b_l_def)
qed

lemma length_byte:
  assumes "k + 8 \<le> 64"
  shows "ucast (drop_bit k (push_bit 3 (of_nat n :: u64))) = (of_nat (8 * n div 2 ^ k) :: byte)"
proof -
  have "8 * n div 2 ^ k = drop_bit k (push_bit 3 n)" by (simp add: drop_bit_eq_div push_bit_eq_mult mult.commute)
  then show ?thesis
    using assms by (simp only:) (rule bit_word_eqI, auto simp: bit_simps bit_of_nat_iff)
qed

lemma length_byte_high:
  assumes "n < 2 ^ 64"
  shows "ucast (drop_bit k (drop_bit 61 (of_nat n :: u64))) = (of_nat (8 * n div 2 ^ (64 + k)) :: byte)"
proof -
  have high: "i < 64" if "bit n i" for i
  proof (rule ccontr)
    assume "\<not> i < 64"
    then have "n < 2 ^ i" using assms power_increasing [of 64 i "2 :: nat"] by simp
    then show False using that by (simp add: bit_iff_odd)
  qed
  have "8 * n div 2 ^ (64 + k) = drop_bit (64 + k) (push_bit 3 n)" by (simp add: drop_bit_eq_div push_bit_eq_mult mult.commute)
  then show ?thesis
    by (simp only:) (rule bit_word_eqI, auto simp: bit_simps bit_of_nat_iff ac_simps dest: high)
qed

lemma hash_length_field_eq:
  assumes "hash_algo_ok a" "n < 2 ^ 64"
  shows "hash_length_field a (of_nat n) = (if alg_big_endian_len a then be_bytes else le_bytes) (alg_len_bytes a) (8 * n)"
proof -
  have p: "(256 :: nat) ^ i = 2 ^ (8 * i)" for i by (simp add: power_mult)
  have "map (\<lambda>i. ucast (drop_bit (8 * i) (push_bit 3 (of_nat n :: u64)))) [0..<8] = le_bytes 8 (8 * n)"
    by (auto simp: le_bytes_def p intro!: length_byte)
  moreover have be: "store_be64 (push_bit 3 (of_nat n)) = map (\<lambda>i. of_nat (8 * n div 2 ^ (56 - 8 * i))) [0..<8]"
    by (auto simp: store_be64_def intro!: length_byte)
  moreover have "store_be64 (drop_bit 61 (of_nat n)) = map (\<lambda>i. of_nat (8 * n div 2 ^ (64 + (56 - 8 * i)))) [0..<8]"
    unfolding store_be64_def by (rule map_cong [OF refl], rule length_byte_high [OF assms(2)])
  moreover have "[0..<16] = [0..<8] @ map (\<lambda>i. i + 8) [0..<8 :: nat]"
    by (simp add: upt_add_eq_append [of 0 8 8, simplified] map_add_upt)
  moreover have "56 - 8 * i = 8 * (7 - i)" "64 + (56 - 8 * j) = 8 * (15 - j)" if "j < 8" for i j :: nat using that by auto
  ultimately show ?thesis
    using assms(1) by (auto simp: hash_algo_ok_def hash_length_field_def Let_def be_bytes_def p)
qed

text \<open>The bytes that finalisation appends to the buffered ones.\<close>

definition hash_tail :: "dyn_hash_algo \<Rightarrow> nat \<Rightarrow> u64 \<Rightarrow> bytes" where
  "hash_tail a n bytelen = 0x80 # replicate (hash_zeros a n) 0 @ hash_length_field a bytelen"

lemma hash_length_field_length: "hash_algo_ok a \<Longrightarrow> length (hash_length_field a n) = alg_len_bytes a"
  by (auto simp: hash_algo_ok_def hash_length_field_def Let_def)

lemma dyn_hash_final_absorb:
  assumes "hash_ctx_ok c" "hash_algo_ok (hc_algo c)"
  defines "a \<equiv> hc_algo c" and "n \<equiv> length (hc_buffer c)"
  shows "snd (dyn_hash_final c) = alg_extract a (hc_st (fst (dyn_hash_final c)))"
    and "absorb_blocks (alg_block_size a) (alg_compress a) (hc_st c) (hc_buffer c @ hash_tail a n (hc_bytelen c)) =
      (hc_st (fst (dyn_hash_final c)), [])"
proof -
  define b l where "b = alg_block_size a" "l = alg_len_bytes a"
  define lf where "lf = hash_length_field a (hc_bytelen c)"
  have ok: "0 < b" "n < b" "l \<le> b" "length lf = l"
    using assms hash_length_field_length [OF assms(2)] by (simp_all add: hash_ctx_ok_def hash_algo_ok_def b_l_def lf_def)
  note z = hash_zeros_eq [OF assms(2), of n, folded a_def b_l_def, OF ok(2)]
  show "snd (dyn_hash_final c) = alg_extract a (hc_st (fst (dyn_hash_final c)))"
    by (simp add: dyn_hash_final_def Let_def a_def)
  show "absorb_blocks (alg_block_size a) (alg_compress a) (hc_st c) (hc_buffer c @ hash_tail a n (hc_bytelen c)) =
      (hc_st (fst (dyn_hash_final c)), [])"
  proof (cases "n + 1 > b - l")
    case True
    define b1 where "b1 = hc_buffer c @ 0x80 # replicate (b - (n + 1)) 0"
    define b2 where "b2 = replicate (b - l) 0 @ lf"
    have len: "length b1 = b" "length b2 = b" using ok by (simp_all add: b1_def b2_def n_def)
    have "hc_buffer c @ hash_tail a n (hc_bytelen c) = b1 @ b2 @ []"
      using True by (simp add: hash_tail_def z replicate_add b1_def b2_def lf_def)
    moreover have "hc_st (fst (dyn_hash_final c)) = alg_compress a (alg_compress a (hc_st c) b1) b2"
      using True by (simp add: dyn_hash_final_def Let_def n_def b1_def b2_def lf_def b_l_def flip: a_def)
    ultimately show ?thesis using ok(1) by (simp only: absorb_blocks_step [OF _ len(1)] absorb_blocks_step [OF _ len(2)] flip: b_l_def) simp
  next
    case False
    define b2 where "b2 = hc_buffer c @ 0x80 # replicate (b - l - (n + 1)) 0 @ lf"
    have len: "length b2 = b" using False ok by (simp add: b2_def n_def)
    have "hc_buffer c @ hash_tail a n (hc_bytelen c) = b2 @ []"
      using False by (simp add: hash_tail_def z b2_def lf_def)
    moreover have "hc_st (fst (dyn_hash_final c)) = alg_compress a (hc_st c) b2"
      using False by (simp add: dyn_hash_final_def Let_def n_def b2_def lf_def b_l_def flip: a_def)
    ultimately show ?thesis using ok(1) by (simp only: absorb_blocks_step [OF _ len] flip: b_l_def) simp
  qed
qed

lemma hash_pad_tail:
  assumes "hash_algo_ok a" "length m < 2 ^ 64" "n = length m mod alg_block_size a"
  shows "m @ hash_tail a n (of_nat (length m)) = hash_pad a m"
  using assms by (simp add: hash_tail_def hash_pad_def hash_zeros_mod hash_length_field_eq)

text \<open>Finalising a context that has absorbed the message, from a state at a block boundary.\<close>

lemma dyn_hash_final_blocks:
  assumes "hash_ctx_ok c" "hash_algo_ok (hc_algo c)" "a = hc_algo c" "hc_bytelen c = of_nat (length m)" "length m < 2 ^ 64"
    and "absorb_blocks (alg_block_size a) (alg_compress a) (alg_init a) m = (hc_st c, hc_buffer c)"
  shows "snd (dyn_hash_final c) = hash_ref a m"
proof -
  have b: "0 < alg_block_size a" using assms by (simp add: hash_algo_ok_def)
  have "hc_buffer c = drop (alg_block_size a * (length m div alg_block_size a)) m"
    using assms(6) by (simp add: absorb_blocks_foldl [OF b])
  then have n: "length (hc_buffer c) = length m mod alg_block_size a" by (simp add: minus_mult_div_eq_mod)
  have "absorb_blocks (alg_block_size a) (alg_compress a) (alg_init a) (hash_pad a m) =
      absorb_blocks (alg_block_size a) (alg_compress a) (hc_st c) (hc_buffer c @ hash_tail a (length (hc_buffer c)) (hc_bytelen c))"
    using hash_pad_tail [of a m "length (hc_buffer c)"] assms n absorb_blocks_append [OF b, of "alg_compress a" "alg_init a" m]
    by (simp add: assms(4) flip: hash_pad_tail)
  then have "fst (absorb_blocks (alg_block_size a) (alg_compress a) (alg_init a) (hash_pad a m)) = hc_st (fst (dyn_hash_final c))"
    using dyn_hash_final_absorb(2) [OF assms(1,2)] assms(3) by simp
  then have "foldl (alg_compress a) (alg_init a) (hash_blocks (alg_block_size a) (hash_pad a m)) = hc_st (fst (dyn_hash_final c))"
    by (simp add: absorb_blocks_foldl [OF b])
  then show ?thesis
    using dyn_hash_final_absorb(1) [OF assms(1,2)] assms(3) by (simp add: hash_ref_def)
qed

lemma dyn_hash_algos_ok [simp]: "hash_algo_ok (dyn_hash_algos T i)"
  by (cases i) (simp_all add: hash_algo_ok_def)

lemma dyn_hash_init_ok: "hash_algo_ok a \<Longrightarrow> hash_ctx_ok (dyn_hash_init a)"
  by (simp add: hash_ctx_ok_def dyn_hash_init_def hash_algo_ok_def)

lemma hash_updates_algo: "hash_ctx_ok c \<Longrightarrow> hc_algo (foldl dyn_hash_update c ds) = hc_algo c"
  by (induction ds arbitrary: c) (simp_all add: dyn_hash_update_core dyn_hash_update_ok)

lemma dyn_hash_chunks:
  assumes "hash_algo_ok a" "length (concat ds) < 2 ^ 64"
  shows "snd (dyn_hash_final (foldl dyn_hash_update (dyn_hash_init a) ds)) = hash_ref a (concat ds)"
proof (rule dyn_hash_final_blocks)
  note ok = dyn_hash_init_ok [OF assms(1)]
  let ?c = "foldl dyn_hash_update (dyn_hash_init a) ds"
  show "hash_ctx_ok ?c" by (rule hs.updates_ok [OF ok])
  show a: "a = hc_algo ?c" using hash_updates_algo [OF ok] by (simp add: dyn_hash_init_def)
  show "hash_algo_ok (hc_algo ?c)" using assms(1) a by simp
  show "hc_bytelen ?c = of_nat (length (concat ds))" using hs.updates_total [OF ok] by (simp add: dyn_hash_init_def)
  show "absorb_blocks (alg_block_size a) (alg_compress a) (alg_init a) (concat ds) = (hc_st ?c, hc_buffer ?c)"
    using hs.updates_core [OF ok, of ds] by (simp add: dyn_hash_init_def)
qed (rule assms(2))

subsection \<open>Shapes\<close>

primrec hash_shape :: "dyn_hash_algo_id \<Rightarrow> dyn_hash_state \<Rightarrow> bool" where
  "hash_shape DYN_HASH_MD5 st = (case st of W32 v \<Rightarrow> length v = 4 | W64 _ \<Rightarrow> False)"
| "hash_shape DYN_HASH_SHA1 st = (case st of W32 v \<Rightarrow> length v = 5 | W64 _ \<Rightarrow> False)"
| "hash_shape DYN_HASH_SHA224 st = (case st of W32 v \<Rightarrow> length v = 8 | W64 _ \<Rightarrow> False)"
| "hash_shape DYN_HASH_SHA256 st = (case st of W32 v \<Rightarrow> length v = 8 | W64 _ \<Rightarrow> False)"
| "hash_shape DYN_HASH_SHA384 st = (case st of W64 v \<Rightarrow> length v = 8 | W32 _ \<Rightarrow> False)"
| "hash_shape DYN_HASH_SHA512 st = (case st of W64 v \<Rightarrow> length v = 8 | W32 _ \<Rightarrow> False)"

definition hash_typed :: "sha2_cpu \<Rightarrow> dyn_hash_algo_id \<Rightarrow> dyn_hash_ctx \<Rightarrow> bool" where
  "hash_typed T i c \<longleftrightarrow> hc_algo c = dyn_hash_algos T i \<and> hash_shape i (hc_st c) \<and>
     length (hc_buffer c) < alg_block_size (dyn_hash_algos T i)"

lemma hash_shape_init: "hash_shape i (alg_init (dyn_hash_algos T i))"
  by (cases i) (simp_all add: md5_init_def sha1_init_def sha224_init_def sha256_init_def sha384_init_def sha512_init_def)

lemma sha256_compress_shape: "\<exists>ws. sha256_compress T st b = W32 ws \<and> length ws = 8"
proof -
  have s: "\<exists>ws. store_state x y = W32 ws \<and> length ws = 8" for x y by (cases x; cases y) simp
  have "\<exists>ws. sha256_compress_sw st b = W32 ws \<and> length ws = 8"
    by (simp add: sha256_compress_sw_def Let_def split: prod.split)
  moreover have "\<exists>ws. sha256_compress_hw arm st b = W32 ws \<and> length ws = 8" for arm
    unfolding sha256_compress_hw_def Let_def case_prod_beta by (rule s)
  moreover have "\<exists>ws. sha256_compress_sha_ni ni st b = W32 ws \<and> length ws = 8" for ni
    unfolding sha256_compress_sha_ni_def Let_def case_prod_beta by (rule s)
  ultimately show ?thesis by (simp add: sha256_compress_def split: sha2_cpu.split)
qed

lemma hash_shape_compress: "hash_shape i (alg_compress (dyn_hash_algos T i) st b)"
  using sha256_compress_shape [of T st b]
  by (cases i) (auto simp: md5_compress_def sha1_compress_def sha512_compress_def Let_def split: prod.split)

lemma hash_extract_length: "length (alg_extract (dyn_hash_algos T i) st) = alg_digest_size (dyn_hash_algos T i)"
  by (cases i) (simp_all add: md5_extract_def sha1_extract_def sha224_extract_def sha256_extract_def sha384_extract_def
      sha512_extract_def length_concat comp_def sum_list_triv Let_def)

lemma absorb_blocks_shape:
  "hash_shape i st \<Longrightarrow> hash_shape i (fst (absorb_blocks n (alg_compress (dyn_hash_algos T i)) st m))"
proof (induction m arbitrary: st rule: length_induct)
  case (1 m)
  show ?case
  proof (cases "0 < n \<and> n \<le> length m")
    case True
    then have "hash_shape i (fst (absorb_blocks n (alg_compress (dyn_hash_algos T i))
        (alg_compress (dyn_hash_algos T i) st (take n m)) (drop n m)))"
      by (intro 1(1) [rule_format] hash_shape_compress) auto
    then show ?thesis using True by (subst absorb_blocks.simps) simp
  next
    case False
    then show ?thesis using 1(2) by (subst absorb_blocks.simps) auto
  qed
qed

lemma hash_typed_ok: "hash_typed T i c \<Longrightarrow> hash_ctx_ok c \<and> hash_algo_ok (hc_algo c)"
  using dyn_hash_algos_ok [of T i] by (auto simp: hash_typed_def hash_ctx_ok_def hash_algo_ok_def)

lemma hash_typed_update: "hash_typed T i c \<Longrightarrow> hash_typed T i (dyn_hash_update c d)"
  using dyn_hash_update_core [of c d] dyn_hash_update_ok [of c d] hash_typed_ok [of T i c]
    absorb_blocks_shape [of i "hc_st c" "alg_block_size (dyn_hash_algos T i)" T "hc_buffer c @ d"]
  by (auto simp: hash_typed_def hash_ctx_ok_def) (metis fst_conv)

lemma hash_typed_final:
  assumes "hash_typed T i c"
  shows "hash_typed T i (fst (dyn_hash_final c))"
    and "length (snd (dyn_hash_final c)) = alg_digest_size (dyn_hash_algos T i)"
  using assms by (auto simp: hash_typed_def dyn_hash_final_def Let_def hash_shape_compress hash_extract_length)

lemma hash_typed_init: "hash_typed T i (dyn_hash_init (dyn_hash_algos T i))"
  using dyn_hash_algos_ok [of T i] by (simp add: hash_typed_def dyn_hash_init_def hash_shape_init hash_algo_ok_def)

subsection \<open>Properties\<close>

text \<open>C8. However a message of less than \<open>2 ^ 64\<close> bytes is cut into calls of \<open>dyn_hash_update\<close>, the digest is the
  iterated compression of the padded message, and the one-shot function gives the same digest. This
  holds for all six algorithms of the table.\<close>

theorem dyn_hash_chunks_ref:
  assumes "length (concat ds) < 2 ^ 64"
  shows "snd (dyn_hash_final (foldl dyn_hash_update (dyn_hash_init (dyn_hash_algos T i)) ds)) =
      hash_ref (dyn_hash_algos T i) (concat ds) \<and>
    dyn_hash_oneshot (dyn_hash_algos T i) (concat ds) = hash_ref (dyn_hash_algos T i) (concat ds)"
  using dyn_hash_chunks [of "dyn_hash_algos T i" ds] dyn_hash_chunks [of "dyn_hash_algos T i" "[concat ds]"] assms
  by (simp add: dyn_hash_oneshot_def)

theorem dyn_hash_chunks_ref_witness:
  "length (concat [[0x61], [0x62, 0x63 :: byte]]) < (2 :: nat) ^ 64 \<and>
   (let a = dyn_hash_algos SHA2_GENERIC DYN_HASH_SHA1 in
    snd (dyn_hash_final (foldl dyn_hash_update (dyn_hash_init a) [[0x61], [0x62, 0x63]])) = hash_ref a [0x61, 0x62, 0x63])"
  using dyn_hash_chunks_ref [of "[[0x61], [0x62, 0x63]]" SHA2_GENERIC DYN_HASH_SHA1]
  by (simp add: Let_def)

text \<open>C32. Every operation keeps a hash context of its type: the chaining value has the number and width of words
  of its algorithm, the buffer holds less than a block and a block fits the array \<open>buffer\<close> of the context;
  the digest has the size that the algorithm table promises and fits \<open>DYN_HASH_MAX_DIGEST\<close>.\<close>

theorem dyn_hash_ctx_typed:
  "hash_typed T i (dyn_hash_init (dyn_hash_algos T i)) \<and>
   (hash_typed T i c \<longrightarrow>
      hash_typed T i (dyn_hash_update c d) \<and> hash_typed T i (dyn_hash_reset c) \<and> hash_typed T i (fst (dyn_hash_final c)) \<and>
      length (snd (dyn_hash_final c)) = alg_digest_size (dyn_hash_algos T i)) \<and>
   alg_block_size (dyn_hash_algos T i) \<le> DYN_HASH_MAX_BLOCK \<and> alg_digest_size (dyn_hash_algos T i) \<le> DYN_HASH_MAX_DIGEST"
proof -
  have "hash_typed T i (dyn_hash_reset c)" if "hash_typed T i c"
    using that hash_typed_init by (simp add: dyn_hash_reset_def hash_typed_def)
  moreover have "alg_block_size (dyn_hash_algos T i) \<le> DYN_HASH_MAX_BLOCK \<and> alg_digest_size (dyn_hash_algos T i) \<le> DYN_HASH_MAX_DIGEST"
    by (cases i) (simp_all add: DYN_HASH_MAX_BLOCK_def DYN_HASH_MAX_DIGEST_def)
  ultimately show ?thesis using hash_typed_init hash_typed_update hash_typed_final by blast
qed

theorem dyn_hash_ctx_typed_witness:
  "\<exists>T c. hash_typed T DYN_HASH_MD5 c \<and> length (snd (dyn_hash_final c)) = 16 \<and> hash_typed T DYN_HASH_MD5 (dyn_hash_update c [1, 2, 3])"
proof -
  let ?T = SHA2_GENERIC
  let ?c = "\<lparr>hc_algo = dyn_hash_algos ?T DYN_HASH_MD5, hc_st = W32 [1, 2, 3, 4], hc_buffer = [0x61], hc_bytelen = 65\<rparr>"
  have c: "hash_typed ?T DYN_HASH_MD5 ?c" by (simp add: hash_typed_def)
  then have "length (snd (dyn_hash_final ?c)) = 16 \<and> hash_typed ?T DYN_HASH_MD5 (dyn_hash_update ?c [1, 2, 3])"
    using dyn_hash_ctx_typed [of ?T DYN_HASH_MD5 ?c "[1, 2, 3]"] by simp
  with c show ?thesis by blast
qed

end
