(* ===== verification/HashMac.thy ===== *)
theory HashMac
  imports HashStream
begin

text \<open>
  Message authentication and key derivation of \<open>src/core/dyn-hash.c\<close>: one-shot and incremental HMAC,
  constant-time comparison, HKDF and PBKDF2, with their reference definitions. The wiping of temporary
  buffers (\<open>dyn_secure_zero\<close>) has no effect on results and is left out. A null pointer for a salt or an
  info string is the empty byte string, which the code treats alike.
\<close>

subsection \<open>Model\<close>

text \<open>\<open>k0\<close> is the zeroed array of \<open>DYN_HASH_MAX_BLOCK\<close> bytes that the callers pass; the copy overwrites its front.\<close>

definition dyn_hmac_key0 :: "dyn_hash_algo \<Rightarrow> bytes \<Rightarrow> bytes \<Rightarrow> bytes" where
  "dyn_hmac_key0 a key k0 =
     (if length key > alg_block_size a then
        (let d = snd (dyn_hash_final (dyn_hash_update (dyn_hash_init a) key)) in d @ drop (length d) k0)
      else key @ drop (length key) k0)"

definition hmac_pad :: "dyn_hash_algo \<Rightarrow> bytes \<Rightarrow> byte \<Rightarrow> bytes" where
  "hmac_pad a k0 x = map (\<lambda>i. k0 ! i XOR x) [0..<alg_block_size a]"

definition dyn_hmac_finish :: "dyn_hash_algo \<Rightarrow> bytes \<Rightarrow> bytes \<Rightarrow> bytes" where
  "dyn_hmac_finish a k0 msg =
     (let ipad = hmac_pad a k0 0x36;
          opad = hmac_pad a k0 0x5c;
          inner = snd (dyn_hash_final (dyn_hash_update (dyn_hash_update (dyn_hash_init a) ipad) msg))
      in snd (dyn_hash_final (dyn_hash_update (dyn_hash_update (dyn_hash_init a) opad) (take (alg_digest_size a) inner))))"

definition dyn_hmac :: "dyn_hash_algo \<Rightarrow> bytes \<Rightarrow> bytes \<Rightarrow> bytes" where
  "dyn_hmac a key msg =
     (let k0 = replicate DYN_HASH_MAX_BLOCK 0; k0 = dyn_hmac_key0 a key k0 in dyn_hmac_finish a k0 msg)"

record dyn_hmac_ctx =
  mc_h :: dyn_hash_ctx
  mc_algo :: dyn_hash_algo
  mc_istate :: dyn_hash_state
  mc_ostate :: dyn_hash_state

definition dyn_hmac_reset :: "dyn_hmac_ctx \<Rightarrow> dyn_hmac_ctx" where
  "dyn_hmac_reset c = c\<lparr>mc_h := \<lparr>hc_algo = mc_algo c, hc_st = mc_istate c, hc_buffer = [],
     hc_bytelen = of_nat (alg_block_size (mc_algo c))\<rparr>\<rparr>"

text \<open>The hash context is first written by \<open>dyn_hmac_reset\<close>; what it holds before is the argument \<open>h\<close>.\<close>

definition dyn_hmac_init :: "dyn_hash_ctx \<Rightarrow> dyn_hash_algo \<Rightarrow> bytes \<Rightarrow> dyn_hmac_ctx" where
  "dyn_hmac_init h a key =
     (let k0 = dyn_hmac_key0 a key (replicate DYN_HASH_MAX_BLOCK 0);
          istate = alg_compress a (alg_init a) (hmac_pad a k0 0x36);
          ostate = alg_compress a (alg_init a) (hmac_pad a k0 0x5c)
      in dyn_hmac_reset \<lparr>mc_h = h, mc_algo = a, mc_istate = istate, mc_ostate = ostate\<rparr>)"

definition dyn_hmac_update :: "dyn_hmac_ctx \<Rightarrow> bytes \<Rightarrow> dyn_hmac_ctx" where
  "dyn_hmac_update c data = c\<lparr>mc_h := dyn_hash_update (mc_h c) data\<rparr>"

definition dyn_hmac_final :: "dyn_hmac_ctx \<Rightarrow> dyn_hmac_ctx \<times> bytes" where
  "dyn_hmac_final c =
     (let a = mc_algo c;
          (h, inner) = dyn_hash_final (mc_h c);
          h = \<lparr>hc_algo = a, hc_st = mc_ostate c, hc_buffer = [], hc_bytelen = of_nat (alg_block_size a)\<rparr>;
          h = dyn_hash_update h (take (alg_digest_size a) inner);
          (h, out) = dyn_hash_final h
      in (dyn_hmac_reset (c\<lparr>mc_h := h\<rparr>), out))"

text \<open>The C function reads \<open>len\<close> bytes of either array; the model takes arrays of that length.\<close>

fun ct_diff :: "u64 \<Rightarrow> bytes \<Rightarrow> bytes \<Rightarrow> u64" where
  "ct_diff diff (x # a) (y # b) = ct_diff (diff OR ucast (x XOR y)) a b"
| "ct_diff diff _ _ = diff"

definition dyn_ct_equal :: "bytes \<Rightarrow> bytes \<Rightarrow> bool" where
  "dyn_ct_equal a b \<longleftrightarrow> ct_diff 0 a b = 0"

text \<open>The output loop of HKDF. \<open>t\<close> is the previous block, \<open>out\<close> the bytes written so far.\<close>

partial_function (option) hkdf_loop ::
  "bytes \<Rightarrow> nat \<Rightarrow> nat \<Rightarrow> dyn_hmac_ctx \<Rightarrow> bytes \<Rightarrow> u32 \<Rightarrow> bytes \<Rightarrow> bytes option" where
  "hkdf_loop info hl out_len hc t counter out =
     (if length out < out_len then
        (let cb = ucast counter :: byte;
             hc = (if counter > 1 then dyn_hmac_update hc (take hl t) else hc);
             hc = (if info \<noteq> [] then dyn_hmac_update hc info else hc);
             hc = dyn_hmac_update hc [cb];
             (hc, t) = dyn_hmac_final hc;
             n = (if out_len - length out < hl then out_len - length out else hl)
         in hkdf_loop info hl out_len hc t (counter + 1) (out @ take n t))
      else Some out)"

definition dyn_hkdf :: "dyn_hash_ctx \<Rightarrow> dyn_hash_algo option \<Rightarrow> bytes \<Rightarrow> bytes \<Rightarrow> bytes \<Rightarrow> nat \<Rightarrow> bytes option option" where
  "dyn_hkdf h algo ikm salt info out_len =
     (case algo of None \<Rightarrow> Some None
      | Some a \<Rightarrow>
         (let hl = alg_digest_size a in
          if out_len > 255 * hl then Some None
          else
            (let salt = (if salt = [] then replicate hl 0 else salt);
                 prk = dyn_hmac a salt ikm;
                 hc = dyn_hmac_init h a (take hl prk)
             in map_option Some (hkdf_loop info hl out_len hc [] 1 []))))"

text \<open>The iterations of one PBKDF2 block after the first: \<open>u\<close> is the previous digest.\<close>

primrec pbkdf2_iter :: "nat \<Rightarrow> nat \<Rightarrow> dyn_hmac_ctx \<Rightarrow> bytes \<Rightarrow> bytes \<Rightarrow> dyn_hmac_ctx \<times> bytes" where
  "pbkdf2_iter hl 0 hc u acc = (hc, acc)"
| "pbkdf2_iter hl (Suc k) hc u acc =
     (let hc = dyn_hmac_update hc (take hl u);
          (hc, u) = dyn_hmac_final hc
      in pbkdf2_iter hl k hc u (map (\<lambda>i. acc ! i XOR u ! i) [0..<hl]))"

partial_function (option) pbkdf2_loop ::
  "bytes \<Rightarrow> u32 \<Rightarrow> nat \<Rightarrow> nat \<Rightarrow> dyn_hmac_ctx \<Rightarrow> u32 \<Rightarrow> bytes \<Rightarrow> bytes option" where
  "pbkdf2_loop salt iters hl out_len hc block out =
     (if length out < out_len then
        (let be = [ucast (drop_bit 24 block), ucast (drop_bit 16 block), ucast (drop_bit 8 block), ucast block :: byte];
             hc = (if salt \<noteq> [] then dyn_hmac_update hc salt else hc);
             hc = dyn_hmac_update hc be;
             (hc, u) = dyn_hmac_final hc;
             acc = take hl u;
             (hc, acc) = pbkdf2_iter hl (unat iters - 1) hc u acc;
             n = (if out_len - length out < hl then out_len - length out else hl)
         in pbkdf2_loop salt iters hl out_len hc (block + 1) (out @ take n acc))
      else Some out)"

definition dyn_pbkdf2 :: "dyn_hash_ctx \<Rightarrow> dyn_hash_algo option \<Rightarrow> bytes \<Rightarrow> bytes \<Rightarrow> u32 \<Rightarrow> nat \<Rightarrow> bytes option option" where
  "dyn_pbkdf2 h algo pw salt iters out_len =
     (case algo of None \<Rightarrow> Some None
      | Some a \<Rightarrow>
         if iters < 1 then Some None
         else map_option Some
           (pbkdf2_loop salt iters (alg_digest_size a) out_len (dyn_hmac_init h a pw) 1 []))"

subsection \<open>HMAC\<close>

text \<open>FIPS 198-1: the key brought to the block size, and the nested hash.\<close>

definition hmac_K0 :: "dyn_hash_algo \<Rightarrow> bytes \<Rightarrow> bytes" where
  "hmac_K0 a key = (let k = (if length key > alg_block_size a then hash_ref a key else key)
     in k @ replicate (alg_block_size a - length k) 0)"

definition hmac_ref :: "dyn_hash_algo \<Rightarrow> bytes \<Rightarrow> bytes \<Rightarrow> bytes" where
  "hmac_ref a key msg =
     hash_ref a (map (\<lambda>b. b XOR 0x5c) (hmac_K0 a key) @ hash_ref a (map (\<lambda>b. b XOR 0x36) (hmac_K0 a key) @ msg))"

definition algo_good :: "dyn_hash_algo \<Rightarrow> bool" where
  "algo_good a \<longleftrightarrow> hash_algo_ok a \<and> alg_block_size a \<le> DYN_HASH_MAX_BLOCK \<and> 0 < alg_digest_size a \<and>
     alg_digest_size a \<le> alg_block_size a \<and> (\<forall>st. length (alg_extract a st) = alg_digest_size a)"

lemma dyn_hash_algos_good: "algo_good (dyn_hash_algos T i)"
proof -
  have "alg_block_size (dyn_hash_algos T i) \<le> DYN_HASH_MAX_BLOCK \<and> 0 < alg_digest_size (dyn_hash_algos T i) \<and>
      alg_digest_size (dyn_hash_algos T i) \<le> alg_block_size (dyn_hash_algos T i)"
    by (cases i) (simp_all add: DYN_HASH_MAX_BLOCK_def)
  then show ?thesis by (simp add: algo_good_def hash_extract_length)
qed

lemma hash_ref_length: "algo_good a \<Longrightarrow> length (hash_ref a m) = alg_digest_size a"
  by (simp add: algo_good_def hash_ref_def)

lemma hmac_ref_length: "algo_good a \<Longrightarrow> length (hmac_ref a key m) = alg_digest_size a"
  by (simp add: hmac_ref_def hash_ref_length)

lemma hmac_K0_length: "algo_good a \<Longrightarrow> length (hmac_K0 a key) = alg_block_size a"
  by (auto simp: hmac_K0_def Let_def hash_ref_length algo_good_def)

text \<open>Absorbing exactly one block.\<close>

lemma dyn_hash_update_block:
  assumes "hash_algo_ok a" "length b = alg_block_size a"
  shows "dyn_hash_update (dyn_hash_init a) b =
    \<lparr>hc_algo = a, hc_st = alg_compress a (alg_init a) b, hc_buffer = [], hc_bytelen = of_nat (alg_block_size a)\<rparr>"
proof -
  have "absorb_blocks (alg_block_size a) (alg_compress a) (alg_init a) (b @ []) = (alg_compress a (alg_init a) b, [])"
    using absorb_blocks_step [of "alg_block_size a" b "alg_compress a" "alg_init a" "[]"] assms
    by (simp add: hash_algo_ok_def)
  then show ?thesis
    using dyn_hash_update_core [OF dyn_hash_init_ok [OF assms(1)], of b] assms(2)
    by (intro dyn_hash_ctx.equality) (simp_all add: dyn_hash_init_def)
qed

lemma dyn_hash_two:
  assumes "hash_algo_ok a" "length x + length y < 2 ^ 64"
  shows "snd (dyn_hash_final (dyn_hash_update (dyn_hash_update (dyn_hash_init a) x) y)) = hash_ref a (x @ y)"
  using dyn_hash_chunks [OF assms(1), of "[x, y]"] assms(2) by simp

lemma hmac_pad_eq:
  assumes "algo_good a" "length key < 2 ^ 64"
  shows "hmac_pad a (dyn_hmac_key0 a key (replicate DYN_HASH_MAX_BLOCK 0)) x = map (\<lambda>b. b XOR x) (hmac_K0 a key)"
proof -
  define k where "k = (if length key > alg_block_size a then hash_ref a key else key)"
  have ok: "hash_algo_ok a" "alg_block_size a \<le> DYN_HASH_MAX_BLOCK" using assms(1) by (simp_all add: algo_good_def)
  have len: "length k \<le> alg_block_size a"
    using assms(1) by (auto simp: k_def hash_ref_length) (simp add: algo_good_def)
  have "dyn_hmac_key0 a key (replicate DYN_HASH_MAX_BLOCK 0) = k @ replicate (DYN_HASH_MAX_BLOCK - length k) 0"
    using dyn_hash_chunks [OF ok(1), of "[key]"] assms(2) by (simp add: dyn_hmac_key0_def k_def Let_def)
  moreover have "(k @ replicate (DYN_HASH_MAX_BLOCK - length k) 0) ! i = hmac_K0 a key ! i" if "i < alg_block_size a" for i
    using that len ok(2) by (simp add: hmac_K0_def k_def [symmetric] Let_def nth_append)
  ultimately show ?thesis
    using hmac_K0_length [OF assms(1), of key] by (intro nth_equalityI) (simp_all add: hmac_pad_def)
qed

definition hmac_room :: "dyn_hash_algo \<Rightarrow> bytes \<Rightarrow> nat \<Rightarrow> bool" where
  "hmac_room a key n \<longleftrightarrow> length key < 2 ^ 64 \<and> n + alg_block_size a < 2 ^ 64"

lemma digest_room: "algo_good a \<Longrightarrow> alg_block_size a + alg_digest_size a < 2 ^ 64"
  by (simp add: algo_good_def DYN_HASH_MAX_BLOCK_def)

lemma dyn_hmac_eq:
  assumes "algo_good a" "hmac_room a key (length msg)"
  shows "dyn_hmac a key msg = hmac_ref a key msg"
proof -
  have ok: "hash_algo_ok a" using assms(1) by (simp add: algo_good_def)
  show ?thesis
    using assms digest_room [OF assms(1)]
    by (simp add: dyn_hmac_def dyn_hmac_finish_def Let_def hmac_pad_eq dyn_hash_two [OF ok] hmac_K0_length hash_ref_length
        hmac_ref_def hmac_room_def add.commute)
qed

lemma dyn_hmac_init_eq:
  assumes "algo_good a" "length key < 2 ^ 64"
  defines "pad \<equiv> \<lambda>x. map (\<lambda>b. b XOR x) (hmac_K0 a key)"
  shows "dyn_hmac_init h a key = \<lparr>mc_h = dyn_hash_update (dyn_hash_init a) (pad 0x36), mc_algo = a,
    mc_istate = alg_compress a (alg_init a) (pad 0x36), mc_ostate = alg_compress a (alg_init a) (pad 0x5c)\<rparr>"
proof -
  have ok: "hash_algo_ok a" using assms(1) by (simp add: algo_good_def)
  have "length (pad x) = alg_block_size a" for x using hmac_K0_length [OF assms(1)] by (simp add: pad_def)
  then show ?thesis
    using dyn_hash_update_block [OF ok, of "pad 0x36"] hmac_pad_eq [OF assms(1,2)]
    by (simp add: dyn_hmac_init_def dyn_hmac_reset_def Let_def pad_def)
qed

lemma hmac_updates: "foldl dyn_hmac_update c ds = c\<lparr>mc_h := foldl dyn_hash_update (mc_h c) ds\<rparr>"
  by (induction ds arbitrary: c) (simp_all add: dyn_hmac_update_def)

lemma dyn_hmac_final_eq:
  assumes "algo_good a" "hmac_room a key (length (concat ds))"
  shows "dyn_hmac_final (foldl dyn_hmac_update (dyn_hmac_init h a key) ds) = (dyn_hmac_init h a key, hmac_ref a key (concat ds))"
proof -
  define pad where "pad = (\<lambda>x. map (\<lambda>b. b XOR x) (hmac_K0 a key))"
  have ok: "hash_algo_ok a" and key: "length key < 2 ^ 64" using assms by (simp_all add: algo_good_def hmac_room_def)
  have c: "dyn_hmac_init h a key = \<lparr>mc_h = dyn_hash_update (dyn_hash_init a) (pad 0x36), mc_algo = a,
      mc_istate = alg_compress a (alg_init a) (pad 0x36), mc_ostate = alg_compress a (alg_init a) (pad 0x5c)\<rparr>"
    using dyn_hmac_init_eq [OF assms(1) key, of h] by (simp add: pad_def)
  have len: "length (pad x) = alg_block_size a" for x using hmac_K0_length [OF assms(1)] by (simp add: pad_def)
  define inner where "inner = hash_ref a (pad 0x36 @ concat ds)"
  have "snd (dyn_hash_final (foldl dyn_hash_update (dyn_hash_update (dyn_hash_init a) (pad 0x36)) ds)) = inner"
    using dyn_hash_chunks [OF ok, of "pad 0x36 # ds"] assms(2) by (simp add: inner_def hmac_room_def len)
  moreover have "snd (dyn_hash_final (dyn_hash_update (dyn_hash_update (dyn_hash_init a) (pad 0x5c)) inner)) = hmac_ref a key (concat ds)"
    using dyn_hash_two [OF ok, of "pad 0x5c" inner] digest_room [OF assms(1)] hash_ref_length [OF assms(1)]
    by (simp add: inner_def hmac_ref_def pad_def [symmetric] len) (simp add: pad_def)
  moreover have "take (alg_digest_size a) inner = inner" using hash_ref_length [OF assms(1)] by (simp add: inner_def)
  ultimately show ?thesis
    using dyn_hash_update_block [OF ok len, of "0x5c"] dyn_hash_update_block [OF ok len, of "0x36"]
    by (simp add: dyn_hmac_final_def hmac_updates c dyn_hmac_reset_def Let_def split_beta)
qed

subsection \<open>Output made of blocks\<close>

text \<open>The first \<open>L\<close> bytes of the blocks \<open>T 1, T 2, \<dots>\<close> of \<open>hl\<close> bytes each.\<close>

definition key_blocks :: "nat \<Rightarrow> nat \<Rightarrow> (nat \<Rightarrow> bytes) \<Rightarrow> bytes" where
  "key_blocks L hl T = take L (concat (map T [1..<Suc ((L + hl - 1) div hl)]))"

lemma blocks_length: "(\<And>k. length (T (Suc k)) = hl) \<Longrightarrow> length (concat (map T [1..<Suc n])) = n * hl"
proof (induction n)
  case (Suc n)
  then show ?case by (simp del: upt_Suc add: upt_Suc_append)
qed simp

lemma blocks_step:
  assumes "\<And>k. length (T (Suc k)) = hl" "k * hl < L"
  defines "n \<equiv> (if L - k * hl < hl then L - k * hl else hl)"
  shows "take L (concat (map T [1..<Suc k])) @ take n (T (Suc k)) = take L (concat (map T [1..<Suc (Suc k)]))"
proof -
  have "concat (map T [1..<Suc (Suc k)]) = concat (map T [1..<Suc k]) @ T (Suc k)"
    by (simp del: upt_Suc add: upt_Suc_append)
  then show ?thesis
    using assms blocks_length [of T hl k] by (auto simp del: upt_Suc)
qed

text \<open>A loop that appends one block per round and stops when it has \<open>L\<close> bytes returns the blocks.\<close>

lemma blocks_loop:
  assumes hl: "0 < hl" and len: "\<And>k. length (T (Suc k)) = hl"
    and stop: "\<And>k out. L \<le> length out \<Longrightarrow> loop k out = Some out"
    and step: "\<And>k out. k * hl < L \<Longrightarrow> length out = k * hl \<Longrightarrow>
      loop k out = loop (Suc k) (out @ take (if L - k * hl < hl then L - k * hl else hl) (T (Suc k)))"
  shows "loop 0 [] = Some (key_blocks L hl T)"
proof -
  define N where "N = (L + hl - 1) div hl"
  have N: "k < N \<longleftrightarrow> k * hl < L" for k
  proof -
    have "k < N \<longleftrightarrow> Suc k * hl \<le> L + hl - 1" using less_eq_div_iff_mult_less_eq [OF hl, of "Suc k" "L + hl - 1"] by (simp add: N_def Suc_le_eq)
    then show ?thesis using hl by auto
  qed
  have "loop k (take L (concat (map T [1..<Suc k]))) = Some (key_blocks L hl T)" if "k \<le> N" for k
    using that
  proof (induction rule: inc_induct)
    case base
    have "L \<le> N * hl" using N [of N] by simp
    then show ?case using stop [of "take L (concat (map T [1..<Suc N]))" N] blocks_length [of T hl N, OF len]
      by (simp add: key_blocks_def N_def del: upt_Suc)
  next
    case (step k)
    then have k: "k * hl < L" using N by simp
    then have "length (take L (concat (map T [1..<Suc k]))) = k * hl" using blocks_length [of T hl k, OF len] by (simp del: upt_Suc)
    then show ?case
      using assms(4) [OF k] blocks_step [of T, OF len k] step.IH by (simp del: upt_Suc)
  qed
  from this [of 0] show ?thesis by simp
qed

subsection \<open>HKDF\<close>

text \<open>RFC 5869.\<close>

primrec hkdf_T :: "dyn_hash_algo \<Rightarrow> bytes \<Rightarrow> bytes \<Rightarrow> nat \<Rightarrow> bytes" where
  "hkdf_T a prk info 0 = []"
| "hkdf_T a prk info (Suc n) = hmac_ref a prk (hkdf_T a prk info n @ info @ [of_nat (Suc n)])"

definition hkdf_ref :: "dyn_hash_algo \<Rightarrow> bytes \<Rightarrow> bytes \<Rightarrow> bytes \<Rightarrow> nat \<Rightarrow> bytes" where
  "hkdf_ref a ikm salt info L =
     (let prk = hmac_ref a (if salt = [] then replicate (alg_digest_size a) 0 else salt) ikm
      in key_blocks L (alg_digest_size a) (hkdf_T a prk info))"

lemma ucast_of_nat_byte: "ucast (of_nat n :: u32) = (of_nat n :: byte)"
  by (rule bit_word_eqI) (auto simp: bit_simps bit_of_nat_iff)

lemma u32_counter: "k < 2 ^ 31 \<Longrightarrow> (1 < (of_nat (Suc k) :: u32)) = (0 < k)"
  by (simp add: word_less_nat_alt unat_of_nat del: of_nat_Suc)

lemma hkdf_loop_step:
  assumes a: "algo_good a" and hl: "hl = alg_digest_size a" and room: "hmac_room a prk (hl + length info + 1)"
    and k: "k * hl < L" "L \<le> 255 * hl" and out: "length out = k * hl"
  shows "hkdf_loop info hl L (dyn_hmac_init h a prk) (hkdf_T a prk info k) (of_nat (Suc k)) out =
    hkdf_loop info hl L (dyn_hmac_init h a prk) (hkdf_T a prk info (Suc k)) (of_nat (Suc (Suc k)))
      (out @ take (if L - k * hl < hl then L - k * hl else hl) (hkdf_T a prk info (Suc k)))"
proof -
  define t where "t = hkdf_T a prk info k"
  define ds where "ds = (if 0 < k then [t] else []) @ (if info \<noteq> [] then [info] else []) @ [[of_nat (Suc k)]]"
  have "k < 255" using k by (metis less_le_trans mult_less_cancel2)
  then have c: "(1 < (of_nat (Suc k) :: u32)) = (0 < k)" using u32_counter [of k] by simp
  have t: "length t \<le> hl" "k = 0 \<Longrightarrow> t = []" using hmac_ref_length [OF a] hl by (cases k; simp add: t_def)+
  have ds: "concat ds = t @ info @ [of_nat (Suc k)]" using t(2) by (auto simp: ds_def)
  have "hmac_room a prk (length (concat ds))" using room t(1) by (simp add: hmac_room_def ds)
  then have f: "dyn_hmac_final (foldl dyn_hmac_update (dyn_hmac_init h a prk) ds) = (dyn_hmac_init h a prk, hkdf_T a prk info (Suc k))"
    using dyn_hmac_final_eq [OF a, of prk ds h] by (simp add: ds t_def)
  have "dyn_hmac_update
      (if info \<noteq> [] then dyn_hmac_update (if 0 < k then dyn_hmac_update (dyn_hmac_init h a prk) t else dyn_hmac_init h a prk) info
       else if 0 < k then dyn_hmac_update (dyn_hmac_init h a prk) t else dyn_hmac_init h a prk) [of_nat (Suc k)] =
    foldl dyn_hmac_update (dyn_hmac_init h a prk) ds"
    by (simp add: ds_def)
  note u = f [folded this]
  have lt: "(length out < L) = True" "take hl t = t" "of_nat (Suc k) + 1 = (of_nat (Suc (Suc k)) :: u32)"
    using t k out by (simp_all add: add.commute)
  show ?thesis
    unfolding t_def [symmetric] hkdf_loop.simps [of info hl L "dyn_hmac_init h a prk" t "of_nat (Suc k)" out]
    by (simp only: Let_def c ucast_of_nat_byte lt u out k(1) if_True prod.case)
qed

lemma hkdf_loop_eq:
  assumes "algo_good a" "hl = alg_digest_size a" "hmac_room a prk (hl + length info + 1)" "L \<le> 255 * hl"
  shows "hkdf_loop info hl L (dyn_hmac_init h a prk) [] 1 [] = Some (key_blocks L hl (hkdf_T a prk info))"
proof -
  define loop where "loop = (\<lambda>k. hkdf_loop info hl L (dyn_hmac_init h a prk) (hkdf_T a prk info k) (of_nat (Suc k)))"
  have "loop 0 [] = Some (key_blocks L hl (hkdf_T a prk info))"
  proof (rule blocks_loop)
    show "0 < hl" using assms by (simp add: algo_good_def)
    show "length (hkdf_T a prk info (Suc k)) = hl" for k using assms by (simp add: hmac_ref_length)
    show "loop k out = Some out" if "L \<le> length out" for k out
      using that by (simp add: loop_def hkdf_loop.simps)
    show "loop k out = loop (Suc k) (out @ take (if L - k * hl < hl then L - k * hl else hl) (hkdf_T a prk info (Suc k)))"
      if "k * hl < L" "length out = k * hl" for k out
      unfolding loop_def by (rule hkdf_loop_step [OF assms(1-3) that(1) assms(4) that(2)])
  qed
  then show ?thesis by (simp add: loop_def)
qed

lemma dyn_hkdf_eq:
  assumes "algo_good a" "length salt < 2 ^ 63" "length ikm < 2 ^ 63" "length info < 2 ^ 63"
  shows "dyn_hkdf h (Some a) ikm salt info L = Some (if 255 * alg_digest_size a < L then None else Some (hkdf_ref a ikm salt info L))"
proof (cases "255 * alg_digest_size a < L")
  case False
  define salt' where "salt' = (if salt = [] then replicate (alg_digest_size a) 0 else salt)"
  have small: "alg_digest_size a \<le> 128" "alg_block_size a \<le> 128"
    using assms(1) by (auto simp: algo_good_def DYN_HASH_MAX_BLOCK_def)
  have prk: "dyn_hmac a salt' ikm = hmac_ref a salt' ikm"
    using small assms by (intro dyn_hmac_eq) (auto simp: hmac_room_def salt'_def)
  have take: "take (alg_digest_size a) (hmac_ref a salt' ikm) = hmac_ref a salt' ikm"
    using hmac_ref_length [OF assms(1)] by simp
  have "hmac_room a (hmac_ref a salt' ikm) (alg_digest_size a + length info + 1)"
    using small assms hmac_ref_length [OF assms(1)] by (simp add: hmac_room_def)
  then show ?thesis
    using hkdf_loop_eq [OF assms(1) refl, of "hmac_ref a salt' ikm" info L h] False
    by (simp add: dyn_hkdf_def Let_def salt'_def [symmetric] prk take hkdf_ref_def)
qed (simp add: dyn_hkdf_def Let_def)

subsection \<open>PBKDF2\<close>

text \<open>RFC 8018, 5.2: the digests of a block and their sum after \<open>j + 1\<close> iterations.\<close>

primrec pbkdf2_U :: "dyn_hash_algo \<Rightarrow> bytes \<Rightarrow> bytes \<Rightarrow> nat \<Rightarrow> nat \<Rightarrow> bytes" where
  "pbkdf2_U a pw salt i 0 = hmac_ref a pw (salt @ be_bytes 4 i)"
| "pbkdf2_U a pw salt i (Suc j) = hmac_ref a pw (pbkdf2_U a pw salt i j)"

primrec pbkdf2_F :: "dyn_hash_algo \<Rightarrow> bytes \<Rightarrow> bytes \<Rightarrow> nat \<Rightarrow> nat \<Rightarrow> bytes" where
  "pbkdf2_F a pw salt i 0 = pbkdf2_U a pw salt i 0"
| "pbkdf2_F a pw salt i (Suc j) = map2 (XOR) (pbkdf2_F a pw salt i j) (pbkdf2_U a pw salt i (Suc j))"

definition pbkdf2_blocks :: "dyn_hash_algo \<Rightarrow> bytes \<Rightarrow> bytes \<Rightarrow> nat \<Rightarrow> nat \<Rightarrow> bytes" where
  "pbkdf2_blocks a pw salt c L = key_blocks L (alg_digest_size a) (\<lambda>i. pbkdf2_F a pw salt i (c - 1))"

text \<open>
  The derivation starts with the test for a derived key that is too long: block numbers have four bytes. Up
  to this length every block number is below \<open>2 ^ 32\<close>.
\<close>

definition pbkdf2_ref :: "dyn_hash_algo \<Rightarrow> bytes \<Rightarrow> bytes \<Rightarrow> nat \<Rightarrow> nat \<Rightarrow> bytes option" where
  "pbkdf2_ref a pw salt c L =
     (if (2 ^ 32 - 1) * alg_digest_size a < L then None else Some (pbkdf2_blocks a pw salt c L))"

lemma pbkdf2_U_length: "algo_good a \<Longrightarrow> length (pbkdf2_U a pw salt i j) = alg_digest_size a"
  by (cases j) (simp_all add: hmac_ref_length)

lemma pbkdf2_F_length: "algo_good a \<Longrightarrow> length (pbkdf2_F a pw salt i j) = alg_digest_size a"
  by (induction j) (simp_all add: hmac_ref_length)

lemma map2_nth: "length xs = n \<Longrightarrow> length ys = n \<Longrightarrow> map (\<lambda>i. f (xs ! i) (ys ! i)) [0..<n] = map2 f xs ys"
  by (intro nth_equalityI) simp_all

lemma pbkdf2_iter_eq:
  assumes "algo_good a" "hl = alg_digest_size a" "length pw < 2 ^ 64"
  shows "pbkdf2_iter hl k (dyn_hmac_init h a pw) (pbkdf2_U a pw salt i j) (pbkdf2_F a pw salt i j) =
    (dyn_hmac_init h a pw, pbkdf2_F a pw salt i (j + k))"
proof (induction k arbitrary: j)
  case (Suc k)
  let ?u = "pbkdf2_U a pw salt i j"
  have take: "take hl ?u = ?u" using pbkdf2_U_length [OF assms(1)] assms(2) by simp
  have "hmac_room a pw (length (concat [?u]))"
    using assms digest_room [OF assms(1)] by (simp add: hmac_room_def pbkdf2_U_length add.commute)
  then have f: "dyn_hmac_final (dyn_hmac_update (dyn_hmac_init h a pw) ?u) = (dyn_hmac_init h a pw, pbkdf2_U a pw salt i (Suc j))"
    using dyn_hmac_final_eq [OF assms(1), of pw "[?u]" h] by simp
  have "map (\<lambda>x. pbkdf2_F a pw salt i j ! x XOR pbkdf2_U a pw salt i (Suc j) ! x) [0..<hl] = pbkdf2_F a pw salt i (Suc j)"
    using map2_nth [of "pbkdf2_F a pw salt i j" hl "pbkdf2_U a pw salt i (Suc j)" "(XOR)"]
      pbkdf2_F_length [OF assms(1)] hmac_ref_length [OF assms(1)] assms(2) by simp
  then show ?case using Suc.IH [of "Suc j"] f take by (simp add: Let_def)
qed simp

lemma be32_bytes:
  "[ucast (drop_bit 24 w), ucast (drop_bit 16 w), ucast (drop_bit 8 w), ucast w] = be_bytes 4 n" if "w = of_nat n" for w :: u32
proof -
  have "ucast (drop_bit k w) = (of_nat (n div 2 ^ k) :: byte)" if "k + 8 \<le> 32" for k
    unfolding \<open>w = of_nat n\<close> drop_bit_eq_div [symmetric] using that by (intro bit_word_eqI) (auto simp: bit_simps bit_of_nat_iff)
  from this [of 24] this [of 16] this [of 8] this [of 0] show ?thesis
    by (simp add: be_bytes_def upt_conv_Cons)
qed

lemma pbkdf2_loop_step:
  assumes a: "algo_good a" and hl: "hl = alg_digest_size a" and room: "hmac_room a pw (length salt + 4)"
    and k: "k * hl < L" and out: "length out = k * hl"
  shows "pbkdf2_loop salt iters hl L (dyn_hmac_init h a pw) (of_nat (Suc k)) out =
    pbkdf2_loop salt iters hl L (dyn_hmac_init h a pw) (of_nat (Suc (Suc k)))
      (out @ take (if L - k * hl < hl then L - k * hl else hl) (pbkdf2_F a pw salt (Suc k) (unat iters - 1)))"
proof -
  define be where "be = be_bytes 4 (Suc k)"
  define ds where "ds = (if salt \<noteq> [] then [salt] else []) @ [be]"
  have be: "length be = 4" "concat ds = salt @ be" by (simp_all add: be_def be_bytes_def ds_def)
  then have f: "dyn_hmac_final (foldl dyn_hmac_update (dyn_hmac_init h a pw) ds) =
      (dyn_hmac_init h a pw, pbkdf2_U a pw salt (Suc k) 0)"
    using dyn_hmac_final_eq [OF a, of pw ds h] room by (simp add: be_def)
  have "dyn_hmac_update (if salt \<noteq> [] then dyn_hmac_update (dyn_hmac_init h a pw) salt else dyn_hmac_init h a pw) be =
      foldl dyn_hmac_update (dyn_hmac_init h a pw) ds"
    by (simp add: ds_def)
  note u = f [folded this]
  have pw: "length pw < 2 ^ 64" using room by (simp add: hmac_room_def)
  have it: "pbkdf2_iter hl n (dyn_hmac_init h a pw) (pbkdf2_U a pw salt (Suc k) 0) (pbkdf2_U a pw salt (Suc k) 0) =
      (dyn_hmac_init h a pw, pbkdf2_F a pw salt (Suc k) n)" for n
    using pbkdf2_iter_eq [OF a hl pw, of n h salt "Suc k" 0] by simp
  have lt: "take hl (pbkdf2_U a pw salt (Suc k) 0) = pbkdf2_U a pw salt (Suc k) 0"
    "of_nat (Suc k) + 1 = (of_nat (Suc (Suc k)) :: u32)"
    using pbkdf2_U_length [OF a, of pw salt "Suc k" 0] hl by (simp_all add: add.commute del: pbkdf2_U.simps)
  show ?thesis
    unfolding pbkdf2_loop.simps [of salt iters hl L "dyn_hmac_init h a pw" "of_nat (Suc k)" out]
    by (simp only: Let_def be32_bytes [OF refl] be_def [symmetric] lt u it out k if_True prod.case)
qed

lemma pbkdf2_loop_eq:
  assumes "algo_good a" "hl = alg_digest_size a" "hmac_room a pw (length salt + 4)"
  shows "pbkdf2_loop salt iters hl L (dyn_hmac_init h a pw) 1 [] =
    Some (key_blocks L hl (\<lambda>i. pbkdf2_F a pw salt i (unat iters - 1)))"
proof -
  define loop where "loop = (\<lambda>k. pbkdf2_loop salt iters hl L (dyn_hmac_init h a pw) (of_nat (Suc k)))"
  define F where "F = (\<lambda>i. pbkdf2_F a pw salt i (unat iters - 1))"
  have "loop 0 [] = Some (key_blocks L hl F)"
  proof (rule blocks_loop)
    show "0 < hl" using assms by (simp add: algo_good_def)
    show "length (F (Suc k)) = hl" for k using assms by (simp add: F_def pbkdf2_F_length)
    show "loop k out = Some out" if "L \<le> length out" for k out
      using that by (simp add: loop_def pbkdf2_loop.simps)
    show "loop k out = loop (Suc k) (out @ take (if L - k * hl < hl then L - k * hl else hl) (F (Suc k)))"
      if "k * hl < L" "length out = k * hl" for k out
      unfolding loop_def F_def by (rule pbkdf2_loop_step [OF assms that])
  qed
  then show ?thesis by (simp add: loop_def F_def)
qed

lemma dyn_pbkdf2_eq:
  assumes "algo_good a" "length pw < 2 ^ 63" "length salt < 2 ^ 63"
  shows "dyn_pbkdf2 h (Some a) pw salt iters L = Some (if iters = 0 then None else Some (pbkdf2_blocks a pw salt (unat iters) L))"
proof -
  have "hmac_room a pw (length salt + 4)" using assms by (simp add: hmac_room_def algo_good_def DYN_HASH_MAX_BLOCK_def)
  moreover have "(iters < 1) = (iters = 0)" by (metis word_less_1)
  ultimately show ?thesis
    using pbkdf2_loop_eq [OF assms(1) refl] by (simp add: dyn_pbkdf2_def pbkdf2_blocks_def)
qed

lemma pbkdf2_blocks_length:
  assumes "algo_good a"
  shows "length (pbkdf2_blocks a pw salt c L) = L"
proof -
  have hl: "0 < alg_digest_size a" using assms by (simp add: algo_good_def)
  then have le: "L \<le> (L + alg_digest_size a - 1) div alg_digest_size a * alg_digest_size a"
    using dividend_less_div_times [of "alg_digest_size a" "L + alg_digest_size a - 1"] by linarith
  show ?thesis unfolding pbkdf2_blocks_def key_blocks_def length_take blocks_length [of "\<lambda>i. pbkdf2_F a pw salt i (c - 1)", OF pbkdf2_F_length [OF assms]]
    by (rule min_absorb2 [OF le])
qed

subsection \<open>Comparison in constant time\<close>

lemma ct_diff_zero: "length a = length b \<Longrightarrow> ct_diff d a b = 0 \<longleftrightarrow> d = 0 \<and> a = b"
proof (induction d a b rule: ct_diff.induct)
  case (1 d x a y b)
  have "x = y" if z: "ucast (x XOR y) = (0 :: u64)"
  proof (rule bit_word_eqI)
    fix n assume "n < LENGTH(8)"
    then show "bit x n = bit y n" using arg_cong [OF z, of "\<lambda>w. bit w n"] by (simp add: bit_simps)
  qed
  then have "ucast (x XOR y) = (0 :: u64) \<longleftrightarrow> x = y" by auto
  then show ?case using 1 by (auto simp: or_eq_0_iff)
qed auto

lemma dyn_ct_equal_iff: "length a = length b \<Longrightarrow> dyn_ct_equal a b \<longleftrightarrow> a = b"
  by (simp add: dyn_ct_equal_def ct_diff_zero)

subsection \<open>Properties\<close>

text \<open>C9. Incremental HMAC computes the nested hash of FIPS 198-1 however the message is cut into calls, and
  \<open>dyn_hmac_final\<close> leaves the context as \<open>dyn_hmac_init\<close> made it, ready for another message under the same key;
  the one-shot function gives the same code. Keys longer than a block are hashed first.\<close>

theorem dyn_hmac_stream:
  assumes "length key < 2 ^ 63" "length (concat ds) < 2 ^ 63"
  shows "dyn_hmac_final (foldl dyn_hmac_update (dyn_hmac_init h (dyn_hash_algos T i) key) ds) =
      (dyn_hmac_init h (dyn_hash_algos T i) key, hmac_ref (dyn_hash_algos T i) key (concat ds)) \<and>
    dyn_hmac (dyn_hash_algos T i) key (concat ds) = hmac_ref (dyn_hash_algos T i) key (concat ds)"
proof -
  note good = dyn_hash_algos_good [of T i]
  have "hmac_room (dyn_hash_algos T i) key (length (concat ds))"
    using good assms unfolding hmac_room_def algo_good_def DYN_HASH_MAX_BLOCK_def by simp
  then show ?thesis using dyn_hmac_final_eq [OF good] dyn_hmac_eq [OF good] by blast
qed

theorem dyn_hmac_stream_witness:
  "length [0x6b :: byte] < (2 :: nat) ^ 63 \<and> length (concat [[0x61], [0x62 :: byte]]) < (2 :: nat) ^ 63 \<and>
   (let a = dyn_hash_algos SHA2_GENERIC DYN_HASH_MD5 in
    dyn_hmac a [0x6b] [0x61, 0x62] = hmac_ref a [0x6b] [0x61, 0x62])"
  using dyn_hmac_stream [of "[0x6b]" "[[0x61], [0x62]]" _ SHA2_GENERIC DYN_HASH_MD5]
  by (simp add: Let_def)

text \<open>C33. HKDF returns for every request: it fails exactly when no algorithm is given or more than 255 blocks are
  asked for, and otherwise writes the first \<open>out_len\<close> bytes of the output of RFC 5869, with a salt of
  zeros in place of an empty one.\<close>

theorem dyn_hkdf_rfc:
  assumes "length salt < 2 ^ 63" "length ikm < 2 ^ 63" "length info < 2 ^ 63"
  shows "dyn_hkdf h (Some (dyn_hash_algos T i)) ikm salt info out_len =
      Some (if 255 * alg_digest_size (dyn_hash_algos T i) < out_len then None
            else Some (hkdf_ref (dyn_hash_algos T i) ikm salt info out_len)) \<and>
    dyn_hkdf h None ikm salt info out_len = Some None"
  using dyn_hkdf_eq [OF dyn_hash_algos_good assms] by (simp add: dyn_hkdf_def)

theorem dyn_hkdf_rfc_witness:
  "length [] < (2 :: nat) ^ 63 \<and> length [0x0b :: byte] < (2 :: nat) ^ 63 \<and>
   (\<exists>h T. dyn_hkdf h (Some (dyn_hash_algos T DYN_HASH_SHA1)) [0x0b] [] [] 42 =
      Some (Some (hkdf_ref (dyn_hash_algos T DYN_HASH_SHA1) [0x0b] [] [] 42)))"
  using dyn_hkdf_rfc [of "[]" "[0x0b]" "[]" _ _ DYN_HASH_SHA1 42] by simp

text \<open>C34. PBKDF2 returns for every request and fails exactly when no algorithm or no iteration is asked for. For
  a derived key of at most \<open>2 ^ 32 - 1\<close> blocks, which is all that RFC 8018 allows, it writes the output of the
  RFC: the first \<open>out_len\<close> bytes of the blocks, each the sum of \<open>iters\<close> chained HMAC values, with the block
  number in four bytes. For a longer key the RFC demands an error; the code has no such test and writes
  \<open>out_len\<close> bytes.\<close>

theorem dyn_pbkdf2_rfc:
  assumes "length pw < 2 ^ 63" "length salt < 2 ^ 63"
  shows "(out_len \<le> (2 ^ 32 - 1) * alg_digest_size (dyn_hash_algos T i) \<longrightarrow>
      dyn_pbkdf2 h (Some (dyn_hash_algos T i)) pw salt iters out_len =
        Some (if iters = 0 then None else pbkdf2_ref (dyn_hash_algos T i) pw salt (unat iters) out_len)) \<and>
    ((2 ^ 32 - 1) * alg_digest_size (dyn_hash_algos T i) < out_len \<and> iters \<noteq> 0 \<longrightarrow>
      pbkdf2_ref (dyn_hash_algos T i) pw salt (unat iters) out_len = None \<and>
      (\<exists>out. dyn_pbkdf2 h (Some (dyn_hash_algos T i)) pw salt iters out_len = Some (Some out) \<and> length out = out_len)) \<and>
    dyn_pbkdf2 h (Some (dyn_hash_algos T i)) pw salt 0 out_len = Some None \<and>
    dyn_pbkdf2 h None pw salt iters out_len = Some None"
proof -
  note eq = dyn_pbkdf2_eq [OF dyn_hash_algos_good assms]
  show ?thesis
    unfolding eq pbkdf2_ref_def using pbkdf2_blocks_length [OF dyn_hash_algos_good] by (auto simp: dyn_pbkdf2_def)
qed

theorem dyn_pbkdf2_rfc_witness:
  "length [0x70 :: byte] < (2 :: nat) ^ 63 \<and> length [0x73 :: byte] < (2 :: nat) ^ 63 \<and>
   (\<exists>h T. dyn_pbkdf2 h (Some (dyn_hash_algos T DYN_HASH_SHA1)) [0x70] [0x73] 2 20 =
      Some (pbkdf2_ref (dyn_hash_algos T DYN_HASH_SHA1) [0x70] [0x73] 2 20))"
  using dyn_pbkdf2_rfc [of "[0x70]" "[0x73]" 20 _ DYN_HASH_SHA1 _ 2] by simp

end
