(* ===== verification/Xxh32.thy ===== *)
theory Xxh32
  imports HashStream DsHash
begin

text \<open>
  The 32-bit XXH hash of \<open>src/core/dyn-hash.c\<close>: the one-shot function and the incremental context, which is a
  block stream with blocks of 16 bytes. As in the hash contexts, the buffer \<open>mem\<close> is the list of its
  \<open>memn\<close> valid bytes.
\<close>

subsection \<open>Model\<close>

abbreviation XXH32_P1 :: u32 where "XXH32_P1 \<equiv> 2654435761"
abbreviation XXH32_P2 :: u32 where "XXH32_P2 \<equiv> 2246822519"
abbreviation XXH32_P3 :: u32 where "XXH32_P3 \<equiv> 3266489917"
abbreviation XXH32_P4 :: u32 where "XXH32_P4 \<equiv> 668265263"
abbreviation XXH32_P5 :: u32 where "XXH32_P5 \<equiv> 374761393"

type_synonym xxh32_lanes = "u32 \<times> u32 \<times> u32 \<times> u32"

definition xxh32_rotl :: "u32 \<Rightarrow> nat \<Rightarrow> u32" where
  "xxh32_rotl x r = push_bit r x OR drop_bit (32 - r) x"

definition xxh32_round :: "u32 \<Rightarrow> u32 \<Rightarrow> u32" where
  "xxh32_round acc input = (let acc = acc + input * XXH32_P2; acc = xxh32_rotl acc 13 in acc * XXH32_P1)"

text \<open>One stripe of 16 bytes, the body of the loops of \<open>dyn_xxh32\<close> and \<open>dyn_xxh32_update\<close>.\<close>

definition xxh32_stripe :: "xxh32_lanes \<Rightarrow> bytes \<Rightarrow> xxh32_lanes" where
  "xxh32_stripe = (\<lambda>(v1, v2, v3, v4) p.
     (xxh32_round v1 (xxh_read32 p), xxh32_round v2 (xxh_read32 (drop 4 p)),
      xxh32_round v3 (xxh_read32 (drop 8 p)), xxh32_round v4 (xxh_read32 (drop 12 p))))"

text \<open>The \<open>do \<dots> while\<close> loop of the one-shot function.\<close>

fun xxh32_stripes :: "xxh32_lanes \<Rightarrow> bytes \<Rightarrow> xxh32_lanes \<times> bytes" where
  "xxh32_stripes v p =
     (let v = xxh32_stripe v p; q = drop 16 p in if 16 \<le> length q then xxh32_stripes v q else (v, q))"

declare xxh32_stripes.simps [simp del]

definition xxh32_merge :: "xxh32_lanes \<Rightarrow> u32" where
  "xxh32_merge = (\<lambda>(v1, v2, v3, v4). xxh32_rotl v1 1 + xxh32_rotl v2 7 + xxh32_rotl v3 12 + xxh32_rotl v4 18)"

fun xxh32_tail4 :: "u32 \<Rightarrow> bytes \<Rightarrow> u32 \<times> bytes" where
  "xxh32_tail4 h p =
     (if 4 \<le> length p then xxh32_tail4 (xxh32_rotl (h + xxh_read32 p * XXH32_P3) 17 * XXH32_P4) (drop 4 p) else (h, p))"

declare xxh32_tail4.simps [simp del]

definition xxh32_tail1 :: "u32 \<Rightarrow> bytes \<Rightarrow> u32" where
  "xxh32_tail1 h p = foldl (\<lambda>h b. xxh32_rotl (h + ucast b * XXH32_P5) 11 * XXH32_P1) h p"

definition xxh32_avalanche :: "u32 \<Rightarrow> u32" where
  "xxh32_avalanche h =
     (let h = h XOR drop_bit 15 h; h = h * XXH32_P2; h = h XOR drop_bit 13 h; h = h * XXH32_P3 in h XOR drop_bit 16 h)"

definition dyn_xxh32 :: "bytes \<Rightarrow> u32 \<Rightarrow> u32" where
  "dyn_xxh32 data seed =
     (let (h, p) =
        (if 16 \<le> length data then
           (case xxh32_stripes (seed + XXH32_P1 + XXH32_P2, seed + XXH32_P2, seed, seed - XXH32_P1) data of
              (v, p) \<Rightarrow> (xxh32_merge v, p))
         else (seed + XXH32_P5, data));
          h = h + of_nat (length data);
          (h, p) = xxh32_tail4 h p
      in xxh32_avalanche (xxh32_tail1 h p))"

record dyn_xxh32_ctx =
  xc_v :: xxh32_lanes
  xc_total :: u64
  xc_mem :: bytes

definition dyn_xxh32_init :: "u32 \<Rightarrow> dyn_xxh32_ctx" where
  "dyn_xxh32_init seed =
     \<lparr>xc_v = (seed + XXH32_P1 + XXH32_P2, seed + XXH32_P2, seed, seed - XXH32_P1), xc_total = 0, xc_mem = []\<rparr>"

text \<open>The loop over the full stripes of \<open>p\<close> and the copy of what is left.\<close>

fun xxh32_absorb :: "dyn_xxh32_ctx \<Rightarrow> bytes \<Rightarrow> dyn_xxh32_ctx" where
  "xxh32_absorb c p =
     (if 16 \<le> length p then xxh32_absorb (c\<lparr>xc_v := xxh32_stripe (xc_v c) p\<rparr>) (drop 16 p)
      else if p \<noteq> [] then c\<lparr>xc_mem := p\<rparr> else c)"

declare xxh32_absorb.simps [simp del]

definition dyn_xxh32_update :: "dyn_xxh32_ctx \<Rightarrow> bytes \<Rightarrow> dyn_xxh32_ctx" where
  "dyn_xxh32_update c data =
     (let c = c\<lparr>xc_total := xc_total c + of_nat (length data)\<rparr> in
      if xc_mem c \<noteq> [] then
        (let fill = (if 16 - length (xc_mem c) < length data then 16 - length (xc_mem c) else length data);
             mem = xc_mem c @ take fill data;
             p = drop fill data
         in if length mem < 16 then c\<lparr>xc_mem := mem\<rparr>
            else xxh32_absorb (c\<lparr>xc_v := xxh32_stripe (xc_v c) mem, xc_mem := []\<rparr>) p)
      else xxh32_absorb c data)"

definition dyn_xxh32_digest :: "dyn_xxh32_ctx \<Rightarrow> u32" where
  "dyn_xxh32_digest c =
     (let h = (if 16 \<le> xc_total c then xxh32_merge (xc_v c) else (case xc_v c of (v1, v2, v3, v4) \<Rightarrow> v3 + XXH32_P5));
          h = h + ucast (xc_total c);
          (h, p) = xxh32_tail4 h (xc_mem c)
      in xxh32_avalanche (xxh32_tail1 h p))"

subsection \<open>The context is a block stream\<close>

lemma xxh_read32_take: "4 \<le> n \<Longrightarrow> xxh_read32 (take n p) = xxh_read32 p"
  by (simp add: xxh_read32_def)

lemma xxh32_stripe_take: "xxh32_stripe v (take 16 p) = xxh32_stripe v p"
  by (cases v) (simp add: xxh32_stripe_def drop_take xxh_read32_take)

lemma xxh32_absorb_eq:
  assumes "xc_mem c = []"
  shows "xxh32_absorb c p = (case absorb_blocks 16 xxh32_stripe (xc_v c) p of (v, r) \<Rightarrow> c\<lparr>xc_v := v, xc_mem := r\<rparr>)"
  using assms
proof (induction c p rule: xxh32_absorb.induct)
  case (1 c p)
  show ?case
  proof (cases "16 \<le> length p")
    case True
    have "absorb_blocks 16 xxh32_stripe (xc_v c) p = absorb_blocks 16 xxh32_stripe (xxh32_stripe (xc_v c) p) (drop 16 p)"
      using True by (subst absorb_blocks.simps) (simp add: xxh32_stripe_take)
    then show ?thesis
      using 1 True by (subst xxh32_absorb.simps) (simp split: prod.split)
  next
    case False
    then show ?thesis using 1(2) by (subst xxh32_absorb.simps) simp
  qed
qed

lemma xxh32_stripes_eq: "16 \<le> length p \<Longrightarrow> xxh32_stripes v p = absorb_blocks 16 xxh32_stripe v p"
proof (induction v p rule: xxh32_stripes.induct)
  case (1 v p)
  have "absorb_blocks 16 xxh32_stripe v p = absorb_blocks 16 xxh32_stripe (xxh32_stripe v p) (drop 16 p)"
    using 1(2) by (subst absorb_blocks.simps) (simp add: xxh32_stripe_take)
  then show ?case using 1 by (subst xxh32_stripes.simps) (auto simp: Let_def)
qed

lemma dyn_xxh32_update_eq:
  assumes "length (xc_mem c) < 16"
  shows "dyn_xxh32_update c d = (case absorb_blocks 16 xxh32_stripe (xc_v c) (xc_mem c @ d) of
    (v, r) \<Rightarrow> \<lparr>xc_v = v, xc_total = xc_total c + of_nat (length d), xc_mem = r\<rparr>)"
proof (cases "xc_mem c = []")
  case True
  then show ?thesis by (simp add: dyn_xxh32_update_def Let_def xxh32_absorb_eq split: prod.split)
next
  case False
  define need where "need = 16 - length (xc_mem c)"
  show ?thesis
  proof (cases "length d < need")
    case True
    then show ?thesis using False assms by (simp add: dyn_xxh32_update_def Let_def need_def)
  next
    case full: False
    have len: "length (xc_mem c @ take need d) = 16" using full assms by (simp add: need_def)
    have "(if need < length d then need else length d) = need" using full by simp
    then have "dyn_xxh32_update c d = xxh32_absorb
        (c\<lparr>xc_total := xc_total c + of_nat (length d), xc_v := xxh32_stripe (xc_v c) (xc_mem c @ take need d), xc_mem := []\<rparr>) (drop need d)"
      using False len by (simp add: dyn_xxh32_update_def Let_def need_def [symmetric])
    then show ?thesis
      using absorb_blocks_step [of 16 "xc_mem c @ take need d" xxh32_stripe "xc_v c" "drop need d"] len
      by (simp add: xxh32_absorb_eq split: prod.split)
  qed
qed

interpretation xs: block_stream dyn_xxh32_update "\<lambda>_. 16" "\<lambda>_. xxh32_stripe" "\<lambda>c. (xc_v c, xc_mem c)" xc_total
  "\<lambda>c. length (xc_mem c) < 16"
proof unfold_locales
  fix c :: dyn_xxh32_ctx and d :: bytes
  assume ok: "length (xc_mem c) < 16"
  obtain v r where a: "absorb_blocks 16 xxh32_stripe (xc_v c) (xc_mem c @ d) = (v, r)" by fastforce
  then have "length r < 16" using absorb_blocks_rest [of 16 xxh32_stripe "xc_v c" "xc_mem c @ d"] by simp
  then show "length (xc_mem (dyn_xxh32_update c d)) < 16"
    "(xc_v (dyn_xxh32_update c d), xc_mem (dyn_xxh32_update c d)) =
      absorb_blocks 16 xxh32_stripe (fst (xc_v c, xc_mem c)) (snd (xc_v c, xc_mem c) @ d)"
    "xc_total (dyn_xxh32_update c d) = xc_total c + of_nat (length d)"
    using dyn_xxh32_update_eq [OF ok, of d] a by simp_all
qed simp_all

subsection \<open>Properties\<close>

text \<open>C35. The incremental XXH32 of any sequence of pieces is the one-shot hash of their concatenation.\<close>

theorem dyn_xxh32_stream:
  assumes "length (concat ds) < 2 ^ 64"
  shows "dyn_xxh32_digest (foldl dyn_xxh32_update (dyn_xxh32_init seed) ds) = dyn_xxh32 (concat ds) seed"
proof -
  let ?c = "foldl dyn_xxh32_update (dyn_xxh32_init seed) ds"
  let ?v = "(seed + XXH32_P1 + XXH32_P2, seed + XXH32_P2, seed, seed - XXH32_P1)"
  have ok: "length (xc_mem (dyn_xxh32_init seed)) < 16" by (simp add: dyn_xxh32_init_def)
  have core: "(xc_v ?c, xc_mem ?c) = absorb_blocks 16 xxh32_stripe ?v (concat ds)"
    using xs.updates_core [OF ok, of ds] by (simp add: dyn_xxh32_init_def)
  have total: "xc_total ?c = of_nat (length (concat ds))"
    using xs.updates_total [OF ok, of ds] by (simp add: dyn_xxh32_init_def)
  have len: "unat (xc_total ?c) = length (concat ds)" using total assms by (simp add: unat_of_nat)
  have low: "ucast (xc_total ?c) = (of_nat (length (concat ds)) :: u32)"
    unfolding total by (rule bit_word_eqI) (auto simp: bit_simps bit_of_nat_iff)
  show ?thesis
  proof (cases "16 \<le> length (concat ds)")
    case True
    then have "16 \<le> xc_total ?c" using len by (simp add: word_le_nat_alt)
    moreover have "xxh32_stripes ?v (concat ds) = (xc_v ?c, xc_mem ?c)" by (simp only: xxh32_stripes_eq [OF True] core)
    ultimately show ?thesis using True low by (simp add: dyn_xxh32_digest_def dyn_xxh32_def Let_def)
  next
    case False
    then have "\<not> 16 \<le> xc_total ?c" using len by (simp add: word_le_nat_alt)
    moreover have "xc_v ?c = ?v" "xc_mem ?c = concat ds" using core False by simp_all
    ultimately show ?thesis using False low by (simp add: dyn_xxh32_digest_def dyn_xxh32_def Let_def)
  qed
qed

theorem dyn_xxh32_stream_witness:
  "length (concat [[1 :: byte, 2, 3], replicate 20 4]) < (2 :: nat) ^ 64 \<and>
   dyn_xxh32_digest (foldl dyn_xxh32_update (dyn_xxh32_init 7) [[1, 2, 3], replicate 20 4]) = dyn_xxh32 (concat [[1, 2, 3], replicate 20 4]) 7"
  using dyn_xxh32_stream [of "[[1, 2, 3], replicate 20 4]" 7] by simp

end
