(* ===== verification/Timer.thy ===== *)
theory Timer
  imports DynPrelude "HOL-Library.Product_Lexorder"
begin

text \<open>
  The timer queue of \<open>src/core/dyn-timer.c\<close>: a binary heap of pending timers ordered by deadline and age, and a
  table of slots that gives every pending timer a stable identifier with a generation count. The list
  \<open>tm_h\<close> is the valid part of the heap array (its length is \<open>n\<close>), \<open>tm_slots\<close> the first \<open>nslots\<close> entries of
  the slot array, whose unused rest is zero. Callbacks and their arguments are machine words. The clock
  (\<open>dyn_timer_now_ms\<close>) is read by the callers and is an argument here, as in the code. \<open>dyn_timer_run\<close> takes
  the effect of a callback on the world and on the timers as a parameter, since callbacks may add and
  cancel timers; the result \<open>ran\<close> is its counter \<open>k\<close>.
\<close>

subsection \<open>Model\<close>

type_synonym dyn_timer_id = u64

record tnode =
  tn_deadline :: u64
  tn_seq :: u64
  tn_cb :: u64
  tn_arg :: u64
  tn_id :: dyn_timer_id

record tslot =
  ts_pos :: nat
  ts_gen :: u32
  ts_next_free :: nat

definition NO_POS :: nat where
  "NO_POS = 0xffffffff"

definition DYN_TIMER_NONE :: dyn_timer_id where
  "DYN_TIMER_NONE = 0"

definition DYN_TIMER_MAX_SLOTS :: nat where
  "DYN_TIMER_MAX_SLOTS = 2 ^ 20 - 1"

record dyn_timers =
  tm_h :: "tnode list"
  tm_cap :: nat
  tm_slots :: "tslot list"
  tm_slot_cap :: nat
  tm_free_head :: nat
  tm_seq :: u64

definition ID_MAKE :: "nat \<Rightarrow> u32 \<Rightarrow> dyn_timer_id" where
  "ID_MAKE idx gen = push_bit 32 (ucast gen) OR ucast (of_nat idx + 1 :: u32)"

definition ID_INDEX :: "dyn_timer_id \<Rightarrow> nat" where
  "ID_INDEX tid = unat (ucast ((tid AND 0xffffffff) - 1) :: u32)"

definition ID_GEN :: "dyn_timer_id \<Rightarrow> u32" where
  "ID_GEN tid = ucast (drop_bit 32 tid)"

definition dyn_timers_new :: "allocs \<Rightarrow> dyn_timers option \<times> allocs" where
  "dyn_timers_new al =
     (case next_alloc al of (ok, al) \<Rightarrow>
        (if \<not> ok then None
         else Some \<lparr>tm_h = [], tm_cap = 0, tm_slots = [], tm_slot_cap = 0, tm_free_head = NO_POS, tm_seq = 0\<rparr>, al))"

definition dyn_timers_count :: "dyn_timers \<Rightarrow> nat" where
  "dyn_timers_count t = length (tm_h t)"

definition node_less :: "tnode \<Rightarrow> tnode \<Rightarrow> bool" where
  "node_less a b = (if tn_deadline a \<noteq> tn_deadline b then tn_deadline a < tn_deadline b else tn_seq a < tn_seq b)"

text \<open>Writing at index \<open>n\<close>, the first one past the valid part, extends the list.\<close>

definition place :: "dyn_timers \<Rightarrow> nat \<Rightarrow> tnode \<Rightarrow> dyn_timers" where
  "place t i v =
     (let x = ID_INDEX (tn_id v) in
      t\<lparr>tm_h := (if i = length (tm_h t) then tm_h t @ [v] else (tm_h t)[i := v]),
        tm_slots := (tm_slots t)[x := (tm_slots t ! x)\<lparr>ts_pos := i mod 2 ^ 32\<rparr>]\<rparr>)"

fun sift_up_loop :: "dyn_timers \<Rightarrow> nat \<Rightarrow> tnode \<Rightarrow> dyn_timers" where
  "sift_up_loop t i v =
     (if i > 0 then
        (let p = (i - 1) div 2 in
         if \<not> node_less v (tm_h t ! p) then place t i v
         else sift_up_loop (place t i (tm_h t ! p)) p v)
      else place t i v)"

declare sift_up_loop.simps [simp del]

definition sift_up :: "dyn_timers \<Rightarrow> nat \<Rightarrow> dyn_timers" where
  "sift_up t i = sift_up_loop t i (tm_h t ! i)"

definition sift_child :: "tnode list \<Rightarrow> nat \<Rightarrow> tnode \<Rightarrow> nat" where
  "sift_child h i v =
     (let l = 2 * i + 1; r = l + 1;
          m = (if l < length h \<and> node_less (h ! l) v then l else i)
      in if r < length h \<and> node_less (h ! r) (if m = i then v else h ! l) then r else m)"

lemma length_place [simp]: "i < length (tm_h t) \<Longrightarrow> length (tm_h (place t i v)) = length (tm_h t)"
  by (simp add: place_def Let_def)

lemma sift_child_cases: "sift_child h i v = i \<or> i < sift_child h i v \<and> sift_child h i v < length h"
  by (auto simp: sift_child_def Let_def)

function sift_down_loop :: "dyn_timers \<Rightarrow> nat \<Rightarrow> tnode \<Rightarrow> dyn_timers" where
  "sift_down_loop t i v =
     (let m = sift_child (tm_h t) i v in
      if m = i then place t i v else sift_down_loop (place t i (tm_h t ! m)) m v)"
  by pat_completeness auto

termination
proof (relation "measure (\<lambda>(t, i, v). length (tm_h t) - i)")
  fix t :: dyn_timers and i m :: nat and v
  assume m: "m = sift_child (tm_h t) i v" "m \<noteq> i"
  then have "i < m" "m < length (tm_h t)" using sift_child_cases [of "tm_h t" i v] by auto
  then show "((place t i (tm_h t ! m), m, v), t, i, v) \<in> measure (\<lambda>(t, i, v). length (tm_h t) - i)" by simp
qed simp

declare sift_down_loop.simps [simp del]

definition sift_down :: "dyn_timers \<Rightarrow> nat \<Rightarrow> dyn_timers" where
  "sift_down t i = sift_down_loop t i (tm_h t ! i)"

definition grow_heap :: "allocs \<Rightarrow> dyn_timers \<Rightarrow> dyn_timers option \<times> allocs" where
  "grow_heap al t =
     (let nc = (if tm_cap t \<noteq> 0 then tm_cap t * 2 else 16) in
      case next_alloc al of (ok, al) \<Rightarrow> (if \<not> ok then None else Some (t\<lparr>tm_cap := nc\<rparr>), al))"

definition slot_alloc :: "allocs \<Rightarrow> dyn_timers \<Rightarrow> nat \<times> dyn_timers \<times> allocs" where
  "slot_alloc al t =
     (if tm_free_head t \<noteq> NO_POS then
        (let idx = tm_free_head t in (idx, t\<lparr>tm_free_head := ts_next_free (tm_slots t ! idx)\<rparr>, al))
      else if length (tm_slots t) \<ge> DYN_TIMER_MAX_SLOTS then (NO_POS, t, al)
      else
        (let (ok, al, t) =
           (if length (tm_slots t) = tm_slot_cap t then
              (let nc = (if tm_slot_cap t \<noteq> 0 then tm_slot_cap t * 2 else 16) in
               case next_alloc al of (ok, al) \<Rightarrow> (ok, al, if ok then t\<lparr>tm_slot_cap := nc\<rparr> else t))
            else (True, al, t))
         in if \<not> ok then (NO_POS, t, al)
            else (length (tm_slots t), t\<lparr>tm_slots := tm_slots t @ [\<lparr>ts_pos = 0, ts_gen = 0, ts_next_free = 0\<rparr>]\<rparr>, al)))"

definition slot_release :: "dyn_timers \<Rightarrow> nat \<Rightarrow> dyn_timers" where
  "slot_release t idx =
     (let s = tm_slots t ! idx in
      t\<lparr>tm_slots := (tm_slots t)[idx := \<lparr>ts_pos = NO_POS, ts_gen = ts_gen s + 1, ts_next_free = tm_free_head t\<rparr>],
        tm_free_head := idx\<rparr>)"

definition timer_deadline :: "u64 \<Rightarrow> u64 \<Rightarrow> u64" where
  "timer_deadline now delay_ms = (if now + delay_ms < now then 0xffffffffffffffff else now + delay_ms)"

definition dyn_timer_add :: "allocs \<Rightarrow> dyn_timers \<Rightarrow> u64 \<Rightarrow> u64 \<Rightarrow> u64 \<Rightarrow> u64 \<Rightarrow> dyn_timer_id \<times> dyn_timers \<times> allocs" where
  "dyn_timer_add al t now delay_ms cb arg =
     (if cb = 0 then (DYN_TIMER_NONE, t, al)
      else
        (case (if length (tm_h t) = tm_cap t then grow_heap al t else (Some t, al)) of
           (None, al) \<Rightarrow> (DYN_TIMER_NONE, t, al)
         | (Some t, al) \<Rightarrow>
             (let (idx, t, al) = slot_alloc al t in
              if idx = NO_POS then (DYN_TIMER_NONE, t, al)
              else
                (let v = \<lparr>tn_deadline = timer_deadline now delay_ms, tn_seq = tm_seq t, tn_cb = cb, tn_arg = arg,
                          tn_id = ID_MAKE idx (ts_gen (tm_slots t ! idx))\<rparr>;
                     t = t\<lparr>tm_seq := tm_seq t + 1\<rparr>;
                     n = length (tm_h t);
                     t = place t n v;
                     t = sift_up t n
                 in (tn_id v, t, al)))))"

text \<open>\<open>t->n--\<close> drops the last element from the valid part.\<close>

definition heap_remove_at :: "dyn_timers \<Rightarrow> nat \<Rightarrow> dyn_timers" where
  "heap_remove_at t i =
     (let t = slot_release t (ID_INDEX (tn_id (tm_h t ! i)));
          last = tm_h t ! (length (tm_h t) - 1);
          t = t\<lparr>tm_h := butlast (tm_h t)\<rparr>
      in if i = length (tm_h t) then t
         else
           (let t = place t i last;
                t = sift_down t i
            in if ts_pos (tm_slots t ! ID_INDEX (tn_id (tm_h t ! i))) = i then sift_up t i else t))"

definition dyn_timer_cancel :: "dyn_timers \<Rightarrow> dyn_timer_id \<Rightarrow> bool \<times> dyn_timers" where
  "dyn_timer_cancel t tid =
     (if tid = DYN_TIMER_NONE then (False, t)
      else
        (let idx = ID_INDEX tid in
         if idx \<ge> length (tm_slots t) then (False, t)
         else if ts_pos (tm_slots t ! idx) = NO_POS then (False, t)
         else if ts_gen (tm_slots t ! idx) \<noteq> ID_GEN tid then (False, t)
         else (True, heap_remove_at t (ts_pos (tm_slots t ! idx)))))"

definition dyn_timer_next_timeout :: "dyn_timers \<Rightarrow> u64 \<Rightarrow> int" where
  "dyn_timer_next_timeout t now =
     (if tm_h t = [] then - 1
      else if tn_deadline (tm_h t ! 0) \<le> now then 0
      else (let d = tn_deadline (tm_h t ! 0) - now in if d > 2147483647 then 2147483647 else int (unat d)))"

partial_function (option) dyn_timer_run ::
  "(u64 \<Rightarrow> u64 \<Rightarrow> 'w \<times> dyn_timers \<Rightarrow> 'w \<times> dyn_timers) \<Rightarrow> u64 \<Rightarrow> nat \<Rightarrow> 'w \<times> dyn_timers \<Rightarrow> (nat \<times> 'w \<times> dyn_timers) option" where
  "dyn_timer_run call now k s =
     (case s of (w, t) \<Rightarrow>
        if tm_h t \<noteq> [] \<and> tn_deadline (tm_h t ! 0) \<le> now then
          (let cb = tn_cb (tm_h t ! 0);
               arg = tn_arg (tm_h t ! 0);
               t = heap_remove_at t 0
           in dyn_timer_run call now (k + 1) (call cb arg (w, t)))
        else Some (k, w, t))"

subsection \<open>Identifiers\<close>

lemma u32_of_u64_minus: "ucast (x - 1 :: u64) = (ucast x - 1 :: u32)"
proof -
  have "(y mod 2 ^ 64 - 1) mod 2 ^ 32 = (y - 1) mod (2 :: int) ^ 32" for y
    using mod_diff_left_eq [of "y mod 2 ^ 64" "2 ^ 32" 1] mod_diff_left_eq [of y "2 ^ 32" 1] by (simp add: mod_mod_cancel)
  then show ?thesis by transfer (simp add: take_bit_eq_mod mod_simps mod_mod_cancel)
qed

lemma ID_INDEX_eq: "ID_INDEX tid = unat (ucast tid - 1 :: u32)"
proof -
  have "ucast (tid AND mask 32) = (ucast tid :: u32)" by (rule bit_word_eqI) (auto simp: bit_simps)
  moreover have "(mask 32 :: u64) = 0xffffffff" by (simp add: mask_eq_exp_minus_1)
  ultimately show ?thesis by (simp add: ID_INDEX_def u32_of_u64_minus)
qed

lemma ID_MAKE_low: "ucast (ID_MAKE idx gen) = (of_nat idx + 1 :: u32)"
  unfolding ID_MAKE_def by (rule bit_word_eqI) (auto simp: bit_simps)

lemma ID_INDEX_MAKE [simp]: "idx < 2 ^ 32 \<Longrightarrow> ID_INDEX (ID_MAKE idx gen) = idx"
  by (simp add: ID_INDEX_eq ID_MAKE_low unat_of_nat)

lemma ID_GEN_MAKE [simp]: "ID_GEN (ID_MAKE idx gen) = gen"
  unfolding ID_GEN_def ID_MAKE_def by (rule bit_word_eqI) (auto simp: bit_simps dest: bit_imp_le_length)

lemma ID_MAKE_INDEX: "ID_MAKE (ID_INDEX tid) (ID_GEN tid) = tid"
proof -
  have "of_nat (ID_INDEX tid) + 1 = (ucast tid :: u32)" by (simp add: ID_INDEX_eq)
  then show ?thesis
    unfolding ID_MAKE_def ID_GEN_def by (simp only:) (rule bit_word_eqI, auto simp: bit_simps)
qed

lemma ID_MAKE_not_NONE: "idx < 2 ^ 32 - 1 \<Longrightarrow> ID_MAKE idx gen \<noteq> DYN_TIMER_NONE"
proof
  assume idx: "idx < 2 ^ 32 - 1" "ID_MAKE idx gen = DYN_TIMER_NONE"
  then have "idx = ID_INDEX 0" using ID_INDEX_MAKE [of idx gen] by (simp add: DYN_TIMER_NONE_def)
  also have "ID_INDEX 0 = 2 ^ 32 - 1" by (simp add: ID_INDEX_eq unsigned_minus_1_eq_mask mask_eq_exp_minus_1)
  finally show False using idx(1) by simp
qed

end
