(* ===== verification/TimerCorrect.thy ===== *)
theory TimerCorrect
  imports Timer
begin

text \<open>
  Correctness of the timer queue. The invariant ties the heap and the slot table together: the heap is
  ordered, every pending timer knows its slot and every used slot knows the position of its timer, and
  the free list runs exactly through the unused slots. The queue refines the multiset of its pending
  timers.
\<close>

subsection \<open>Order\<close>

definition key :: "tnode \<Rightarrow> u64 \<times> u64" where
  "key n = (tn_deadline n, tn_seq n)"

lemma node_less_key: "node_less a b \<longleftrightarrow> key a < key b"
  by (auto simp: node_less_def key_def less_prod_def order_le_less)

definition par :: "nat \<Rightarrow> nat" where
  "par j = (j - 1) div 2"

lemma par_less: "0 < j \<Longrightarrow> par j < j"
  by (auto simp: par_def)

lemma par_le: "par j \<le> j"
  by (simp add: par_def)

definition ord_at :: "tnode list \<Rightarrow> nat \<Rightarrow> bool" where
  "ord_at h j \<longleftrightarrow> key (h ! par j) \<le> key (h ! j)"

definition heap :: "tnode list \<Rightarrow> bool" where
  "heap h \<longleftrightarrow> (\<forall>j. 0 < j \<and> j < length h \<longrightarrow> ord_at h j)"

text \<open>The children of \<open>i\<close> are not below the parent of \<open>i\<close>.\<close>

definition grand :: "tnode list \<Rightarrow> nat \<Rightarrow> bool" where
  "grand h i \<longleftrightarrow> (\<forall>j. 0 < i \<and> 0 < j \<and> j < length h \<and> par j = i \<longrightarrow> key (h ! par i) \<le> key (h ! j))"

definition heap_up :: "tnode list \<Rightarrow> nat \<Rightarrow> bool" where
  "heap_up h i \<longleftrightarrow> (\<forall>j. 0 < j \<and> j < length h \<and> j \<noteq> i \<longrightarrow> ord_at h j) \<and> grand h i"

definition heap_mid :: "tnode list \<Rightarrow> nat \<Rightarrow> bool" where
  "heap_mid h i \<longleftrightarrow> (\<forall>j. 0 < j \<and> j < length h \<and> j \<noteq> i \<and> par j \<noteq> i \<longrightarrow> ord_at h j) \<and> grand h i"

lemma heap_root: "heap h \<Longrightarrow> i < length h \<Longrightarrow> key (h ! 0) \<le> key (h ! i)"
proof (induction i rule: less_induct)
  case (less i)
  show ?case
  proof (cases "i = 0")
    case False
    then have "key (h ! 0) \<le> key (h ! par i)" using less par_less [of i] by simp
    also have "\<dots> \<le> key (h ! i)" using less.prems False by (simp add: heap_def ord_at_def)
    finally show ?thesis .
  qed simp
qed

lemma tm_h_place: "i < length (tm_h t) \<Longrightarrow> tm_h (place t i v) = (tm_h t)[i := v]"
  by (simp add: place_def Let_def)

text \<open>The heap while \<open>v\<close> is carried: the element at \<open>i\<close> is to be read as \<open>v\<close>.\<close>

lemma heap_up_step:
  assumes "heap_up (h[i := v]) i" "i < length h" "0 < i" "key v < key (h ! par i)"
  shows "heap_up ((h[i := h ! par i])[par i := v]) (par i)"
proof -
  define p where "p = par i"
  let ?g = "(h[i := h ! p])[p := v]"
  have p: "p < i" "p < length h" "p \<noteq> i" using par_less [OF assms(3)] assms(2) by (auto simp: p_def)
  have v: "key v < key (h ! p)" using assms(4) by (simp add: p_def)
  have old: "key (h[i := v] ! par j) \<le> key (h ! j)" if "0 < j" "j < length h" "j \<noteq> i" for j
    using assms(1) that by (simp add: heap_up_def ord_at_def)
  have gr: "key (h ! p) \<le> key (h ! j)" if "0 < j" "j < length h" "par j = i" for j
  proof -
    have "key (h[i := v] ! p) \<le> key (h[i := v] ! j)"
      using assms(1,3) that unfolding heap_up_def grand_def p_def [symmetric] by simp
    moreover have "j \<noteq> i" using that par_less [OF that(1)] by simp
    ultimately show ?thesis using p by simp
  qed
  have "key (?g ! par j) \<le> key (?g ! j)" if j: "0 < j" "j < length h" "j \<noteq> p" for j
  proof -
    consider "j = i" | "j \<noteq> i" "par j = i" | "j \<noteq> i" "par j = p" | "j \<noteq> i" "par j \<noteq> i" "par j \<noteq> p" by blast
    then show ?thesis
    proof cases
      case 1
      then show ?thesis using assms(2) p v by (simp add: p_def [symmetric])
    next
      case 2
      then show ?thesis using gr [OF j(1,2)] assms(2) j p by simp
    next
      case 3
      then have "key (h ! p) \<le> key (h ! j)" using old [OF j(1,2)] p by simp
      then show ?thesis using 3 v j p by simp
    next
      case 4
      then show ?thesis using old [OF j(1,2)] j by simp
    qed
  qed
  moreover have "key (?g ! par p) \<le> key (?g ! j)" if j: "0 < p" "0 < j" "j < length h" "par j = p" for j
  proof -
    have q: "par p < p" "par p \<noteq> i" "j \<noteq> p" using par_less [of p] par_less [of j] j p by auto
    have "key (h ! par p) \<le> key (h ! p)" using old [of p] j(1) p q by simp
    moreover have "key (h ! p) \<le> key (h ! j)" if "j \<noteq> i" using old [OF j(2,3) that] j(4) p by simp
    ultimately show ?thesis using assms(2) q p by (cases "j = i") auto
  qed
  ultimately show ?thesis unfolding p_def [symmetric] by (simp add: heap_up_def grand_def ord_at_def)
qed

lemma sift_up_heap:
  "i < length (tm_h t) \<Longrightarrow> heap_up ((tm_h t)[i := v]) i \<Longrightarrow> heap (tm_h (sift_up_loop t i v))"
proof (induction t i v rule: sift_up_loop.induct)
  case (1 t i v)
  show ?case
  proof (cases "0 < i \<and> node_less v (tm_h t ! par i)")
    case True
    have p: "par i < length (tm_h t)" using 1(2) par_le [of i] by simp
    have "heap_up (((tm_h t)[i := tm_h t ! par i])[par i := v]) (par i)"
      using heap_up_step [OF 1(3,2)] True by (simp add: node_less_key)
    then have "heap (tm_h (sift_up_loop (place t i (tm_h t ! par i)) (par i) v))"
      using 1(1) [OF _ par_def] True p 1(2) by (simp add: tm_h_place par_def [symmetric])
    then show ?thesis using True by (subst sift_up_loop.simps) (simp add: Let_def par_def)
  next
    case False
    then have "sift_up_loop t i v = place t i v" by (subst sift_up_loop.simps) (auto simp: Let_def par_def)
    moreover have "ord_at ((tm_h t)[i := v]) j" if "0 < j" "j < length (tm_h t)" for j
    proof (cases "j = i")
      case True
      then have "par i \<noteq> i" using that par_less [of i] by simp
      then show ?thesis using True False that by (auto simp: ord_at_def node_less_key)
    next
      case neq: False
      then show ?thesis using 1(3) that by (simp add: heap_up_def)
    qed
    ultimately show ?thesis using 1(2) by (simp add: tm_h_place heap_def)
  qed
qed

lemma par_children: "0 < j \<Longrightarrow> par j = i \<longleftrightarrow> j = 2 * i + 1 \<or> j = 2 * i + 2"
  by (auto simp: par_def)

lemma sift_child_eq:
  "sift_child h i v =
     (if 2 * i + 1 < length h \<and> key (h ! (2 * i + 1)) < key v
      then if 2 * i + 2 < length h \<and> key (h ! (2 * i + 2)) < key (h ! (2 * i + 1)) then 2 * i + 2 else 2 * i + 1
      else if 2 * i + 2 < length h \<and> key (h ! (2 * i + 2)) < key v then 2 * i + 2 else i)"
  by (simp add: sift_child_def Let_def node_less_key)

lemma sift_child_stay:
  assumes "sift_child h i v = i" "0 < j" "j < length h" "par j = i"
  shows "key v \<le> key (h ! j)"
proof -
  have "j = 2 * i + 1 \<or> j = 2 * i + 2" using assms by (simp add: par_children)
  moreover have "\<not> (2 * i + 1 < length h \<and> key (h ! (2 * i + 1)) < key v)"
    using assms(1) unfolding sift_child_eq by (auto split: if_splits)
  moreover have "\<not> (2 * i + 2 < length h \<and> key (h ! (2 * i + 2)) < key v)"
    using assms(1) calculation(2) unfolding sift_child_eq by (auto split: if_splits)
  ultimately show ?thesis using assms(3) by (auto simp: not_less)
qed

lemma sift_child_move:
  assumes "m = sift_child h i v" "m \<noteq> i"
  shows "0 < m" "m < length h" "par m = i" "key (h ! m) < key v"
    and "0 < j \<Longrightarrow> j < length h \<Longrightarrow> par j = i \<Longrightarrow> key (h ! m) \<le> key (h ! j)"
proof -
  define l r where "l = 2 * i + 1" "r = 2 * i + 2"
  note eq = assms(1) [unfolded sift_child_eq, folded l_r_def]
  have m: "(m = l \<or> m = r) \<and> m < length h \<and> key (h ! m) < key v \<and>
      (l < length h \<longrightarrow> key (h ! m) \<le> key (h ! l)) \<and> (r < length h \<longrightarrow> key (h ! m) \<le> key (h ! r))"
  proof (cases "l < length h \<and> key (h ! l) < key v")
    case True
    then show ?thesis using eq by (cases "r < length h \<and> key (h ! r) < key (h ! l)") (auto simp: not_less)
  next
    case False
    then have "m = r" "r < length h" "key (h ! r) < key v" using eq assms(2) by (auto split: if_splits)
    then show ?thesis using False by (auto simp: not_less)
  qed
  then show "0 < m" "par m = i" "m < length h" "key (h ! m) < key v" by (auto simp: par_def l_r_def)
  show "key (h ! m) \<le> key (h ! j)" if "0 < j" "j < length h" "par j = i"
    using m that par_children [of j i] by (auto simp: l_r_def)
qed

lemma heap_mid_step:
  assumes "heap_mid (h[i := v]) i" "i < length h" and m: "m = sift_child h i v" "m \<noteq> i"
  shows "heap_mid ((h[i := h ! m])[m := v]) m" "ord_at ((h[i := h ! m])[m := v]) m"
proof -
  note c = sift_child_move [OF m]
  let ?g = "(h[i := h ! m])[m := v]"
  have im: "i < m" using par_less [OF c(1)] c(3) by simp
  have mid: "key (h ! par j) \<le> key (h ! j)" if "0 < j" "j < length h" "j \<noteq> i" "par j \<noteq> i" for j
    using assms(1) that by (simp add: heap_mid_def ord_at_def)
  have gr: "key (h ! par i) \<le> key (h ! m)" if "0 < i"
  proof -
    have "key (h[i := v] ! par i) \<le> key (h[i := v] ! m)"
      using assms(1) that c(1-3) unfolding heap_mid_def grand_def by simp
    then show ?thesis using par_less [OF that] im by simp
  qed
  show "ord_at ?g m" using c assms(2) im by (simp add: ord_at_def)
  have "key (?g ! par j) \<le> key (?g ! j)" if j: "0 < j" "j < length h" "j \<noteq> m" "par j \<noteq> m" for j
  proof -
    consider "j = i" | "j \<noteq> i" "par j = i" | "j \<noteq> i" "par j \<noteq> i" by blast
    then show ?thesis
    proof cases
      case 1
      then show ?thesis using gr j par_less [OF j(1)] im by simp
    next
      case 2
      then show ?thesis using c(5) j im assms(2) by simp
    next
      case 3
      then show ?thesis using mid j by simp
    qed
  qed
  moreover have "key (?g ! par m) \<le> key (?g ! j)" if j: "0 < j" "j < length h" "par j = m" for j
  proof -
    have "j \<noteq> m" "j \<noteq> i" "par j \<noteq> i" using par_less [OF j(1)] j(3) im by auto
    then show ?thesis using mid [OF j(1,2)] j c(3) im assms(2) by simp
  qed
  ultimately show "heap_mid ?g m" by (simp add: heap_mid_def grand_def ord_at_def)
qed

lemma heap_heap_up:
  assumes "heap h" "i < length h"
  shows "heap_up h i"
proof -
  have "key (h ! par i) \<le> key (h ! j)" if "0 < i" "0 < j" "j < length h" "par j = i" for j
  proof -
    have "key (h ! par i) \<le> key (h ! i)" using assms that by (simp add: heap_def ord_at_def)
    also have "\<dots> \<le> key (h ! j)" using assms(1) that unfolding heap_def ord_at_def by blast
    finally show ?thesis .
  qed
  then show ?thesis using assms(1) by (simp add: heap_up_def grand_def heap_def)
qed

lemma sift_down_heap:
  "i < length (tm_h t) \<Longrightarrow> heap_mid ((tm_h t)[i := v]) i \<Longrightarrow>
   heap_up (tm_h (sift_down_loop t i v)) i \<and>
   (i = 0 \<or> ord_at ((tm_h t)[i := v]) i \<longrightarrow> heap (tm_h (sift_down_loop t i v))) \<and>
   length (tm_h (sift_down_loop t i v)) = length (tm_h t)"
proof (induction t i v rule: sift_down_loop.induct)
  case (1 t i v)
  define m where "m = sift_child (tm_h t) i v"
  show ?case
  proof (cases "m = i")
    case True
    then have R: "tm_h (sift_down_loop t i v) = (tm_h t)[i := v]"
      using 1(2) by (subst sift_down_loop.simps) (simp add: m_def tm_h_place)
    have ord: "ord_at ((tm_h t)[i := v]) j" if j: "0 < j" "j < length (tm_h t)" "j \<noteq> i" for j
    proof (cases "par j = i")
      case True
      then show ?thesis using sift_child_stay [of "tm_h t" i v j] \<open>m = i\<close> j 1(2) by (simp add: m_def ord_at_def)
    next
      case False
      then show ?thesis using 1(3) j by (simp add: heap_mid_def)
    qed
    have "heap_up ((tm_h t)[i := v]) i" using ord 1(3) by (simp add: heap_up_def heap_mid_def)
    moreover have "heap ((tm_h t)[i := v])" if "i = 0 \<or> ord_at ((tm_h t)[i := v]) i"
      using ord that by (auto simp: heap_def)
    ultimately show ?thesis by (simp add: R)
  next
    case False
    have R: "sift_down_loop t i v = sift_down_loop (place t i (tm_h t ! m)) m v"
      using False by (subst sift_down_loop.simps) (simp add: m_def Let_def)
    have "m < length (tm_h t)" using sift_child_move(2) [OF m_def False] .
    then have "heap (tm_h (sift_down_loop t i v)) \<and> length (tm_h (sift_down_loop t i v)) = length (tm_h t)"
      using 1(1) [OF m_def False] heap_mid_step [OF 1(3,2) m_def False] 1(2) by (simp add: R tm_h_place)
    then show ?thesis using heap_heap_up [of "tm_h (sift_down_loop t i v)" i] 1(2) by simp
  qed
qed

subsection \<open>Links between heap and slots\<close>

abbreviation slot_of :: "tnode \<Rightarrow> nat" where
  "slot_of n \<equiv> ID_INDEX (tn_id n)"

definition known :: "tslot list \<Rightarrow> tnode \<Rightarrow> bool" where
  "known s n \<longleftrightarrow> slot_of n < length s \<and> tn_id n = ID_MAKE (slot_of n) (ts_gen (s ! slot_of n))"

definition links :: "tnode list \<Rightarrow> tslot list \<Rightarrow> bool" where
  "links h s \<longleftrightarrow> (\<forall>j < length h. known s (h ! j) \<and> ts_pos (s ! slot_of (h ! j)) = j)"

text \<open>Both sifting loops move elements into the gap and end by writing the carried element.\<close>

inductive sifts :: "dyn_timers \<Rightarrow> nat \<Rightarrow> tnode \<Rightarrow> dyn_timers \<Rightarrow> bool" where
  stop: "sifts t i v (place t i v)"
| move: "q < length (tm_h t) \<Longrightarrow> q \<noteq> i \<Longrightarrow> sifts (place t i (tm_h t ! q)) q v t' \<Longrightarrow> sifts t i v t'"

lemma sift_up_sifts: "i < length (tm_h t) \<Longrightarrow> sifts t i v (sift_up_loop t i v)"
proof (induction t i v rule: sift_up_loop.induct)
  case (1 t i v)
  show ?case
  proof (cases "0 < i \<and> node_less v (tm_h t ! par i)")
    case True
    then have p: "par i < length (tm_h t)" "par i \<noteq> i" using 1(2) par_less [of i] by auto
    then have "sifts (place t i (tm_h t ! par i)) (par i) v (sift_up_loop (place t i (tm_h t ! par i)) (par i) v)"
      using 1(1) [OF _ par_def] True 1(2) by simp
    then have "sifts t i v (sift_up_loop (place t i (tm_h t ! par i)) (par i) v)" by (rule sifts.move [OF p])
    then show ?thesis using True by (subst sift_up_loop.simps) (simp add: Let_def par_def)
  next
    case False
    then show ?thesis by (subst sift_up_loop.simps) (auto simp: Let_def par_def intro: sifts.stop)
  qed
qed

lemma sift_down_sifts: "i < length (tm_h t) \<Longrightarrow> sifts t i v (sift_down_loop t i v)"
proof (induction t i v rule: sift_down_loop.induct)
  case (1 t i v)
  define m where "m = sift_child (tm_h t) i v"
  show ?case
  proof (cases "m = i")
    case False
    have m: "m < length (tm_h t)" using sift_child_move(2) [OF m_def False] .
    then have "sifts (place t i (tm_h t ! m)) m v (sift_down_loop (place t i (tm_h t ! m)) m v)"
      using 1(1) [OF m_def False] 1(2) by simp
    then have "sifts t i v (sift_down_loop (place t i (tm_h t ! m)) m v)" by (rule sifts.move [OF m False])
    then show ?thesis using False by (subst sift_down_loop.simps) (simp add: m_def Let_def)
  next
    case True
    then show ?thesis by (subst sift_down_loop.simps) (simp add: m_def sifts.stop)
  qed
qed

definition carry :: "dyn_timers \<Rightarrow> nat \<Rightarrow> tnode \<Rightarrow> bool" where
  "carry t i v \<longleftrightarrow> length (tm_h t) < 2 ^ 32 \<and> i < length (tm_h t) \<and> known (tm_slots t) v \<and>
     (\<forall>j < length (tm_h t). j \<noteq> i \<longrightarrow> known (tm_slots t) (tm_h t ! j) \<and>
        ts_pos (tm_slots t ! slot_of (tm_h t ! j)) = j \<and> slot_of (tm_h t ! j) \<noteq> slot_of v)"

text \<open>What sifting keeps: everything but the order of the heap and the positions of its members.\<close>

definition moved :: "tnode list \<Rightarrow> dyn_timers \<Rightarrow> dyn_timers \<Rightarrow> bool" where
  "moved h t t' \<longleftrightarrow> mset (tm_h t') = mset h \<and> length (tm_slots t') = length (tm_slots t) \<and>
     (\<forall>x. ts_gen (tm_slots t' ! x) = ts_gen (tm_slots t ! x) \<and> ts_next_free (tm_slots t' ! x) = ts_next_free (tm_slots t ! x) \<and>
       (x \<notin> slot_of ` set h \<longrightarrow> tm_slots t' ! x = tm_slots t ! x)) \<and>
     tm_cap t' = tm_cap t \<and> tm_slot_cap t' = tm_slot_cap t \<and> tm_free_head t' = tm_free_head t \<and> tm_seq t' = tm_seq t"

lemma nth_update_if: "s[x := y] ! j = (if j = x \<and> x < length s then y else s ! j)"
  by (cases "x < length s") (auto simp: not_less list_update_beyond)

lemma place_slots:
  "i < 2 ^ 32 \<Longrightarrow> tm_slots (place t i v) = (tm_slots t)[slot_of v := (tm_slots t ! slot_of v)\<lparr>ts_pos := i\<rparr>]"
  by (simp add: place_def Let_def)

lemma place_rest [simp]:
  "tm_cap (place t i v) = tm_cap t" "tm_slot_cap (place t i v) = tm_slot_cap t"
  "tm_free_head (place t i v) = tm_free_head t" "tm_seq (place t i v) = tm_seq t"
  by (simp_all add: place_def Let_def)

lemma place_moved:
  assumes "i < length (tm_h t)" "i < 2 ^ 32" "v \<in> set h'" "mset h' = mset ((tm_h t)[i := v])"
  shows "moved h' t (place t i v)"
  using assms by (auto simp: moved_def tm_h_place place_slots nth_update_if split: if_splits)

lemma known_pos: "known (s[x := (s ! x)\<lparr>ts_pos := i\<rparr>]) n \<longleftrightarrow> known s n"
  by (auto simp: known_def nth_update_if)

lemma carry_move:
  assumes "carry t i v" "q < length (tm_h t)" "q \<noteq> i"
  shows "carry (place t i (tm_h t ! q)) q v"
proof -
  let ?u = "tm_h t ! q"
  have i: "i < length (tm_h t)" "length (tm_h t) < 2 ^ 32" using assms(1) by (simp_all add: carry_def)
  have q: "known (tm_slots t) ?u" "ts_pos (tm_slots t ! slot_of ?u) = q" "slot_of ?u \<noteq> slot_of v"
    using assms by (simp_all add: carry_def)
  have "slot_of (tm_h t ! j) \<noteq> slot_of ?u" if "j < length (tm_h t)" "j \<noteq> i" "j \<noteq> q" for j
    using assms(1) that q(2) by (auto simp: carry_def)
  then show ?thesis
    using assms i q by (auto simp: carry_def tm_h_place place_slots known_pos nth_update_if known_def)
qed

lemma sifts_links:
  "sifts t i v t' \<Longrightarrow> carry t i v \<Longrightarrow> links (tm_h t') (tm_slots t') \<and> moved ((tm_h t)[i := v]) t t'"
proof (induction rule: sifts.induct)
  case (stop t i v)
  then have i: "i < length (tm_h t)" "i < 2 ^ 32" "length (tm_h t) < 2 ^ 32" by (simp_all add: carry_def)
  have "links (tm_h (place t i v)) (tm_slots (place t i v))"
    using stop i by (auto simp: links_def carry_def tm_h_place place_slots known_pos nth_update_if known_def)
  moreover have "moved ((tm_h t)[i := v]) t (place t i v)"
    using i by (intro place_moved) (simp_all add: set_update_memI)
  ultimately show ?case by simp
next
  case (move q t i v t')
  let ?t = "place t i (tm_h t ! q)"
  have i: "i < length (tm_h t)" "i < 2 ^ 32" using move.prems by (auto simp: carry_def)
  have IH: "links (tm_h t') (tm_slots t')" "moved ((tm_h ?t)[q := v]) ?t t'"
    using move carry_move by blast+
  have perm: "mset ((tm_h ?t)[q := v]) = mset ((tm_h t)[i := v])"
  proof -
    have "(tm_h ?t)[q := v] = ((tm_h t)[i := v])[i := (tm_h t)[i := v] ! q, q := (tm_h t)[i := v] ! i]"
      using i move(1,2) by (simp add: tm_h_place)
    then show ?thesis using mset_swap [of q "(tm_h t)[i := v]" i] i move(1) by (simp add: list_update_swap [OF move(2)])
  qed
  then have sets: "set ((tm_h ?t)[q := v]) = set ((tm_h t)[i := v])" by (rule mset_eq_setD)
  have u: "tm_h t ! q \<in> set ((tm_h t)[i := v])" using move(1,2) i by (metis nth_list_update_neq nth_mem length_list_update)
  have "moved ((tm_h t)[i := v]) t t'"
    unfolding moved_def
  proof (intro conjI allI)
    show "mset (tm_h t') = mset ((tm_h t)[i := v])" "length (tm_slots t') = length (tm_slots t)"
      "tm_cap t' = tm_cap t" "tm_slot_cap t' = tm_slot_cap t" "tm_free_head t' = tm_free_head t" "tm_seq t' = tm_seq t"
      using IH(2) perm i by (simp_all add: moved_def place_slots)
  next
    fix x
    show "ts_gen (tm_slots t' ! x) = ts_gen (tm_slots t ! x)" "ts_next_free (tm_slots t' ! x) = ts_next_free (tm_slots t ! x)"
      using IH(2) i by (simp_all add: moved_def place_slots nth_update_if)
    show "x \<notin> slot_of ` set ((tm_h t)[i := v]) \<longrightarrow> tm_slots t' ! x = tm_slots t ! x"
      using IH(2) i u sets by (auto simp: moved_def place_slots nth_update_if)
  qed
  then show ?case using IH by simp
qed

subsection \<open>The slot table\<close>

primrec chain :: "tslot list \<Rightarrow> nat \<Rightarrow> nat list \<Rightarrow> bool" where
  "chain s x [] \<longleftrightarrow> x = NO_POS"
| "chain s x (y # ys) \<longleftrightarrow> x = y \<and> x < length s \<and> ts_pos (s ! x) = NO_POS \<and> chain s (ts_next_free (s ! x)) ys"

text \<open>\<open>E\<close> is the set of slots that are being handed out: neither free nor in use.\<close>

definition table_ok :: "tnode list \<Rightarrow> tslot list \<Rightarrow> nat \<Rightarrow> nat set \<Rightarrow> bool" where
  "table_ok h s fh E \<longleftrightarrow>
     (\<forall>x < length s. x \<notin> E \<longrightarrow> ts_pos (s ! x) \<noteq> NO_POS \<longrightarrow> x \<in> slot_of ` set h) \<and>
     (\<exists>xs. chain s fh xs \<and> distinct xs \<and> set xs \<inter> (slot_of ` set h \<union> E) = {} \<and>
        (\<forall>x < length s. x \<notin> E \<longrightarrow> ts_pos (s ! x) = NO_POS \<longrightarrow> x \<in> set xs))"

definition timers_ok :: "dyn_timers \<Rightarrow> bool" where
  "timers_ok t \<longleftrightarrow> heap (tm_h t) \<and> links (tm_h t) (tm_slots t) \<and> table_ok (tm_h t) (tm_slots t) (tm_free_head t) {} \<and>
     length (tm_slots t) \<le> DYN_TIMER_MAX_SLOTS \<and> length (tm_h t) \<le> tm_cap t \<and> length (tm_slots t) \<le> tm_slot_cap t"

lemma links_distinct: "links h s \<Longrightarrow> distinct (map slot_of h)"
proof -
  assume l: "links h s"
  have "i = j" if "i < length h" "j < length h" "slot_of (h ! i) = slot_of (h ! j)" for i j
    using l that unfolding links_def by metis
  then show ?thesis by (auto simp: distinct_conv_nth)
qed

lemma links_subset: "links h s \<Longrightarrow> slot_of ` set h \<subseteq> {..<length s}"
  by (auto simp: links_def known_def in_set_conv_nth)

lemma links_length: "links h s \<Longrightarrow> length h \<le> length s"
proof -
  assume l: "links h s"
  have "length h = card (slot_of ` set h)" using distinct_card [OF links_distinct [OF l]] by simp
  also have "\<dots> \<le> length s" using card_mono [OF _ links_subset [OF l]] by simp
  finally show ?thesis .
qed

lemma links_pos: "links h s \<Longrightarrow> x \<in> slot_of ` set h \<Longrightarrow> ts_pos (s ! x) < length h"
  by (auto simp: links_def in_set_conv_nth)

lemma max_slots_less: "n \<le> DYN_TIMER_MAX_SLOTS \<Longrightarrow> n < NO_POS \<and> n < 2 ^ 32 - 1"
  by (simp add: DYN_TIMER_MAX_SLOTS_def NO_POS_def)

lemma chain_cong: "chain s x xs \<Longrightarrow> length s' = length s \<Longrightarrow> \<forall>y \<in> set xs. s' ! y = s ! y \<Longrightarrow> chain s' x xs"
  by (induction xs arbitrary: x) auto

lemma chain_free: "chain s x xs \<Longrightarrow> y \<in> set xs \<Longrightarrow> y < length s \<and> ts_pos (s ! y) = NO_POS"
  by (induction xs arbitrary: x) auto

lemma table_ok_moved:
  assumes "table_ok h s fh E" "slot_of ` set h' = slot_of ` set h \<union> E" "length s' = length s"
    and "\<And>x. x \<notin> slot_of ` set h' \<Longrightarrow> s' ! x = s ! x" and "links h'' s'" "mset h'' = mset h'" "length h'' < NO_POS"
  shows "table_ok h'' s' fh {}"
proof -
  define S where "S = slot_of ` set h'"
  have sets: "slot_of ` set h'' = S" using mset_eq_setD [OF assms(6)] by (simp add: S_def)
  have same: "s' ! x = s ! x" if "x \<notin> S" for x using assms(4) that by (simp add: S_def)
  have S: "slot_of ` set h \<union> E = S" using assms(2) by (simp add: S_def)
  have used: "x \<in> S" if "x < length s" "ts_pos (s ! x) \<noteq> NO_POS" for x
    using assms(1) that S unfolding table_ok_def by blast
  from assms(1) obtain xs where xs: "chain s fh xs" "distinct xs" "set xs \<inter> S = {}"
    and all: "\<forall>x < length s. x \<notin> E \<longrightarrow> ts_pos (s ! x) = NO_POS \<longrightarrow> x \<in> set xs"
    unfolding table_ok_def S by blast
  have "\<forall>y \<in> set xs. s' ! y = s ! y" using xs(3) same by blast
  then have "chain s' fh xs" by (rule chain_cong [OF xs(1) assms(3)])
  moreover have "x \<in> set xs" if "x < length s'" "ts_pos (s' ! x) = NO_POS" for x
  proof -
    have "x \<notin> S" using links_pos [OF assms(5), of x] that(2) assms(7) sets by auto
    then show ?thesis using all same [of x] S that assms(3) by auto
  qed
  moreover have "x \<in> S" if "x < length s'" "ts_pos (s' ! x) \<noteq> NO_POS" for x
    using used [of x] same [of x] that assms(3) by (cases "x \<in> S") simp_all
  ultimately show ?thesis unfolding table_ok_def sets using xs(2,3) by simp blast
qed

lemma table_ok_release:
  assumes "table_ok h s fh {}" "links h s" "n \<in> set h" "slot_of ` set h' = slot_of ` set h - {slot_of n}" "length h < NO_POS"
  shows "table_ok h' (s[slot_of n := \<lparr>ts_pos = NO_POS, ts_gen = g, ts_next_free = fh\<rparr>]) (slot_of n) {}"
proof -
  let ?x = "slot_of n"
  let ?s = "s[?x := \<lparr>ts_pos = NO_POS, ts_gen = g, ts_next_free = fh\<rparr>]"
  have x: "?x < length s" using links_subset [OF assms(2)] assms(3) by auto
  obtain xs where xs: "chain s fh xs" "distinct xs" "set xs \<inter> slot_of ` set h = {}"
    "\<And>x. x < length s \<Longrightarrow> ts_pos (s ! x) = NO_POS \<Longrightarrow> x \<in> set xs"
    using assms(1) unfolding table_ok_def by auto
  have notin: "?x \<notin> set xs" using xs(3) assms(3) by auto
  have "\<forall>y \<in> set xs. ?s ! y = s ! y" using notin by (metis nth_list_update_neq)
  then have "chain ?s fh xs" by (intro chain_cong [OF xs(1)]) simp_all
  then have "chain ?s ?x (?x # xs)" using x by simp
  moreover have "distinct (?x # xs)" "set (?x # xs) \<inter> slot_of ` set h' = {}" using xs(2,3) notin assms(4) by auto
  moreover have "y \<in> set (?x # xs)" if "y < length ?s" "ts_pos (?s ! y) = NO_POS" for y
    using that xs(4) by (cases "y = ?x") auto
  moreover have "y \<in> slot_of ` set h'" if "y < length ?s" "ts_pos (?s ! y) \<noteq> NO_POS" for y
    using that assms(1,4) x unfolding table_ok_def by (cases "y = ?x") auto
  ultimately show ?thesis unfolding table_ok_def by (metis Un_empty_right)
qed

subsection \<open>Removal\<close>

lemma remove_slots:
  assumes "distinct (map slot_of h)" "n \<in> set h" "mset h' = mset h - {#n#}"
  shows "slot_of ` set h' = slot_of ` set h - {slot_of n}" "slot_of n \<notin> slot_of ` set h'"
proof -
  have m: "mset h = mset (n # h')" using assms(2,3) by simp
  then have "mset (map slot_of h) = mset (map slot_of (n # h'))" by (metis mset_map)
  then have "distinct (map slot_of (n # h'))" using assms(1) mset_eq_imp_distinct_iff by blast
  then show "slot_of n \<notin> slot_of ` set h'" by auto
  then show "slot_of ` set h' = slot_of ` set h - {slot_of n}" using mset_eq_setD [OF m] by auto
qed

lemma mset_remove_last:
  assumes "i < length h - 1"
  shows "mset ((butlast h)[i := h ! (length h - 1)]) = mset h - {#h ! i#}"
proof -
  have h: "h = butlast h @ [h ! (length h - 1)]" using assms by (metis append_butlast_last_id last_conv_nth length_0_conv less_nat_zero_code diff_0_eq_0)
  have "mset h = add_mset (h ! (length h - 1)) (mset (butlast h))" using arg_cong [OF h, of mset] by simp
  moreover have "h ! i \<in># mset (butlast h)" using assms nth_mem [of i "butlast h"] by (simp add: nth_butlast)
  then obtain M where "mset (butlast h) = add_mset (h ! i) M" by (metis multi_member_split)
  ultimately show ?thesis using assms mset_update [of i "butlast h"] by (simp add: nth_butlast)
qed

lemma mset_butlast: "h \<noteq> [] \<Longrightarrow> mset (butlast h) = mset h - {#h ! (length h - 1)#}"
  by (metis add_diff_cancel_right' append_butlast_last_id last_conv_nth mset.simps(1) mset.simps(2) mset_append)

lemma links_carry: "links (tm_h t) (tm_slots t) \<Longrightarrow> length (tm_h t) < 2 ^ 32 \<Longrightarrow> i < length (tm_h t) \<Longrightarrow> carry t i (tm_h t ! i)"
  unfolding carry_def links_def by (metis)

lemma heap_butlast: "heap h \<Longrightarrow> heap (butlast h)"
proof -
  assume h: "heap h"
  have "ord_at (butlast h) j" if "0 < j" "j < length h - 1" for j
    using h that par_less [of j] by (simp add: heap_def ord_at_def nth_butlast)
  then show ?thesis by (simp add: heap_def)
qed

lemma heap_mid_replace: "heap h \<Longrightarrow> i < length h \<Longrightarrow> heap_mid (h[i := v]) i"
  using heap_heap_up [of h i] unfolding heap_up_def heap_mid_def grand_def ord_at_def
  by (auto simp: nth_list_update) (metis par_less less_irrefl)+

text \<open>Sifting the element at \<open>i\<close> from a linked state.\<close>

lemma sift_linked:
  assumes "links (tm_h t) (tm_slots t)" "length (tm_h t) < 2 ^ 32" "i < length (tm_h t)"
    and "sifts t i (tm_h t ! i) t'"
  shows "links (tm_h t') (tm_slots t')" "moved (tm_h t) t t'"
  using sifts_links [OF assms(4) links_carry [OF assms(1-3)]] by simp_all

lemma moved_trans: "moved h t t' \<Longrightarrow> mset h' = mset h \<Longrightarrow> moved h' t' t'' \<Longrightarrow> moved h t t''"
  unfolding moved_def using mset_eq_setD by (metis (no_types, lifting))

text \<open>Filling the gap at \<open>i\<close>: the element is written, sifted down and then up.\<close>

definition refill :: "dyn_timers \<Rightarrow> nat \<Rightarrow> tnode \<Rightarrow> dyn_timers" where
  "refill t i v =
     (let t = sift_down (place t i v) i
      in if ts_pos (tm_slots t ! slot_of (tm_h t ! i)) = i then sift_up t i else t)"

lemma refill_ok:
  assumes "carry t i v" "heap_mid ((tm_h t)[i := v]) i"
  shows "heap (tm_h (refill t i v))" "links (tm_h (refill t i v)) (tm_slots (refill t i v))"
    and "moved ((tm_h t)[i := v]) t (refill t i v)"
proof -
  define h where "h = (tm_h t)[i := v]"
  define t2 where "t2 = place t i v"
  have i: "i < length (tm_h t)" "length (tm_h t) < 2 ^ 32" using assms(1) by (simp_all add: carry_def)
  have h2: "tm_h t2 = h" using i by (simp add: t2_def h_def tm_h_place)
  have l2: "links h (tm_slots t2)" "moved h t t2" using sifts_links [OF sifts.stop assms(1)] h2 by (simp_all add: t2_def h_def)
  have len2: "length (tm_h t2) < 2 ^ 32" "i < length (tm_h t2)" using i by (simp_all add: h2 h_def)
  define t3 where "t3 = sift_down t2 i"
  have l3: "links (tm_h t3) (tm_slots t3)" "moved h t2 t3"
    using sift_linked [of t2 i t3] l2 len2 sift_down_sifts [OF len2(2)] by (simp_all add: h2 t3_def sift_down_def)
  have up: "heap_up (tm_h t3) i" "length (tm_h t3) = length h"
    using sift_down_heap [OF len2(2), of "h ! i"] assms(2) by (simp_all add: t3_def sift_down_def h2 h_def)
  have len3: "length (tm_h t3) < 2 ^ 32" "i < length (tm_h t3)" using len2 up(2) by (simp_all add: h2)
  have t4: "refill t i v = sift_up t3 i"
    using l3(1) len3(2) by (simp add: refill_def t2_def [symmetric] t3_def [symmetric] links_def Let_def)
  have l4: "links (tm_h (sift_up t3 i)) (tm_slots (sift_up t3 i))" "moved (tm_h t3) t3 (sift_up t3 i)"
    using sift_linked [of t3 i] l3(1) len3 sift_up_sifts [OF len3(2)] by (simp_all add: sift_up_def)
  then show "links (tm_h (refill t i v)) (tm_slots (refill t i v))" by (simp add: t4)
  show "heap (tm_h (refill t i v))" using sift_up_heap [OF len3(2), of "tm_h t3 ! i"] up(1) by (simp add: t4 sift_up_def)
  have "moved h t t3" by (rule moved_trans [OF l2(2) refl l3(2)])
  moreover have "mset (tm_h t3) = mset h" using l3(2) by (simp add: moved_def)
  ultimately have "moved h t (sift_up t3 i)" using moved_trans l4(2) by blast
  then show "moved ((tm_h t)[i := v]) t (refill t i v)" by (simp add: t4 h_def)
qed

lemma heap_remove_at_ok:
  assumes "timers_ok t" "i < length (tm_h t)"
  shows "timers_ok (heap_remove_at t i) \<and> mset (tm_h (heap_remove_at t i)) = mset (tm_h t) - {#tm_h t ! i#} \<and>
    tm_seq (heap_remove_at t i) = tm_seq t"
proof -
  define h where "h = tm_h t"
  define s where "s = tm_slots t"
  define n where "n = h ! i"
  define x where "x = slot_of n"
  define s1 where "s1 = s[x := \<lparr>ts_pos = NO_POS, ts_gen = ts_gen (s ! x) + 1, ts_next_free = tm_free_head t\<rparr>]"
  define last where "last = h ! (length h - 1)"
  define t1 where "t1 = t\<lparr>tm_slots := s1, tm_free_head := x, tm_h := butlast h\<rparr>"
  have ok: "heap h" "links h s" "table_ok h s (tm_free_head t) {}" "length s \<le> DYN_TIMER_MAX_SLOTS"
      "length h \<le> tm_cap t" "length s \<le> tm_slot_cap t" "i < length h"
    using assms by (simp_all add: timers_ok_def h_def s_def)
  have len: "length h < NO_POS" "length h < 2 ^ 32" using links_length [OF ok(2)] max_slots_less [OF ok(4)] by auto
  have n: "n \<in> set h" using ok(7) by (simp add: n_def)
  have others: "known s1 (h ! j) \<and> ts_pos (s1 ! slot_of (h ! j)) = j" if "j < length h" "j \<noteq> i" for j
  proof -
    have "slot_of (h ! j) \<noteq> x" using links_distinct [OF ok(2)] that ok(7) by (simp add: x_def n_def distinct_conv_nth)
    then show ?thesis using ok(2) that by (auto simp: s1_def links_def known_def)
  qed
  have table: "table_ok h' s1 x {}" if "mset h' = mset h - {#n#}" for h'
    unfolding s1_def x_def using table_ok_release [OF ok(3,2) n _ len(1)] remove_slots(1) [OF links_distinct [OF ok(2)] n that] by blast
  have r: "heap_remove_at t i = (if i = length h - 1 then t1 else refill t1 i last)"
    by (simp add: heap_remove_at_def slot_release_def refill_def Let_def t1_def h_def s_def s1_def n_def x_def last_def)
  have "timers_ok (heap_remove_at t i) \<and> mset (tm_h (heap_remove_at t i)) = mset h - {#n#} \<and> tm_seq (heap_remove_at t i) = tm_seq t"
  proof (cases "i = length h - 1")
    case True
    have m: "mset (butlast h) = mset h - {#n#}" using mset_butlast [of h] True ok(7) by (cases "h = []") (auto simp: n_def)
    have "links (butlast h) s1" using others True by (auto simp: links_def nth_butlast)
    then have "timers_ok t1"
      using ok heap_butlast [OF ok(1)] table [OF m] by (simp add: timers_ok_def t1_def s1_def)
    then show ?thesis using r True m by (simp add: t1_def)
  next
    case False
    then have i: "i < length h - 1" using ok(7) by simp
    define h2 where "h2 = (butlast h)[i := last]"
    have m: "mset h2 = mset h - {#n#}" using mset_remove_last [OF i] by (simp add: h2_def last_def n_def)
    have carry: "carry t1 i last"
      using others [of "length h - 1"] others i len(2) False links_distinct [OF ok(2)]
      by (auto simp: carry_def t1_def last_def nth_butlast distinct_conv_nth)
    have "heap_mid h2 i" using heap_mid_replace [OF heap_butlast [OF ok(1)]] i by (simp add: h2_def)
    then have t4: "heap (tm_h (refill t1 i last))" "links (tm_h (refill t1 i last)) (tm_slots (refill t1 i last))"
        "moved h2 t1 (refill t1 i last)"
      using refill_ok [OF carry] by (simp_all add: h2_def t1_def)
    have len4: "length (tm_h (refill t1 i last)) = length h - 1"
      using t4(3) mset_eq_length [of "tm_h (refill t1 i last)" h2] by (simp add: moved_def h2_def)
    have "table_ok (tm_h (refill t1 i last)) (tm_slots (refill t1 i last)) x {}"
      by (rule table_ok_moved [OF table [OF m], of h2]) (use t4 len4 len in \<open>auto simp: moved_def t1_def\<close>)
    then have "timers_ok (refill t1 i last)"
      using t4 len4 ok by (simp add: timers_ok_def moved_def t1_def s1_def)
    then show ?thesis using r False t4(3) m by (simp add: moved_def t1_def)
  qed
  then show ?thesis by (simp add: h_def n_def)
qed

end
