(* ===== verification/TimerProps.thy ===== *)
theory TimerProps
  imports TimerCorrect
begin

text \<open>
  The operations of the timer queue against the multiset of pending timers: adding, cancelling, the next
  timeout, and running what is due.
\<close>

subsection \<open>Adding\<close>

lemma timer_deadline_unat: "unat (timer_deadline now d) = min (2 ^ 64 - 1) (unat now + unat d)"
proof -
  have s: "unat (now + d) = (unat now + unat d) mod 2 ^ 64" by (simp add: unat_word_ariths)
  have b: "unat now < 2 ^ 64" "unat d < 2 ^ 64" by (rule unat64_less)+
  show ?thesis
  proof (cases "unat now + unat d < 2 ^ 64")
    case True
    then show ?thesis using s by (simp add: timer_deadline_def word_less_nat_alt)
  next
    case False
    then have "unat (now + d) = unat now + unat d - 2 ^ 64" using s b by (simp add: mod_eq_sub)
    then have "now + d < now" using False b by (simp add: word_less_nat_alt)
    then show ?thesis using False by (simp add: timer_deadline_def)
  qed
qed

lemma chain_cases: "chain s x xs \<Longrightarrow> length s < NO_POS \<Longrightarrow> (x = NO_POS \<longleftrightarrow> xs = [])"
  by (cases xs) auto

definition slot_ready :: "dyn_timers \<Rightarrow> nat \<Rightarrow> dyn_timers \<Rightarrow> bool" where
  "slot_ready t x t' \<longleftrightarrow> x < length (tm_slots t') \<and> x \<notin> slot_of ` set (tm_h t) \<and> links (tm_h t) (tm_slots t') \<and>
     table_ok (tm_h t) (tm_slots t') (tm_free_head t') {x} \<and> length (tm_slots t') \<le> DYN_TIMER_MAX_SLOTS \<and>
     length (tm_slots t') \<le> tm_slot_cap t' \<and> tm_h t' = tm_h t \<and> tm_cap t' = tm_cap t \<and> tm_seq t' = tm_seq t"

lemma slot_reuse:
  assumes "timers_ok t" "tm_free_head t \<noteq> NO_POS"
  shows "slot_ready t (tm_free_head t) (t\<lparr>tm_free_head := ts_next_free (tm_slots t ! tm_free_head t)\<rparr>)"
proof -
  let ?x = "tm_free_head t" and ?s = "tm_slots t"
  from assms(1) have ok: "links (tm_h t) ?s" "length ?s \<le> DYN_TIMER_MAX_SLOTS" "length ?s \<le> tm_slot_cap t"
      "table_ok (tm_h t) ?s ?x {}"
    by (simp_all add: timers_ok_def)
  from ok(4) obtain xs where xs: "chain ?s ?x xs" "distinct xs" "set xs \<inter> slot_of ` set (tm_h t) = {}"
    and all: "\<forall>y < length ?s. ts_pos (?s ! y) = NO_POS \<longrightarrow> y \<in> set xs"
    unfolding table_ok_def by auto
  obtain ys where ys: "xs = ?x # ys" using xs(1) assms(2) by (cases xs) auto
  have c: "chain ?s (ts_next_free (?s ! ?x)) ys" "?x < length ?s" "?x \<notin> set ys" using xs ys by auto
  have "table_ok (tm_h t) ?s (ts_next_free (?s ! ?x)) {?x}"
    unfolding table_ok_def
  proof (intro conjI exI [of _ ys] allI impI)
    show "y \<in> slot_of ` set (tm_h t)" if "y < length ?s" "ts_pos (?s ! y) \<noteq> NO_POS" for y
      using ok(4) that unfolding table_ok_def by blast
    show "set ys \<inter> (slot_of ` set (tm_h t) \<union> {?x}) = {}" using xs(3) ys c(3) by auto
    show "y \<in> set ys" if "y < length ?s" "y \<notin> {?x}" "ts_pos (?s ! y) = NO_POS" for y using all that ys by auto
  qed (use xs ys c in auto)
  then show ?thesis using ok c(2) xs(3) ys by (auto simp: slot_ready_def)
qed

lemma slot_fresh:
  assumes "timers_ok t" "tm_free_head t = NO_POS" "length (tm_slots t) < DYN_TIMER_MAX_SLOTS" "length (tm_slots t) < c"
  shows "slot_ready t (length (tm_slots t)) (t\<lparr>tm_slot_cap := c, tm_slots := tm_slots t @ [\<lparr>ts_pos = 0, ts_gen = 0, ts_next_free = 0\<rparr>]\<rparr>)"
proof -
  let ?s = "tm_slots t" and ?s' = "tm_slots t @ [\<lparr>ts_pos = 0, ts_gen = 0, ts_next_free = 0\<rparr>]"
  from assms(1) have ok: "links (tm_h t) ?s" "table_ok (tm_h t) ?s NO_POS {}" by (simp_all add: timers_ok_def assms(2))
  have fresh: "length ?s \<notin> slot_of ` set (tm_h t)" using links_subset [OF ok(1)] by auto
  have "links (tm_h t) ?s'" using ok(1) by (auto simp: links_def known_def nth_append)
  moreover from ok(2) obtain xs where xs: "chain ?s NO_POS xs" "\<forall>y < length ?s. ts_pos (?s ! y) = NO_POS \<longrightarrow> y \<in> set xs"
    unfolding table_ok_def by auto
  then have "xs = []" using chain_cases [OF xs(1)] max_slots_less [of "length ?s"] assms(3) by simp
  then have "table_ok (tm_h t) ?s' NO_POS {length ?s}"
    using ok(2) xs(2) unfolding table_ok_def by (intro conjI exI [of _ "[]"]) (auto simp: nth_append)
  ultimately show ?thesis using assms fresh by (simp add: slot_ready_def)
qed

lemma slots_all_used:
  assumes "timers_ok t" "tm_free_head t = NO_POS"
  shows "length (tm_slots t) = length (tm_h t)"
proof -
  let ?s = "tm_slots t"
  from assms have ok: "links (tm_h t) ?s" "table_ok (tm_h t) ?s NO_POS {}" "length ?s \<le> DYN_TIMER_MAX_SLOTS"
    by (simp_all add: timers_ok_def)
  from ok(2) obtain xs where xs: "chain ?s NO_POS xs" "\<forall>y < length ?s. ts_pos (?s ! y) = NO_POS \<longrightarrow> y \<in> set xs"
    unfolding table_ok_def by auto
  then have "xs = []" using chain_cases [OF xs(1)] max_slots_less [OF ok(3)] by simp
  then have "{..<length ?s} \<subseteq> slot_of ` set (tm_h t)" using ok(2) xs(2) unfolding table_ok_def by auto
  then have "length ?s \<le> card (slot_of ` set (tm_h t))" using card_mono [of "slot_of ` set (tm_h t)" "{..<length ?s}"] by simp
  also have "\<dots> \<le> length (tm_h t)" using card_image_le [of "set (tm_h t)" slot_of] card_length [of "tm_h t"] by simp
  finally show ?thesis using links_length [OF ok(1)] by simp
qed

lemma slot_alloc_ok:
  assumes ok: "timers_ok t" and eq: "slot_alloc al t = (x, t', al')"
  shows "if x = NO_POS then timers_ok t' \<and> tm_h t' = tm_h t \<and> tm_seq t' = tm_seq t else slot_ready t x t'"
    and "(\<forall>b \<in> set al. b) \<Longrightarrow> length (tm_h t) < DYN_TIMER_MAX_SLOTS \<Longrightarrow> x \<noteq> NO_POS"
proof -
  let ?n = "length (tm_slots t)"
  have cap: "?n \<le> tm_slot_cap t" using ok by (simp add: timers_ok_def)
  obtain b al'' where na: "next_alloc al = (b, al'')" by fastforce
  have "(if x = NO_POS then timers_ok t' \<and> tm_h t' = tm_h t \<and> tm_seq t' = tm_seq t else slot_ready t x t') \<and>
    ((\<forall>b \<in> set al. b) \<longrightarrow> length (tm_h t) < DYN_TIMER_MAX_SLOTS \<longrightarrow> x \<noteq> NO_POS)"
  proof (cases "tm_free_head t = NO_POS")
    case False
    then show ?thesis using eq slot_reuse [OF ok False] by (auto simp: slot_alloc_def Let_def)
  next
    case free: True
    show ?thesis
    proof (cases "?n < DYN_TIMER_MAX_SLOTS")
      case False
      then show ?thesis using eq free ok slots_all_used [OF ok free] by (auto simp: slot_alloc_def)
    next
      case room: True
      then have n: "?n \<noteq> NO_POS" using max_slots_less [of ?n] by simp
      show ?thesis
      proof (cases "?n = tm_slot_cap t \<and> \<not> b")
        case True
        then have "x = NO_POS" "t' = t" using eq free room na by (auto simp: slot_alloc_def Let_def)
        moreover have "\<not> (\<forall>b \<in> set al. b)" using True na next_alloc_False [of al] by auto
        ultimately show ?thesis using ok by auto
      next
        case False
        define c where "c = (if ?n = tm_slot_cap t then if tm_slot_cap t \<noteq> 0 then tm_slot_cap t * 2 else 16 else tm_slot_cap t)"
        have "x = ?n" "t' = t\<lparr>tm_slot_cap := c, tm_slots := tm_slots t @ [\<lparr>ts_pos = 0, ts_gen = 0, ts_next_free = 0\<rparr>]\<rparr>"
          using eq free room na False by (auto simp: slot_alloc_def Let_def c_def split: if_splits)
        moreover have "?n < c" using cap by (auto simp: c_def)
        ultimately show ?thesis using slot_fresh [OF ok free room] n by simp
      qed
    qed
  qed
  then show "if x = NO_POS then timers_ok t' \<and> tm_h t' = tm_h t \<and> tm_seq t' = tm_seq t else slot_ready t x t'"
    "(\<forall>b \<in> set al. b) \<Longrightarrow> length (tm_h t) < DYN_TIMER_MAX_SLOTS \<Longrightarrow> x \<noteq> NO_POS" by blast+
qed

lemma heap_snoc: "heap h \<Longrightarrow> heap_up (h @ [v]) (length h)"
proof -
  assume h: "heap h"
  have "ord_at (h @ [v]) j" if "0 < j" "j < length h" for j
    using h that par_less [of j] by (simp add: heap_def ord_at_def nth_append)
  moreover have "par j \<noteq> length h" if "0 < j" "j < Suc (length h)" for j using that par_less [of j] by simp
  ultimately show ?thesis by (auto simp: heap_up_def grand_def less_Suc_eq)
qed

lemma push_ok:
  assumes ready: "slot_ready t0 x t" and heap: "heap (tm_h t)" and cap: "length (tm_h t) < tm_cap t"
    and v: "tn_id v = ID_MAKE x (ts_gen (tm_slots t ! x))"
  defines "t' \<equiv> sift_up (place t (length (tm_h t)) v) (length (tm_h t))"
  shows "timers_ok t'" "mset (tm_h t') = add_mset v (mset (tm_h t))" "tm_seq t' = tm_seq t"
proof -
  let ?n = "length (tm_h t)" and ?h = "tm_h t @ [v]"
  define t1 where "t1 = place t ?n v"
  have r: "x < length (tm_slots t)" "x \<notin> slot_of ` set (tm_h t)" "links (tm_h t) (tm_slots t)"
      "table_ok (tm_h t) (tm_slots t) (tm_free_head t) {x}" "length (tm_slots t) \<le> DYN_TIMER_MAX_SLOTS" "length (tm_slots t) \<le> tm_slot_cap t"
    using ready by (simp_all add: slot_ready_def)
  have len: "?n < length (tm_slots t)"
  proof -
    have "slot_of ` set (tm_h t) \<subseteq> {..<length (tm_slots t)} - {x}" using links_subset [OF r(3)] r(2) by auto
    from card_mono [OF _ this] have "card (slot_of ` set (tm_h t)) \<le> length (tm_slots t) - 1" using r(1) by simp
    then show ?thesis using distinct_card [OF links_distinct [OF r(3)]] r(1) by simp
  qed
  have small: "?n < NO_POS - 1" "Suc ?n < 2 ^ 32" "x < 2 ^ 32" using len r(1,5) by (simp_all add: DYN_TIMER_MAX_SLOTS_def NO_POS_def)
  have slot: "slot_of v = x" using v small(3) by simp
  have t1: "tm_h t1 = ?h" "tm_slots t1 = (tm_slots t)[x := (tm_slots t ! x)\<lparr>ts_pos := ?n\<rparr>]"
    using small slot by (simp_all add: t1_def place_def Let_def)
  have "links ?h (tm_slots t1)"
    using r(1-3) v slot by (auto simp: links_def t1 nth_append less_Suc_eq known_def nth_update_if)
  then have l1: "links (tm_h t1) (tm_slots t1)" by (simp add: t1)
  have len1: "length (tm_h t1) < 2 ^ 32" "?n < length (tm_h t1)" using small by (simp_all add: t1)
  have l2: "links (tm_h t') (tm_slots t')" "moved ?h t1 t'"
    using sift_linked [OF l1 len1, of t'] sift_up_sifts [OF len1(2)] by (simp_all add: t'_def t1_def [symmetric] t1(1) sift_up_def)
  have "heap_up (tm_h t1) ?n" using heap_snoc [OF heap] by (simp add: t1)
  then have "heap (tm_h t')"
    using sift_up_heap [OF len1(2), of "tm_h t1 ! ?n"] by (simp add: t'_def t1_def [symmetric] sift_up_def)
  moreover have len': "length (tm_h t') = Suc ?n" using l2(2) mset_eq_length [of "tm_h t'" ?h] by (simp add: moved_def)
  moreover have "table_ok (tm_h t') (tm_slots t') (tm_free_head t) {}"
  proof (rule table_ok_moved [OF r(4), of ?h])
    show "length (tm_h t') < NO_POS" using len' small by simp
    show "tm_slots t' ! y = tm_slots t ! y" if "y \<notin> slot_of ` set ?h" for y
      using that l2(2) slot by (auto simp: moved_def t1)
  qed (use l2 slot in \<open>auto simp: moved_def t1\<close>)
  moreover have "tm_free_head t1 = tm_free_head t" "tm_cap t1 = tm_cap t" "tm_slot_cap t1 = tm_slot_cap t" "tm_seq t1 = tm_seq t"
    by (simp_all add: t1_def)
  ultimately show "timers_ok t'" "mset (tm_h t') = add_mset v (mset (tm_h t))" "tm_seq t' = tm_seq t"
    using l2 r cap by (simp_all add: timers_ok_def moved_def t1)
qed

lemma grow_heap_ok:
  assumes "timers_ok t"
  shows "timers_ok (t\<lparr>tm_cap := c\<rparr>) = (length (tm_h t) \<le> c)"
  using assms by (simp add: timers_ok_def)

definition timer_of :: "u64 \<Rightarrow> u64 \<Rightarrow> u64 \<Rightarrow> u64 \<Rightarrow> u64 \<Rightarrow> dyn_timer_id \<Rightarrow> tnode" where
  "timer_of now delay_ms seq cb arg tid =
     \<lparr>tn_deadline = of_nat (min (2 ^ 64 - 1) (unat now + unat delay_ms)), tn_seq = seq, tn_cb = cb, tn_arg = arg, tn_id = tid\<rparr>"

text \<open>Adding after the heap array has room.\<close>

lemma add_with_room:
  assumes ok: "timers_ok t" and cap: "length (tm_h t) < tm_cap t" and alloc: "slot_alloc al t = (x, t1, al')" and x: "x \<noteq> NO_POS"
    and v_def: "v = timer_of now d (tm_seq t) cb arg (ID_MAKE x (ts_gen (tm_slots t1 ! x)))"
  defines "t' \<equiv> sift_up (place (t1\<lparr>tm_seq := tm_seq t1 + 1\<rparr>) (length (tm_h t1)) v) (length (tm_h t1))"
  shows "timers_ok t' \<and> mset (tm_h t') = add_mset v (mset (tm_h t)) \<and> tn_id v \<noteq> DYN_TIMER_NONE \<and> tn_id v \<notin> tn_id ` set (tm_h t) \<and>
    tm_seq t' = tm_seq t + 1"
proof -
  let ?t = "t1\<lparr>tm_seq := tm_seq t1 + 1\<rparr>"
  have r: "slot_ready t x t1" using slot_alloc_ok(1) [OF ok alloc] x by simp
  then have h: "tm_h t1 = tm_h t" "tm_cap t1 = tm_cap t" "x < length (tm_slots t1)" "length (tm_slots t1) \<le> DYN_TIMER_MAX_SLOTS"
    by (simp_all add: slot_ready_def)
  have "slot_ready (t\<lparr>tm_seq := tm_seq t1 + 1\<rparr>) x ?t" using r by (simp add: slot_ready_def)
  from push_ok [OF this, of v] have p: "timers_ok t'" "mset (tm_h t') = add_mset v (mset (tm_h t))" "tm_seq t' = tm_seq t1 + 1"
    using ok cap h by (simp_all add: timers_ok_def v_def timer_of_def t'_def)
  have small: "x < 2 ^ 32 - 1" "x < 2 ^ 32" using h(3,4) max_slots_less [of x] by simp_all
  have "slot_of v = x" using small by (simp add: v_def timer_of_def)
  then have "tn_id v \<notin> tn_id ` set (tm_h t)" using r by (auto simp: slot_ready_def)
  moreover have "tm_seq t1 = tm_seq t" using r by (simp add: slot_ready_def)
  ultimately show ?thesis using p ID_MAKE_not_NONE [OF small(1)] by (simp add: v_def timer_of_def)
qed

lemma timer_of_eq:
  "\<lparr>tn_deadline = timer_deadline now d, tn_seq = s, tn_cb = cb, tn_arg = arg, tn_id = tid\<rparr> = timer_of now d s cb arg tid"
proof -
  have "timer_deadline now d = of_nat (unat (timer_deadline now d))" by simp
  then show ?thesis unfolding timer_deadline_unat timer_of_def by simp
qed

lemma add_room_cases:
  assumes ok: "timers_ok t" and cap: "length (tm_h t) < tm_cap t"
    and eq: "(let (idx, t, al) = slot_alloc al t in
        if idx = NO_POS then (DYN_TIMER_NONE, t, al)
        else
          (let v = \<lparr>tn_deadline = timer_deadline now d, tn_seq = tm_seq t, tn_cb = cb, tn_arg = arg,
                    tn_id = ID_MAKE idx (ts_gen (tm_slots t ! idx))\<rparr>;
               t = t\<lparr>tm_seq := tm_seq t + 1\<rparr>;
               n = length (tm_h t);
               t = place t n v;
               t = sift_up t n
           in (tn_id v, t, al))) = (tid, t', al')"
  shows "timers_ok t' \<and> (tid = DYN_TIMER_NONE \<longrightarrow> tm_h t' = tm_h t \<and> tm_seq t' = tm_seq t) \<and>
    (tid \<noteq> DYN_TIMER_NONE \<longrightarrow> tm_seq t' = tm_seq t + 1 \<and> tid \<notin> tn_id ` set (tm_h t) \<and>
       mset (tm_h t') = add_mset (timer_of now d (tm_seq t) cb arg tid) (mset (tm_h t))) \<and>
    ((\<forall>b \<in> set al. b) \<and> length (tm_h t) < DYN_TIMER_MAX_SLOTS \<longrightarrow> tid \<noteq> DYN_TIMER_NONE)"
proof -
  obtain x t1 al1 where a: "slot_alloc al t = (x, t1, al1)" by (metis prod_cases3)
  note s = slot_alloc_ok [OF ok a]
  show ?thesis
  proof (cases "x = NO_POS")
    case True
    then show ?thesis using eq s by (auto simp: a)
  next
    case False
    then have seq: "tm_seq t1 = tm_seq t" using s(1) by (simp add: slot_ready_def)
    define v where "v = timer_of now d (tm_seq t) cb arg (ID_MAKE x (ts_gen (tm_slots t1 ! x)))"
    have tid: "tid = tn_id v" "t' = sift_up (place (t1\<lparr>tm_seq := tm_seq t1 + 1\<rparr>) (length (tm_h t1)) v) (length (tm_h t1))"
      using eq False by (auto simp: a Let_def timer_of_eq seq v_def)
    have "v = timer_of now d (tm_seq t) cb arg (tn_id v)" by (simp add: v_def timer_of_def)
    then show ?thesis using add_with_room [OF ok cap a False v_def] by (simp add: tid)
  qed
qed

lemma dyn_timer_add_ok:
  assumes ok: "timers_ok t" and eq: "dyn_timer_add al t now d cb arg = (tid, t', al')"
  shows "timers_ok t' \<and> (tid = DYN_TIMER_NONE \<longrightarrow> tm_h t' = tm_h t \<and> tm_seq t' = tm_seq t) \<and>
    (tid \<noteq> DYN_TIMER_NONE \<longrightarrow> tm_seq t' = tm_seq t + 1 \<and> tid \<notin> tn_id ` set (tm_h t) \<and>
       mset (tm_h t') = add_mset (timer_of now d (tm_seq t) cb arg tid) (mset (tm_h t))) \<and>
    (cb \<noteq> 0 \<and> (\<forall>b \<in> set al. b) \<and> length (tm_h t) < DYN_TIMER_MAX_SLOTS \<longrightarrow> tid \<noteq> DYN_TIMER_NONE)"
proof (cases "cb = 0")
  case True
  then show ?thesis using eq ok by (simp add: dyn_timer_add_def)
next
  case cb: False
  show ?thesis
  proof (cases "length (tm_h t) = tm_cap t")
    case False
    then have "length (tm_h t) < tm_cap t" using ok by (simp add: timers_ok_def)
    then show ?thesis using add_room_cases [OF ok, of al now d cb arg tid t' al'] eq cb False by (auto simp: dyn_timer_add_def)
  next
    case full: True
    obtain b al1 where na: "next_alloc al = (b, al1)" by fastforce
    define c where "c = (if tm_cap t \<noteq> 0 then tm_cap t * 2 else 16)"
    have g: "grow_heap al t = (if b then Some (t\<lparr>tm_cap := c\<rparr>) else None, al1)" by (simp add: grow_heap_def na c_def Let_def)
    show ?thesis
    proof (cases b)
      case False
      then show ?thesis using eq ok cb full g next_alloc_False [of al] na by (auto simp: dyn_timer_add_def)
    next
      case True
      have "length (tm_h t) < c" by (auto simp: c_def full)
      then have ok': "timers_ok (t\<lparr>tm_cap := c\<rparr>)" "length (tm_h (t\<lparr>tm_cap := c\<rparr>)) < tm_cap (t\<lparr>tm_cap := c\<rparr>)"
        using grow_heap_ok [OF ok, of c] by simp_all
      have "\<forall>b \<in> set al1. b" if "\<forall>b \<in> set al. b" using next_alloc_all_True [OF that] na by auto
      then show ?thesis
        using add_room_cases [OF ok', of al1 now d cb arg tid t' al'] eq cb full g True by (auto simp: dyn_timer_add_def)
    qed
  qed
qed

subsection \<open>Cancelling\<close>

lemma dyn_timer_cancel_ok:
  assumes ok: "timers_ok t" and eq: "dyn_timer_cancel t tid = (r, t')"
  shows "timers_ok t' \<and> (r \<longleftrightarrow> tid \<in> tn_id ` set (tm_h t)) \<and> (\<not> r \<longrightarrow> t' = t) \<and>
    (r \<longrightarrow> mset (tm_h t') = filter_mset (\<lambda>n. tn_id n \<noteq> tid) (mset (tm_h t)))"
proof -
  let ?h = "tm_h t" and ?s = "tm_slots t" and ?x = "ID_INDEX tid"
  have l: "links ?h ?s" "table_ok ?h ?s (tm_free_head t) {}" "length ?s \<le> DYN_TIMER_MAX_SLOTS"
    using ok by (simp_all add: timers_ok_def)
  have len: "length ?h < NO_POS" using links_length [OF l(1)] max_slots_less [OF l(3)] by simp
  define live where "live \<longleftrightarrow> ?x < length ?s \<and> ts_pos (?s ! ?x) \<noteq> NO_POS \<and> ts_gen (?s ! ?x) = ID_GEN tid"
  have r: "r = (tid \<noteq> DYN_TIMER_NONE \<and> live)" "t' = (if r then heap_remove_at t (ts_pos (?s ! ?x)) else t)"
    using eq by (auto simp: dyn_timer_cancel_def live_def Let_def not_le split: if_splits)
  show ?thesis
  proof (cases r)
    case True
    then have live: "?x < length ?s" "ts_pos (?s ! ?x) \<noteq> NO_POS" "ts_gen (?s ! ?x) = ID_GEN tid" using r by (simp_all add: live_def)
    then have "?x \<in> slot_of ` set ?h" using l(2) unfolding table_ok_def by blast
    then obtain j where j: "j < length ?h" "slot_of (?h ! j) = ?x" by (auto simp: in_set_conv_nth)
    then have n: "ts_pos (?s ! ?x) = j" "tn_id (?h ! j) = tid"
      using l(1) live(3) ID_MAKE_INDEX [of tid] by (auto simp: links_def known_def)
    have ok': "timers_ok t'" and m: "mset (tm_h t') = mset ?h - {#?h ! j#}"
      using heap_remove_at_ok [OF ok j(1)] r True n(1) by simp_all
    have mem: "?h ! j \<in> set ?h" using j(1) by simp
    have out: "slot_of (?h ! j) \<notin> slot_of ` set (tm_h t')" by (rule remove_slots(2) [OF links_distinct [OF l(1)] mem m])
    have "filter_mset (\<lambda>n. tn_id n \<noteq> tid) (mset (tm_h t')) = mset (tm_h t')"
    proof (rule filter_mset_eq_conv [THEN iffD2], intro conjI ballI)
      fix b assume "b \<in># mset (tm_h t')"
      then show "tn_id b \<noteq> tid" using out n(2) by (metis image_eqI set_mset_mset)
    qed simp_all
    moreover have "mset ?h = add_mset (?h ! j) (mset (tm_h t'))" using m mem by simp
    ultimately have "mset (tm_h t') = filter_mset (\<lambda>n. tn_id n \<noteq> tid) (mset ?h)" using n(2) by simp
    then show ?thesis using True n(2) mem ok' by (auto simp: image_iff)
  next
    case False
    have "tid \<notin> tn_id ` set ?h"
    proof
      assume "tid \<in> tn_id ` set ?h"
      then obtain j where j: "j < length ?h" "tn_id (?h ! j) = tid" by (auto simp: in_set_conv_nth)
      then have k: "?x < length ?s" "tid = ID_MAKE ?x (ts_gen (?s ! ?x))" "ts_pos (?s ! ?x) = j"
        using l(1) by (auto simp: links_def known_def)
      have x: "?x < 2 ^ 32 - 1" using k(1) max_slots_less [of ?x] l(3) by simp
      have "tid \<noteq> DYN_TIMER_NONE" using ID_MAKE_not_NONE [OF x] k(2) by metis
      moreover have "ts_gen (?s ! ?x) = ID_GEN tid" using k(2) ID_GEN_MAKE by metis
      ultimately have r using r(1) k(1,3) j(1) len by (simp add: live_def)
      then show False using False by simp
    qed
    then show ?thesis using r False ok by simp
  qed
qed

subsection \<open>What is due\<close>

definition due :: "u64 \<Rightarrow> dyn_timers \<Rightarrow> tnode multiset" where
  "due now t = filter_mset (\<lambda>n. tn_deadline n \<le> now) (mset (tm_h t))"

lemma root_first: "timers_ok t \<Longrightarrow> n \<in> set (tm_h t) \<Longrightarrow> key (tm_h t ! 0) \<le> key n"
  by (metis timers_ok_def heap_root in_set_conv_nth)

lemma root_deadline: "timers_ok t \<Longrightarrow> n \<in> set (tm_h t) \<Longrightarrow> tn_deadline (tm_h t ! 0) \<le> tn_deadline n"
  using root_first [of t n] by (auto simp: key_def less_eq_prod_def)

lemma due_none: "due now t = {#} \<longleftrightarrow> (\<forall>n \<in> set (tm_h t). now < tn_deadline n)"
  unfolding due_def by (subst set_mset_eq_empty_iff [symmetric]) (auto simp: not_le)

lemma due_empty:
  assumes "timers_ok t"
  shows "due now t = {#} \<longleftrightarrow> \<not> (tm_h t \<noteq> [] \<and> tn_deadline (tm_h t ! 0) \<le> now)"
proof (cases "tm_h t = []")
  case False
  then have "(\<forall>n \<in> set (tm_h t). now < tn_deadline n) \<longleftrightarrow> now < tn_deadline (tm_h t ! 0)"
    using root_deadline [OF assms] by (meson le_less_trans less_le_trans nth_mem length_greater_0_conv)
  then show ?thesis using False by (auto simp: due_none)
qed (simp add: due_none)

lemma due_pop:
  assumes "timers_ok t" "tm_h t \<noteq> []" "tn_deadline (tm_h t ! 0) \<le> now"
  shows "due now t = add_mset (tm_h t ! 0) (due now (heap_remove_at t 0))"
    and "mset (tm_h t) = add_mset (tm_h t ! 0) (mset (tm_h (heap_remove_at t 0)))"
proof -
  show m: "mset (tm_h t) = add_mset (tm_h t ! 0) (mset (tm_h (heap_remove_at t 0)))"
    using heap_remove_at_ok [OF assms(1), of 0] assms(2) by simp
  show "due now t = add_mset (tm_h t ! 0) (due now (heap_remove_at t 0))" using m assms(3) by (simp add: due_def)
qed

text \<open>Callbacks that keep the queue in order and make nothing due that was not due before.\<close>

definition quiet :: "u64 \<Rightarrow> (u64 \<Rightarrow> u64 \<Rightarrow> 'w \<times> dyn_timers \<Rightarrow> 'w \<times> dyn_timers) \<Rightarrow> bool" where
  "quiet now call \<longleftrightarrow> (\<forall>cb arg w t. timers_ok t \<longrightarrow>
     timers_ok (snd (call cb arg (w, t))) \<and> due now (snd (call cb arg (w, t))) \<subseteq># due now t)"

lemma run_unfold:
  "dyn_timer_run call now k (w, t) =
    (if tm_h t \<noteq> [] \<and> tn_deadline (tm_h t ! 0) \<le> now
     then dyn_timer_run call now (k + 1) (call (tn_cb (tm_h t ! 0)) (tn_arg (tm_h t ! 0)) (w, heap_remove_at t 0))
     else Some (k, w, t))"
  by (subst dyn_timer_run.simps) (simp add: Let_def)

lemma run_ends:
  assumes "quiet now call" "timers_ok t"
  shows "\<exists>j w' t'. dyn_timer_run call now k (w, t) = Some (j, w', t') \<and> timers_ok t' \<and> due now t' = {#} \<and> j \<le> k + size (due now t)"
  using assms(2)
proof (induction "size (due now t)" arbitrary: k w t rule: less_induct)
  case less
  show ?case
  proof (cases "tm_h t \<noteq> [] \<and> tn_deadline (tm_h t ! 0) \<le> now")
    case True
    let ?t = "heap_remove_at t 0"
    obtain w1 t1 where c: "call (tn_cb (tm_h t ! 0)) (tn_arg (tm_h t ! 0)) (w, ?t) = (w1, t1)" by fastforce
    have "timers_ok ?t" using heap_remove_at_ok [OF less.prems, of 0] True by simp
    then have t1: "timers_ok t1" "due now t1 \<subseteq># due now ?t" using assms(1) c unfolding quiet_def by (metis snd_conv)+
    have s: "size (due now t) = Suc (size (due now ?t))" using due_pop(1) [OF less.prems] True by simp
    then have "size (due now t1) < size (due now t)" using size_mset_mono [OF t1(2)] by simp
    from less.hyps [OF this t1(1), of "k + 1" w1] show ?thesis
      using run_unfold [of call now k w t] True c s size_mset_mono [OF t1(2)] by fastforce
  next
    case False
    then show ?thesis using run_unfold [of call now k w t] less.prems due_empty [OF less.prems, of now] by auto
  qed
qed

text \<open>A callback that records its call and leaves the timers alone, an instance of this contract.\<close>

definition record_call :: "u64 \<Rightarrow> u64 \<Rightarrow> (u64 \<times> u64) list \<times> dyn_timers \<Rightarrow> (u64 \<times> u64) list \<times> dyn_timers" where
  "record_call cb arg = (\<lambda>(w, t). (w @ [(cb, arg)], t))"

lemma quiet_record: "quiet now record_call"
  by (simp add: quiet_def record_call_def)

lemma next_timeout_eq:
  assumes "timers_ok t" "n \<in> set (tm_h t)" "\<forall>m \<in> set (tm_h t). tn_deadline n \<le> tn_deadline m"
  shows "dyn_timer_next_timeout t now = int (min 2147483647 (unat (tn_deadline n) - unat now))"
proof -
  have ne: "tm_h t \<noteq> []" using assms(2) by auto
  have d: "tn_deadline (tm_h t ! 0) = tn_deadline n" using root_deadline [OF assms(1,2)] assms(3) ne by (simp add: order_antisym)
  have "unat (tn_deadline n - now) = unat (tn_deadline n) - unat now" if "now < tn_deadline n"
    using that by (intro unat_sub) simp
  then show ?thesis using ne d
    by (auto simp: dyn_timer_next_timeout_def Let_def word_less_nat_alt word_le_nat_alt min_def)
qed

lemma next_timeout_zero: "timers_ok t \<Longrightarrow> dyn_timer_next_timeout t now = 0 \<longleftrightarrow> due now t \<noteq> {#}"
  using due_empty [of t now]
  by (auto simp: dyn_timer_next_timeout_def Let_def word_less_nat_alt word_le_nat_alt unat_eq_0 unsigned_eq_0_iff)

subsection \<open>Properties\<close>

text \<open>An empty queue and a queue with one pending timer, in use by slot 0.\<close>

definition no_timer :: dyn_timers where
  "no_timer = \<lparr>tm_h = [], tm_cap = 0, tm_slots = [], tm_slot_cap = 0, tm_free_head = NO_POS, tm_seq = 0\<rparr>"

definition one_timer :: dyn_timers where
  "one_timer = \<lparr>tm_h = [\<lparr>tn_deadline = 10, tn_seq = 0, tn_cb = 1, tn_arg = 2, tn_id = ID_MAKE 0 0\<rparr>], tm_cap = 16,
     tm_slots = [\<lparr>ts_pos = 0, ts_gen = 0, ts_next_free = 0\<rparr>], tm_slot_cap = 16, tm_free_head = NO_POS, tm_seq = 1\<rparr>"

lemma no_timer_ok: "timers_ok no_timer"
  by (auto simp: timers_ok_def no_timer_def heap_def links_def table_ok_def intro!: exI [of _ "[]"])

lemma dyn_timers_new_ok: "dyn_timers_new al = (Some t, al') \<Longrightarrow> timers_ok t"
  using no_timer_ok by (auto simp: dyn_timers_new_def no_timer_def split: prod.splits if_splits)

lemma one_timer_ok: "timers_ok one_timer"
  by (auto simp: timers_ok_def one_timer_def heap_def links_def known_def table_ok_def DYN_TIMER_MAX_SLOTS_def NO_POS_def
      intro!: exI [of _ "[]"])

text \<open>C6. Adding a timer keeps the queue well-formed and adds exactly one pending timer, due at \<open>now + delay_ms\<close>
  or at the largest time when that overflows, under an identifier that no pending timer has; or it returns
  \<open>DYN_TIMER_NONE\<close> and the pending timers are as before. It succeeds whenever memory is available and fewer
  than \<open>DYN_TIMER_MAX_SLOTS\<close> timers are pending.\<close>

theorem dyn_timer_add_refines:
  assumes "timers_ok t" "dyn_timer_add al t now delay_ms cb arg = (tid, t', al')"
  shows "timers_ok t' \<and> (tid = DYN_TIMER_NONE \<longrightarrow> tm_h t' = tm_h t) \<and>
    (tid \<noteq> DYN_TIMER_NONE \<longrightarrow> tid \<notin> tn_id ` set (tm_h t) \<and>
       mset (tm_h t') = add_mset (timer_of now delay_ms (tm_seq t) cb arg tid) (mset (tm_h t))) \<and>
    (cb \<noteq> 0 \<and> (\<forall>b \<in> set al. b) \<and> length (tm_h t) < DYN_TIMER_MAX_SLOTS \<longrightarrow> tid \<noteq> DYN_TIMER_NONE)"
  using dyn_timer_add_ok [OF assms] by blast

theorem dyn_timer_add_refines_witness:
  "timers_ok one_timer \<and>
   (\<exists>tid t' al'. dyn_timer_add [] one_timer 5 3 7 8 = (tid, t', al') \<and> tid \<noteq> DYN_TIMER_NONE \<and> timers_ok t' \<and>
      mset (tm_h t') = add_mset (timer_of 5 3 1 7 8 tid) (mset (tm_h one_timer)))"
proof -
  obtain tid t' al' where a: "dyn_timer_add [] one_timer 5 3 7 8 = (tid, t', al')" by (metis prod_cases3)
  have "length (tm_h one_timer) < DYN_TIMER_MAX_SLOTS" "tm_seq one_timer = 1" by (simp_all add: one_timer_def DYN_TIMER_MAX_SLOTS_def)
  then show ?thesis using dyn_timer_add_refines [OF one_timer_ok a] a one_timer_ok by auto
qed

text \<open>C7. Cancelling succeeds exactly for the identifiers of pending timers, removes that timer and no other, and
  otherwise changes nothing: an identifier of an earlier generation does not cancel the timer that now uses
  its slot.\<close>

theorem dyn_timer_cancel_refines:
  assumes "timers_ok t" "dyn_timer_cancel t tid = (r, t')"
  shows "timers_ok t' \<and> (r \<longleftrightarrow> tid \<in> tn_id ` set (tm_h t)) \<and> (\<not> r \<longrightarrow> t' = t) \<and>
    (r \<longrightarrow> mset (tm_h t') = filter_mset (\<lambda>n. tn_id n \<noteq> tid) (mset (tm_h t)))"
  by (rule dyn_timer_cancel_ok [OF assms])

theorem dyn_timer_cancel_refines_witness:
  "timers_ok one_timer \<and>
   (\<exists>t'. dyn_timer_cancel one_timer (ID_MAKE 0 0) = (True, t') \<and> tm_h t' = []) \<and>
   (\<exists>t'. dyn_timer_cancel one_timer (ID_MAKE 0 1) = (False, t') \<and> t' = one_timer)"
proof -
  obtain r t' where a: "dyn_timer_cancel one_timer (ID_MAKE 0 0) = (r, t')" by fastforce
  obtain q u where b: "dyn_timer_cancel one_timer (ID_MAKE 0 1) = (q, u)" by fastforce
  have h: "tn_id ` set (tm_h one_timer) = {ID_MAKE 0 0}" "mset (tm_h one_timer) = {#tm_h one_timer ! 0#}"
    "tn_id (tm_h one_timer ! 0) = ID_MAKE 0 0" by (simp_all add: one_timer_def)
  have "ID_MAKE 0 0 \<noteq> ID_MAKE 0 1" using ID_GEN_MAKE [of 0 0] ID_GEN_MAKE [of 0 1] by (metis zero_neq_one)
  then show ?thesis
    using dyn_timer_cancel_refines [OF one_timer_ok a] dyn_timer_cancel_refines [OF one_timer_ok b] a b one_timer_ok h by auto
qed

text \<open>C5. Running the timers always ends when the callbacks keep the queue well-formed and make nothing new due at
  \<open>now\<close>, whatever else they add or cancel. Then nothing due is left, the next timeout is not zero, and no
  more callbacks ran than timers were due.\<close>

theorem dyn_timer_run_progress:
  assumes "timers_ok t" "quiet now call"
  shows "\<exists>k w' t'. dyn_timer_run call now 0 (w, t) = Some (k, w', t') \<and> timers_ok t' \<and> due now t' = {#} \<and>
    k \<le> size (due now t) \<and> dyn_timer_next_timeout t' now \<noteq> 0"
  using run_ends [OF assms(2,1), of 0 w] next_timeout_zero by fastforce

theorem dyn_timer_run_progress_witness:
  "timers_ok one_timer \<and> quiet 20 record_call \<and>
   (\<exists>k w' t'. dyn_timer_run record_call 20 0 ([], one_timer) = Some (k, w', t') \<and> due 20 t' = {#})"
  using dyn_timer_run_progress [OF one_timer_ok quiet_record, of 20 "[]"] one_timer_ok quiet_record by blast

end
