(* ===== verification/TimerOrder.thy ===== *)
theory TimerOrder
  imports TimerProps
begin

text \<open>
  The order in which \<open>dyn_timer_run\<close> calls back, for callbacks that may themselves add and cancel timers. The
  queue stands for the list of pending timers in the order in which they were added: adding appends to that
  list, cancelling removes from it, and every round of \<open>dyn_timer_run\<close> calls the first timer of the list among
  those with the least deadline.
\<close>

subsection \<open>Pending timers by age\<close>

text \<open>The sequence numbers of pending timers are distinct and below the counter.\<close>

definition aged :: "dyn_timers \<Rightarrow> bool" where
  "aged t \<longleftrightarrow> distinct (map tn_seq (tm_h t)) \<and> (\<forall>n \<in> set (tm_h t). tn_seq n < tm_seq t)"

definition pending :: "dyn_timers \<Rightarrow> tnode list" where
  "pending t = sort_key tn_seq (tm_h t)"

lemma mset_pending [simp]: "mset (pending t) = mset (tm_h t)"
  by (simp add: pending_def)

lemma set_pending [simp]: "set (pending t) = set (tm_h t)"
  by (simp add: pending_def)

lemma aged_mset:
  assumes "mset (tm_h t) = mset h"
  shows "aged t \<longleftrightarrow> distinct (map tn_seq h) \<and> (\<forall>n \<in> set h. tn_seq n < tm_seq t)"
proof -
  have "mset (map tn_seq (tm_h t)) = mset (map tn_seq h)" using assms by simp
  then show ?thesis using mset_eq_imp_distinct_iff mset_eq_setD [OF assms] unfolding aged_def by blast
qed

lemma pending_sorted:
  assumes "aged t"
  shows "sorted_wrt (<) (map tn_seq (pending t))"
proof -
  have "mset (map tn_seq (pending t)) = mset (map tn_seq (tm_h t))" by (simp add: pending_def)
  then have "distinct (map tn_seq (pending t))" 
    using assms mset_eq_imp_distinct_iff [of "map tn_seq (pending t)"] unfolding aged_def by blast
  then show ?thesis by (simp add: strict_sorted_iff pending_def)
qed

lemma pending_unique:
  assumes "sorted_wrt (<) (map tn_seq xs)" "mset xs = mset (tm_h t)"
  shows "pending t = xs"
proof -
  have xs: "sorted (map tn_seq xs)" "distinct (map tn_seq xs)" using assms(1) by (simp_all add: strict_sorted_iff)
  have m: "mset (pending t) = mset xs" using assms(2) by simp
  then have s: "set (pending t) = set xs" by (rule mset_eq_setD)
  have "mset (map tn_seq (pending t)) = mset (map tn_seq xs)" using m by simp
  then have d: "distinct (map tn_seq (pending t))" using xs(2) mset_eq_imp_distinct_iff by blast
  have "sorted (map tn_seq (pending t))" by (simp add: pending_def)
  moreover have "inj_on tn_seq (set (pending t) \<union> set xs)" using xs(2) s by (simp add: distinct_map)
  ultimately show ?thesis using map_sorted_distinct_set_unique [of tn_seq "pending t" xs] xs d s by blast
qed

lemma sorted_wrt_sub:
  assumes "aged t" "mset (tm_h t') = filter_mset P (mset (tm_h t))" "tm_seq t' = tm_seq t"
  shows "aged t' \<and> pending t' = filter P (pending t)"
proof -
  have s: "sorted_wrt (<) (map tn_seq (filter P (pending t)))"
    using pending_sorted [OF assms(1)] by (simp add: sorted_wrt_map sorted_wrt_filter)
  have m: "mset (tm_h t') = mset (filter P (pending t))" using assms(2) by (simp add: mset_filter)
  have "distinct (map tn_seq (filter P (pending t)))" using s by (simp add: strict_sorted_iff)
  moreover have "\<forall>n \<in> set (filter P (pending t)). tn_seq n < tm_seq t'" using assms(1,3) by (simp add: aged_def)
  ultimately show ?thesis using pending_unique [OF s m [symmetric]] aged_mset [OF m] by simp
qed

lemma add_pending:
  assumes "timers_ok t" "aged t" "tm_seq t \<noteq> - 1" "dyn_timer_add al t now d cb arg = (tid, t', al')"
  shows "aged t' \<and> pending t' = pending t @ (if tid = DYN_TIMER_NONE then [] else [timer_of now d (tm_seq t) cb arg tid]) \<and>
    unat (tm_seq t') \<le> unat (tm_seq t) + 1"
proof (cases "tid = DYN_TIMER_NONE")
  case True
  then have "tm_h t' = tm_h t" "tm_seq t' = tm_seq t" using dyn_timer_add_ok [OF assms(1,4)] by simp_all
  then show ?thesis using assms(2) True by (simp add: aged_def pending_def)
next
  case False
  let ?v = "timer_of now d (tm_seq t) cb arg tid"
  have t': "mset (tm_h t') = mset (pending t @ [?v])" "tm_seq t' = tm_seq t + 1"
    using dyn_timer_add_ok [OF assms(1,4)] False by simp_all
  have v: "tn_seq ?v = tm_seq t" by (simp add: timer_of_def)
  have n: "unat (tm_seq t') = unat (tm_seq t) + 1"
    using t'(2) assms(3) unatSuc [of "tm_seq t"] by (simp add: add.commute eq_neg_iff_add_eq_0)
  have below: "\<forall>n \<in> set (pending t). tn_seq n < tm_seq t" using assms(2) by (simp add: aged_def)
  have s: "sorted_wrt (<) (map tn_seq (pending t @ [?v]))"
    using pending_sorted [OF assms(2)] below by (simp add: sorted_wrt_append v)
  have "\<forall>n \<in> set (pending t @ [?v]). tn_seq n < tm_seq t'" using below v n by (auto simp: word_less_nat_alt)
  then have "aged t'" using aged_mset [OF t'(1)] s by (simp add: strict_sorted_iff)
  then show ?thesis using pending_unique [OF s t'(1) [symmetric]] False n by simp
qed

lemma cancel_pending:
  assumes "timers_ok t" "aged t" "dyn_timer_cancel t tid = (r, t')"
  shows "aged t' \<and> pending t' = filter (\<lambda>n. tn_id n \<noteq> tid) (pending t) \<and> tm_seq t' = tm_seq t"
proof -
  note ok = dyn_timer_cancel_ok [OF assms(1,3)]
  have m: "mset (tm_h t') = filter_mset (\<lambda>n. tn_id n \<noteq> tid) (mset (tm_h t))"
  proof (cases r)
    case False
    then have "\<forall>n \<in># mset (tm_h t). tn_id n \<noteq> tid" using ok by auto
    then have "filter_mset (\<lambda>n. tn_id n \<noteq> tid) (mset (tm_h t)) = mset (tm_h t)" by (simp add: filter_mset_eq_conv)
    then show ?thesis using ok False by simp
  qed (use ok in simp)
  have "tm_seq t' = tm_seq t"
  proof (cases r)
    case True
    then have "tid \<in> tn_id ` set (tm_h t)" using ok by simp
    then obtain j where j: "j < length (tm_h t)" "tn_id (tm_h t ! j) = tid" by (auto simp: in_set_conv_nth)
    have "links (tm_h t) (tm_slots t)" using assms(1) by (simp add: timers_ok_def)
    then have "ts_pos (tm_slots t ! ID_INDEX tid) = j" using j by (auto simp: links_def)
    then show ?thesis using assms(3) True heap_remove_at_ok [OF assms(1) j(1)]
      by (auto simp: dyn_timer_cancel_def Let_def split: if_splits)
  qed (use ok in simp)
  then show ?thesis using sorted_wrt_sub [OF assms(2) m] by simp
qed

subsection \<open>The timer that is called next\<close>

text \<open>The first timer of the list among those with the least deadline, if that deadline has passed.\<close>

definition next_due :: "u64 \<Rightarrow> tnode list \<Rightarrow> tnode option" where
  "next_due now ns =
     (case filter (\<lambda>n. tn_deadline n \<le> now \<and> (\<forall>m \<in> set ns. tn_deadline n \<le> tn_deadline m)) ns of
        [] \<Rightarrow> None | n # _ \<Rightarrow> Some n)"

lemma sorted_hd:
  assumes "sorted_wrt (<) (map f xs)" "x \<in> set xs" "\<forall>y \<in> set xs. f x \<le> (f y :: 'k :: linorder)"
  shows "\<exists>ys. xs = x # ys"
  using assms by (cases xs) auto

lemma next_due_root:
  assumes "timers_ok t" "aged t"
  shows "next_due now (pending t) =
    (if tm_h t \<noteq> [] \<and> tn_deadline (tm_h t ! 0) \<le> now then Some (tm_h t ! 0) else None)"
proof (cases "tm_h t \<noteq> [] \<and> tn_deadline (tm_h t ! 0) \<le> now")
  case True
  let ?n = "tm_h t ! 0"
  let ?xs = "filter (\<lambda>n. tn_deadline n \<le> now \<and> (\<forall>m \<in> set (pending t). tn_deadline n \<le> tn_deadline m)) (pending t)"
  have n: "?n \<in> set (tm_h t)" using True by simp
  then have "?n \<in> set ?xs" using True root_deadline [OF assms(1)] by simp
  moreover have "tn_seq ?n \<le> tn_seq m" if "m \<in> set ?xs" for m
  proof -
    have m: "m \<in> set (tm_h t)" "tn_deadline m \<le> tn_deadline ?n" using that n by simp_all
    then have "tn_deadline m = tn_deadline ?n" using root_deadline [OF assms(1) m(1)] by (simp add: order_antisym)
    then show ?thesis using root_first [OF assms(1) m(1)] by (simp add: key_def less_eq_prod_def)
  qed
  moreover have "sorted_wrt (<) (map tn_seq ?xs)"
    using pending_sorted [OF assms(2)] by (simp add: sorted_wrt_map sorted_wrt_filter)
  ultimately obtain ys where "?xs = ?n # ys" using sorted_hd [of tn_seq ?xs ?n] by blast
  then show ?thesis using True by (simp add: next_due_def)
next
  case False
  then have "\<forall>n \<in> set (tm_h t). now < tn_deadline n" using due_empty [OF assms(1)] due_none by blast
  then have "filter (\<lambda>n. tn_deadline n \<le> now \<and> (\<forall>m \<in> set (pending t). tn_deadline n \<le> tn_deadline m)) (pending t) = []"
    by (auto simp: filter_empty_conv not_le)
  then show ?thesis using False by (simp add: next_due_def)
qed

lemma pop_pending:
  assumes "timers_ok t" "aged t" "tm_h t \<noteq> []"
  shows "aged (heap_remove_at t 0) \<and> pending (heap_remove_at t 0) = remove1 (tm_h t ! 0) (pending t)"
proof -
  let ?n = "tm_h t ! 0"
  have r: "mset (tm_h (heap_remove_at t 0)) = mset (tm_h t) - {#?n#}" "tm_seq (heap_remove_at t 0) = tm_seq t"
    using heap_remove_at_ok [OF assms(1), of 0] assms(3) by simp_all
  have "distinct (tm_h t)" using assms(2) by (simp add: aged_def distinct_map)
  then have d: "distinct (pending t)" using mset_pending mset_eq_imp_distinct_iff by blast
  then have rm: "remove1 ?n (pending t) = filter (\<lambda>m. m \<noteq> ?n) (pending t)" by (simp add: distinct_remove1_removeAll removeAll_filter_not_eq eq_commute)
  have "mset (tm_h (heap_remove_at t 0)) = mset (remove1 ?n (pending t))" using r(1) by simp
  then have "mset (tm_h (heap_remove_at t 0)) = filter_mset (\<lambda>m. m \<noteq> ?n) (mset (tm_h t))" unfolding rm by (simp add: mset_filter)
  then show ?thesis using sorted_wrt_sub [OF assms(2) _ r(2)] rm by simp
qed

subsection \<open>Rounds of the loop\<close>

text \<open>
  Callbacks that keep the queue well-formed and add at most \<open>M\<close> timers each, as long as the 64-bit counter has
  room for them. Every sequence of calls of \<open>dyn_timer_add\<close> and \<open>dyn_timer_cancel\<close> is one, see below.
\<close>

definition adds_upto :: "nat \<Rightarrow> (u64 \<Rightarrow> u64 \<Rightarrow> 'w \<times> dyn_timers \<Rightarrow> 'w \<times> dyn_timers) \<Rightarrow> bool" where
  "adds_upto M call \<longleftrightarrow> (\<forall>cb arg w t. timers_ok t \<and> aged t \<and> unat (tm_seq t) + M < 2 ^ 64 \<longrightarrow>
     (let t' = snd (call cb arg (w, t)) in timers_ok t' \<and> aged t' \<and> unat (tm_seq t') \<le> unat (tm_seq t) + M))"

text \<open>The specification of \<open>dyn_timer_run\<close>: the timers called, in order, from one state to another.\<close>

inductive fired :: "(u64 \<Rightarrow> u64 \<Rightarrow> 'w \<times> dyn_timers \<Rightarrow> 'w \<times> dyn_timers) \<Rightarrow> u64 \<Rightarrow> 'w \<times> dyn_timers \<Rightarrow> tnode list \<Rightarrow> 'w \<times> dyn_timers \<Rightarrow> bool"
  for call now where
  idle: "next_due now (pending t) = None \<Longrightarrow> fired call now (w, t) [] (w, t)"
| fire: "\<lbrakk>next_due now (pending t) = Some n; t1 = heap_remove_at t 0; pending t1 = remove1 n (pending t);
     fired call now (call (tn_cb n) (tn_arg n) (w, t1)) ns s'\<rbrakk> \<Longrightarrow> fired call now (w, t) (n # ns) s'"

lemma adds_uptoD:
  assumes "adds_upto M call" "timers_ok t" "aged t" "unat (tm_seq t) + M < 2 ^ 64" "call cb arg (w, t) = (w', t')"
  shows "timers_ok t'" "aged t'" "unat (tm_seq t') \<le> unat (tm_seq t) + M"
  using assms unfolding adds_upto_def Let_def by (metis snd_conv)+

lemma round_ok:
  assumes "adds_upto M call" "timers_ok t" "aged t" "tm_h t \<noteq> []" "unat (tm_seq t) + Suc j * M < 2 ^ 64"
    and "call cb arg (w, heap_remove_at t 0) = (w', t')"
  shows "timers_ok t'" "aged t'" "unat (tm_seq t') + j * M < 2 ^ 64"
proof -
  have t1: "timers_ok (heap_remove_at t 0)" "tm_seq (heap_remove_at t 0) = tm_seq t"
    using heap_remove_at_ok [OF assms(2), of 0] assms(4) by simp_all
  have a1: "aged (heap_remove_at t 0)" using pop_pending [OF assms(2-4)] by simp
  have "unat (tm_seq (heap_remove_at t 0)) + M < 2 ^ 64" using t1(2) assms(5) by simp
  note c = adds_uptoD [OF assms(1) t1(1) a1 this assms(6)]
  then show "timers_ok t'" "aged t'" "unat (tm_seq t') + j * M < 2 ^ 64" using assms(5) t1(2) by simp_all
qed

lemma run_fired:
  assumes "dyn_timer_run call now k s = Some r"
  shows "k \<le> fst r \<and> (adds_upto M call \<and> timers_ok (snd s) \<and> aged (snd s) \<and>
      unat (tm_seq (snd s)) + (fst r - k) * M < 2 ^ 64 \<longrightarrow>
    (\<exists>ns. length ns = fst r - k \<and> fired call now s ns (snd r)))"
proof (induction rule: dyn_timer_run.raw_induct [OF _ assms])
  case (1 run call now k s r)
  obtain w t where s: "s = (w, t)" by fastforce
  show ?case
  proof (cases "tm_h t \<noteq> [] \<and> tn_deadline (tm_h t ! 0) \<le> now")
    case False
    then have "r = (k, s)" using 1(2) s by (auto split: if_splits)
    then show ?thesis using False s next_due_root [of t now] by (auto intro!: exI [of _ "[]"] fired.idle)
  next
    case True
    let ?n = "tm_h t ! 0"
    obtain w2 t2 where c: "call (tn_cb ?n) (tn_arg ?n) (w, heap_remove_at t 0) = (w2, t2)" by fastforce
    have "run call now (k + 1) (w2, t2) = Some r" using 1(2) s True c by (simp add: Let_def)
    note IH = 1(1) [OF this]
    have k: "k < fst r" using IH by simp
    then have e: "fst r - k = Suc (fst r - (k + 1))" by simp
    have "\<exists>ns. length ns = fst r - k \<and> fired call now s ns (snd r)"
      if a: "adds_upto M call" "timers_ok t" "aged t" "unat (tm_seq t) + (fst r - k) * M < 2 ^ 64"
    proof -
      have "timers_ok t2 \<and> aged t2 \<and> unat (tm_seq t2) + (fst r - (k + 1)) * M < 2 ^ 64"
        using round_ok [OF a(1-3) _ a(4) [unfolded e] c] True by blast
      then obtain ns where ns: "length ns = fst r - (k + 1)" "fired call now (w2, t2) ns (snd r)" using IH a(1) by auto
      have "fired call now (w, t) (?n # ns) (snd r)"
        using next_due_root [OF a(2,3), of now] pop_pending [OF a(2,3)] True c ns(2)
        by (intro fired.fire [OF _ refl]) auto
      then show ?thesis using ns(1) e s by (intro exI [of _ "?n # ns"]) simp
    qed
    then show ?thesis using k s by auto
  qed
qed

lemma fired_run:
  assumes "fired call now s ns s'" "adds_upto M call" "timers_ok (snd s)" "aged (snd s)"
    "unat (tm_seq (snd s)) + length ns * M < 2 ^ 64"
  shows "dyn_timer_run call now k s = Some (k + length ns, s')"
  using assms
proof (induction arbitrary: k rule: fired.induct)
  case (idle t w)
  then show ?case using next_due_root [of t now] run_unfold [of call now k w t] by (auto split: if_splits)
next
  case (fire t n t1 w ns s')
  then have n: "tm_h t \<noteq> []" "tn_deadline (tm_h t ! 0) \<le> now" "n = tm_h t ! 0"
    using next_due_root [of t now] by (auto split: if_splits)
  obtain w2 t2 where c: "call (tn_cb n) (tn_arg n) (w, t1) = (w2, t2)" by fastforce
  have "timers_ok t2" "aged t2" "unat (tm_seq t2) + length ns * M < 2 ^ 64"
    using round_ok [OF fire.prems(1), of t "length ns" "tn_cb n" "tn_arg n" w w2 t2] fire.prems fire.hyps(2) n(1) c by simp_all
  then have "dyn_timer_run call now (k + 1) (w2, t2) = Some (k + 1 + length ns, s')"
    using fire.IH [of "k + 1"] fire.prems(1) c by simp
  then show ?case using run_unfold [of call now k w t] n c fire.hyps(2) by simp
qed

subsection \<open>Callbacks made of calls to the queue\<close>

datatype timer_op = TAdd u64 u64 u64 u64 | TCancel dyn_timer_id

fun do_ops :: "allocs \<Rightarrow> timer_op list \<Rightarrow> dyn_timers \<Rightarrow> dyn_timers" where
  "do_ops al [] t = t"
| "do_ops al (TAdd now d cb arg # ops) t = (case dyn_timer_add al t now d cb arg of (_, t, al) \<Rightarrow> do_ops al ops t)"
| "do_ops al (TCancel tid # ops) t = do_ops al ops (snd (dyn_timer_cancel t tid))"

lemma do_ops_ok:
  assumes "timers_ok t" "aged t" "unat (tm_seq t) + length ops < 2 ^ 64"
  shows "timers_ok (do_ops al ops t) \<and> aged (do_ops al ops t) \<and> unat (tm_seq (do_ops al ops t)) \<le> unat (tm_seq t) + length ops"
  using assms
proof (induction al ops t rule: do_ops.induct)
  case (2 al now d cb arg ops t)
  obtain tid t' al' where a: "dyn_timer_add al t now d cb arg = (tid, t', al')" by (metis prod_cases3)
  have "tm_seq t \<noteq> - 1" using 2(4) by (auto simp: unsigned_minus_1_eq_mask mask_eq_exp_minus_1)
  note p = add_pending [OF 2(2,3) this a]
  have "timers_ok t'" using dyn_timer_add_ok [OF 2(2) a] by simp
  then have "timers_ok (do_ops al' ops t') \<and> aged (do_ops al' ops t') \<and> unat (tm_seq (do_ops al' ops t')) \<le> unat (tm_seq t') + length ops"
    using 2(1) [OF a [symmetric] refl] p 2(4) by simp
  then show ?case using p a by simp
next
  case (3 al tid ops t)
  obtain r t' where c: "dyn_timer_cancel t tid = (r, t')" by fastforce
  then show ?case using 3 cancel_pending [OF 3(2,3) c] dyn_timer_cancel_ok [OF 3(2) c] by simp
qed simp

lemma adds_upto_ops:
  assumes "\<And>cb arg w. length (ops cb arg w) \<le> M"
  shows "adds_upto M (\<lambda>cb arg (w, t). (f cb arg w, do_ops (al cb arg w) (ops cb arg w) t))"
  unfolding adds_upto_def Let_def prod.case snd_conv
proof (intro allI impI)
  fix cb arg w t
  assume "timers_ok t \<and> aged t \<and> unat (tm_seq t) + M < 2 ^ 64"
  then show "timers_ok (do_ops (al cb arg w) (ops cb arg w) t) \<and> aged (do_ops (al cb arg w) (ops cb arg w) t) \<and>
      unat (tm_seq (do_ops (al cb arg w) (ops cb arg w) t)) \<le> unat (tm_seq t) + M"
    using do_ops_ok [of t "ops cb arg w" "al cb arg w"] assms [of cb arg w] by fastforce
qed

text \<open>A callback that records its argument and starts its timer again, 10 ms after time 20.\<close>

definition again :: "u64 \<Rightarrow> u64 \<Rightarrow> u64 list \<times> dyn_timers \<Rightarrow> u64 list \<times> dyn_timers" where
  "again cb arg = (\<lambda>(w, t). (w @ [arg], do_ops [] [TAdd 20 10 cb arg] t))"

lemma again_adds: "adds_upto 1 again"
  using adds_upto_ops [of "\<lambda>cb arg w. [TAdd 20 10 cb arg]" 1 "\<lambda>cb arg w. w @ [arg]" "\<lambda>cb arg w. []"]
  by (simp add: again_def [abs_def])

lemma again_quiet: "quiet 20 again"
  unfolding quiet_def
proof (intro allI impI)
  fix cb arg w t
  assume ok: "timers_ok t"
  obtain tid t' al' where a: "dyn_timer_add [] t 20 10 cb arg = (tid, t', al')" by (metis prod_cases3)
  have "due 20 t' = due 20 t" using dyn_timer_add_ok [OF ok a] by (cases "tid = DYN_TIMER_NONE") (simp_all add: due_def timer_of_def)
  then show "timers_ok (snd (again cb arg (w, t))) \<and> due 20 (snd (again cb arg (w, t))) \<subseteq># due 20 t"
    using dyn_timer_add_ok [OF ok a] a by (simp add: again_def)
qed

subsection \<open>Property\<close>

text \<open>C31. The queue behaves as the list of pending timers in the order in which they were added. A new queue is
  the empty list, adding appends to the list and cancelling removes from it. \<open>dyn_timer_run\<close> returns after \<open>k\<close>
  callbacks if and only if \<open>k\<close> rounds of the following kind lead to a state with nothing due: the first timer
  of the list among those with the least deadline is taken off the list and called. So timers run by deadline
  and, among equal deadlines, oldest first. The callbacks may add and cancel timers; each adds at most \<open>M\<close>,
  and the 64-bit counter of additions does not run out.\<close>

theorem dyn_timer_run_order:
  assumes "timers_ok t" "aged t"
  shows "(dyn_timers_new al = (Some t0, al0) \<longrightarrow> timers_ok t0 \<and> aged t0 \<and> pending t0 = []) \<and>
    (dyn_timer_add al t now d cb arg = (tid, t1, al1) \<and> tm_seq t \<noteq> - 1 \<longrightarrow> aged t1 \<and>
       pending t1 = pending t @ (if tid = DYN_TIMER_NONE then [] else [timer_of now d (tm_seq t) cb arg tid])) \<and>
    (dyn_timer_cancel t tid = (r, t2) \<longrightarrow> aged t2 \<and> pending t2 = filter (\<lambda>n. tn_id n \<noteq> tid) (pending t)) \<and>
    (adds_upto M call \<and> unat (tm_seq t) + k * M < 2 ^ 64 \<longrightarrow>
       (dyn_timer_run call now 0 (w, t) = Some (k, s') \<longleftrightarrow> (\<exists>ns. length ns = k \<and> fired call now (w, t) ns s')))"
proof (intro conjI impI)
  assume "dyn_timers_new al = (Some t0, al0)"
  then show "timers_ok t0" "aged t0" "pending t0 = []"
    using dyn_timers_new_ok by (auto simp: dyn_timers_new_def aged_def pending_def split: prod.splits if_splits)
next
  assume "dyn_timer_add al t now d cb arg = (tid, t1, al1) \<and> tm_seq t \<noteq> - 1"
  then show "aged t1" "pending t1 = pending t @ (if tid = DYN_TIMER_NONE then [] else [timer_of now d (tm_seq t) cb arg tid])"
    using add_pending [OF assms] by blast+
next
  assume "dyn_timer_cancel t tid = (r, t2)"
  then show "aged t2" "pending t2 = filter (\<lambda>n. tn_id n \<noteq> tid) (pending t)" using cancel_pending [OF assms] by blast+
next
  assume c: "adds_upto M call \<and> unat (tm_seq t) + k * M < 2 ^ 64"
  show "dyn_timer_run call now 0 (w, t) = Some (k, s') \<longleftrightarrow> (\<exists>ns. length ns = k \<and> fired call now (w, t) ns s')"
    using run_fired [of call now 0 "(w, t)" "(k, s')" M] fired_run [of call now "(w, t)" _ s' M 0] c assms by auto
qed

theorem dyn_timer_run_order_witness:
  "timers_ok one_timer \<and> aged one_timer \<and> adds_upto 1 again \<and>
   (\<exists>k s'. dyn_timer_run again 20 0 ([], one_timer) = Some (k, s') \<and>
      (\<exists>ns. length ns = k \<and> fired again 20 ([], one_timer) ns s'))"
proof -
  have aged: "aged one_timer" "tm_seq one_timer = 1" "size (due 20 one_timer) \<le> 1"
    by (simp_all add: aged_def one_timer_def due_def)
  obtain k s' where r: "dyn_timer_run again 20 0 ([], one_timer) = Some (k, s')" "k \<le> 1"
    using run_ends [OF again_quiet one_timer_ok, of 0 "[]"] aged(3) by fastforce
  have "unat (tm_seq one_timer) + k * 1 < 2 ^ 64" using r(2) aged(2) by simp
  then have "\<exists>ns. length ns = k \<and> fired again 20 ([], one_timer) ns s'"
    using dyn_timer_run_order [OF one_timer_ok aged(1), of _ _ _ 20 _ _ _ _ _ _ _ _ 1 again k "[]" s'] again_adds r(1) by blast
  then show ?thesis using r(1) aged(1) one_timer_ok again_adds by blast
qed

end
