(* ===== verification/Serial.thy ===== *)
theory Serial
  imports CrcCorrect Codec
begin

text \<open>
  The record format of \<open>src/core/dyn-serial.c\<close>: a writer that appends little-endian integers, variable-length
  integers and blobs to a growing buffer, a frame with magic, version, type, flags, payload length and a
  CRC-32C trailer, and a reader over the payload with a sticky error flag. Signed integers and doubles are
  written as their 64-bit patterns. Buffer sizes are natural numbers: no buffer comes near \<open>SIZE_MAX\<close>.
\<close>

subsection \<open>Writer\<close>

record dyn_ser =
  sw_buf :: bytes
  sw_cap :: nat
  sw_err :: bool

definition dyn_ser_init :: dyn_ser where
  "dyn_ser_init = \<lparr>sw_buf = [], sw_cap = 0, sw_err = False\<rparr>"

definition dyn_ser_take :: "dyn_ser \<Rightarrow> bytes \<times> dyn_ser" where
  "dyn_ser_take w = (sw_buf w, w\<lparr>sw_buf := [], sw_cap := 0\<rparr>)"

text \<open>The doubling loop; \<open>nc\<close> is positive at the call, and the test of it only serves the recursion.\<close>

function ser_grow_loop :: "nat \<Rightarrow> nat \<Rightarrow> nat option" where
  "ser_grow_loop nc sz =
     (if nc < sz then
        (if nc > 2 ^ 40 then None else if nc = 0 then None else ser_grow_loop (nc * 2) sz)
      else Some nc)"
  by pat_completeness auto

termination
  by (relation "measure (\<lambda>(nc, sz). sz - nc)") auto

declare ser_grow_loop.simps [simp del]

definition ser_grow :: "allocs \<Rightarrow> dyn_ser \<Rightarrow> nat \<Rightarrow> bool \<times> dyn_ser \<times> allocs" where
  "ser_grow al w need =
     (if sw_err w then (False, w, al)
      else if length (sw_buf w) + need \<le> sw_cap w then (True, w, al)
      else
        (case ser_grow_loop (if sw_cap w \<noteq> 0 then sw_cap w else 256) (length (sw_buf w) + need) of
           None \<Rightarrow> (False, w\<lparr>sw_err := True\<rparr>, al)
         | Some nc \<Rightarrow>
             (case next_alloc al of (ok, al) \<Rightarrow>
                if \<not> ok then (False, w\<lparr>sw_err := True\<rparr>, al) else (True, w\<lparr>sw_cap := nc\<rparr>, al))))"

definition dyn_ser_raw :: "allocs \<Rightarrow> dyn_ser \<Rightarrow> bytes \<Rightarrow> bool \<times> dyn_ser \<times> allocs" where
  "dyn_ser_raw al w p =
     (let (ok, w, al) = ser_grow al w (length p) in
      if \<not> ok then (False, w, al) else (True, w\<lparr>sw_buf := sw_buf w @ p\<rparr>, al))"

definition ser_le_bytes :: "u64 \<Rightarrow> nat \<Rightarrow> bytes" where
  "ser_le_bytes v nbytes = map (\<lambda>i. ucast (drop_bit (i * 8) v)) [0..<nbytes]"

definition ser_le :: "allocs \<Rightarrow> dyn_ser \<Rightarrow> u64 \<Rightarrow> nat \<Rightarrow> bool \<times> dyn_ser \<times> allocs" where
  "ser_le al w v nbytes = dyn_ser_raw al w (ser_le_bytes v nbytes)"

definition dyn_ser_u8 :: "allocs \<Rightarrow> dyn_ser \<Rightarrow> byte \<Rightarrow> bool \<times> dyn_ser \<times> allocs" where
  "dyn_ser_u8 al w v = ser_le al w (ucast v) 1"

definition dyn_ser_u16 :: "allocs \<Rightarrow> dyn_ser \<Rightarrow> 16 word \<Rightarrow> bool \<times> dyn_ser \<times> allocs" where
  "dyn_ser_u16 al w v = ser_le al w (ucast v) 2"

definition dyn_ser_u32 :: "allocs \<Rightarrow> dyn_ser \<Rightarrow> u32 \<Rightarrow> bool \<times> dyn_ser \<times> allocs" where
  "dyn_ser_u32 al w v = ser_le al w (ucast v) 4"

definition dyn_ser_u64 :: "allocs \<Rightarrow> dyn_ser \<Rightarrow> u64 \<Rightarrow> bool \<times> dyn_ser \<times> allocs" where
  "dyn_ser_u64 al w v = ser_le al w v 8"

definition dyn_ser_i64 :: "allocs \<Rightarrow> dyn_ser \<Rightarrow> u64 \<Rightarrow> bool \<times> dyn_ser \<times> allocs" where
  "dyn_ser_i64 al w v = ser_le al w v 8"

definition dyn_ser_f64 :: "allocs \<Rightarrow> dyn_ser \<Rightarrow> u64 \<Rightarrow> bool \<times> dyn_ser \<times> allocs" where
  "dyn_ser_f64 al w bits = ser_le al w bits 8"

definition dyn_ser_blob :: "allocs \<Rightarrow> dyn_ser \<Rightarrow> bytes \<Rightarrow> bool \<times> dyn_ser \<times> allocs" where
  "dyn_ser_blob al w p =
     (if length p > 0xFFFFFFFF then (False, w\<lparr>sw_err := True\<rparr>, al)
      else
        (let (ok, w, al) = dyn_ser_u32 al w (of_nat (length p)) in
         if \<not> ok then (False, w, al) else dyn_ser_raw al w p))"

lemma drop7_less: "drop_bit 7 v \<noteq> 0 \<Longrightarrow> unat (drop_bit 7 v) < unat (v :: u64)"
proof -
  assume "drop_bit 7 v \<noteq> 0"
  then have "0 < unat (drop_bit 7 v)" by (simp add: unat_gt_0)
  moreover have "unat (drop_bit 7 v) = unat v div 128" by (simp only: unat_drop_bit_eq) (simp add: drop_bit_eq_div)
  ultimately show ?thesis by simp
qed

text \<open>The \<open>do \<dots> while\<close> loop of the variable-length writer.\<close>

function dyn_ser_uvarint :: "allocs \<Rightarrow> dyn_ser \<Rightarrow> u64 \<Rightarrow> bool \<times> dyn_ser \<times> allocs" where
  "dyn_ser_uvarint al w v =
     (let b = ucast (v AND 0x7f) :: byte;
          v = drop_bit 7 v;
          b = (if v \<noteq> 0 then b OR 0x80 else b);
          (ok, w, al) = dyn_ser_u8 al w b
      in if \<not> ok then (False, w, al)
         else if v \<noteq> 0 then dyn_ser_uvarint al w v else (True, w, al))"
  by pat_completeness auto

termination
  by (relation "measure (\<lambda>(al, w, v). unat v)") (auto simp: drop7_less)

declare dyn_ser_uvarint.simps [simp del]

definition dyn_ser_svarint :: "allocs \<Rightarrow> dyn_ser \<Rightarrow> u64 \<Rightarrow> bool \<times> dyn_ser \<times> allocs" where
  "dyn_ser_svarint al w v = dyn_ser_uvarint al w (push_bit 1 v XOR signed_drop_bit 63 v)"

function dyn_varint_len_loop :: "u64 \<Rightarrow> nat \<Rightarrow> nat" where
  "dyn_varint_len_loop v k = (let v = drop_bit 7 v in if v \<noteq> 0 then dyn_varint_len_loop v (k + 1) else k)"
  by pat_completeness auto

termination
  by (relation "measure (\<lambda>(v, k). unat v)") (auto simp: drop7_less)

declare dyn_varint_len_loop.simps [simp del]

definition dyn_varint_len :: "u64 \<Rightarrow> nat" where
  "dyn_varint_len v = dyn_varint_len_loop v 1"

subsection \<open>Frame\<close>

definition ser_magic :: bytes where
  "ser_magic = [0x44, 0x59, 0x4E, 0x53]"

definition DYN_SER_VERSION :: nat where
  "DYN_SER_VERSION = 1"

definition DYN_SER_HEADER :: nat where
  "DYN_SER_HEADER = 20"

definition DYN_SER_TRAILER :: nat where
  "DYN_SER_TRAILER = 4"

definition DYN_SER_DEFAULT_MAX :: nat where
  "DYN_SER_DEFAULT_MAX = 2 ^ 28"

definition dyn_ser_begin :: "allocs \<Rightarrow> dyn_ser \<Rightarrow> 16 word \<Rightarrow> u32 \<Rightarrow> bool \<times> dyn_ser \<times> allocs" where
  "dyn_ser_begin al w type_id flags =
     (let (ok, w, al) = dyn_ser_raw al w ser_magic in if \<not> ok then (False, w, al) else
      let (ok, w, al) = dyn_ser_u16 al w (of_nat DYN_SER_VERSION) in if \<not> ok then (False, w, al) else
      let (ok, w, al) = dyn_ser_u16 al w type_id in if \<not> ok then (False, w, al) else
      let (ok, w, al) = dyn_ser_u32 al w flags in if \<not> ok then (False, w, al) else
      dyn_ser_u64 al w 0)"

definition dyn_ser_finish :: "crc_ins option \<Rightarrow> allocs \<Rightarrow> dyn_ser \<Rightarrow> bool \<times> dyn_ser \<times> allocs" where
  "dyn_ser_finish hw al w =
     (if sw_err w \<or> length (sw_buf w) < DYN_SER_HEADER then (False, w\<lparr>sw_err := True\<rparr>, al)
      else
        (let payload = of_nat (length (sw_buf w) - DYN_SER_HEADER) :: u64;
             buf = foldl (\<lambda>buf i. buf[12 + i := ucast (drop_bit (i * 8) payload)]) (sw_buf w) [0..<8];
             crc = dyn_crc32c hw buf
         in dyn_ser_u32 al (w\<lparr>sw_buf := buf\<rparr>) crc))"

subsection \<open>Reader\<close>

record dyn_de =
  dr_p :: bytes
  dr_pos :: nat
  dr_err :: bool
  dr_budget :: u64

datatype de_code = DYN_DE_OK | DYN_DE_BAD_MAGIC | DYN_DE_BAD_VERSION | DYN_DE_TRUNCATED | DYN_DE_BAD_CRC | DYN_DE_TOO_LARGE

primrec dyn_de_strerror :: "de_code \<Rightarrow> string" where
  "dyn_de_strerror DYN_DE_OK = ''ok''"
| "dyn_de_strerror DYN_DE_BAD_MAGIC = ''not a DYNS record''"
| "dyn_de_strerror DYN_DE_BAD_VERSION = ''unsupported DYNS format version''"
| "dyn_de_strerror DYN_DE_TRUNCATED = ''truncated DYNS record''"
| "dyn_de_strerror DYN_DE_BAD_CRC = ''DYNS checksum mismatch''"
| "dyn_de_strerror DYN_DE_TOO_LARGE = ''DYNS payload exceeds maxBytes''"

definition DYN_DE_BUDGET_MULT :: u64 where
  "DYN_DE_BUDGET_MULT = 64"

definition DYN_DE_BUDGET_BASE :: u64 where
  "DYN_DE_BUDGET_BASE = push_bit 20 512"

definition de_le :: "bytes \<Rightarrow> nat \<Rightarrow> u64" where
  "de_le p nbytes = foldl (\<lambda>v i. v OR push_bit (i * 8) (ucast (p ! i))) 0 [0..<nbytes]"

text \<open>The reader that \<open>dyn_de_open\<close> leaves behind when it fails.\<close>

definition de_closed :: dyn_de where
  "de_closed = \<lparr>dr_p = [], dr_pos = 0, dr_err = True, dr_budget = 0\<rparr>"

text \<open>The type and the flags are stored only on success.\<close>

definition dyn_de_open :: "crc_ins option \<Rightarrow> bytes \<Rightarrow> nat \<Rightarrow> de_code \<times> (16 word \<times> u32) option \<times> dyn_de" where
  "dyn_de_open hw buf max_payload =
     (let max_payload = (if max_payload = 0 then DYN_SER_DEFAULT_MAX else max_payload);
          len = length buf
      in
      if len < DYN_SER_HEADER + DYN_SER_TRAILER then (DYN_DE_TRUNCATED, None, de_closed)
      else if buf ! 0 \<noteq> ser_magic ! 0 \<or> buf ! 1 \<noteq> ser_magic ! 1 \<or> buf ! 2 \<noteq> ser_magic ! 2 \<or> buf ! 3 \<noteq> ser_magic ! 3
      then (DYN_DE_BAD_MAGIC, None, de_closed)
      else if de_le (drop 4 buf) 2 \<noteq> of_nat DYN_SER_VERSION then (DYN_DE_BAD_VERSION, None, de_closed)
      else
        (let payload = de_le (drop 12 buf) 8 in
         if unat payload > max_payload then (DYN_DE_TOO_LARGE, None, de_closed)
         else if unat payload \<noteq> len - DYN_SER_HEADER - DYN_SER_TRAILER then (DYN_DE_TRUNCATED, None, de_closed)
         else
           (let want = ucast (de_le (drop (len - DYN_SER_TRAILER) buf) 4) :: u32;
                got = dyn_crc32c hw (take (len - DYN_SER_TRAILER) buf)
            in if want \<noteq> got then (DYN_DE_BAD_CRC, None, de_closed)
               else (DYN_DE_OK, Some (ucast (de_le (drop 6 buf) 2), ucast (de_le (drop 8 buf) 4)),
                 \<lparr>dr_p = take (unat payload) (drop DYN_SER_HEADER buf), dr_pos = 0, dr_err = False,
                  dr_budget = DYN_DE_BUDGET_BASE + DYN_DE_BUDGET_MULT * payload\<rparr>))))"

definition dyn_de_charge :: "dyn_de \<Rightarrow> u64 \<Rightarrow> bool \<times> dyn_de" where
  "dyn_de_charge r n =
     (if n > dr_budget r then (False, r\<lparr>dr_err := True\<rparr>) else (True, r\<lparr>dr_budget := dr_budget r - n\<rparr>))"

definition dyn_de_ok :: "dyn_de \<Rightarrow> bool" where
  "dyn_de_ok r \<longleftrightarrow> \<not> dr_err r"

definition dyn_de_left :: "dyn_de \<Rightarrow> nat" where
  "dyn_de_left r = (if dr_err r then 0 else length (dr_p r) - dr_pos r)"

text \<open>The pointer that \<open>de_take\<close> returns is represented by the \<open>n\<close> bytes it points to.\<close>

definition de_take :: "dyn_de \<Rightarrow> nat \<Rightarrow> bytes option \<times> dyn_de" where
  "de_take r n =
     (if dr_err r \<or> n > length (dr_p r) - dr_pos r then (None, r\<lparr>dr_err := True\<rparr>)
      else (Some (take n (drop (dr_pos r) (dr_p r))), r\<lparr>dr_pos := dr_pos r + n\<rparr>))"

definition dyn_de_u8 :: "dyn_de \<Rightarrow> byte \<times> dyn_de" where
  "dyn_de_u8 r = (case de_take r 1 of (Some p, r) \<Rightarrow> (p ! 0, r) | (None, r) \<Rightarrow> (0, r))"

definition dyn_de_u16 :: "dyn_de \<Rightarrow> 16 word \<times> dyn_de" where
  "dyn_de_u16 r = (case de_take r 2 of (Some p, r) \<Rightarrow> (ucast (de_le p 2), r) | (None, r) \<Rightarrow> (0, r))"

definition dyn_de_u32 :: "dyn_de \<Rightarrow> u32 \<times> dyn_de" where
  "dyn_de_u32 r = (case de_take r 4 of (Some p, r) \<Rightarrow> (ucast (de_le p 4), r) | (None, r) \<Rightarrow> (0, r))"

definition dyn_de_u64 :: "dyn_de \<Rightarrow> u64 \<times> dyn_de" where
  "dyn_de_u64 r = (case de_take r 8 of (Some p, r) \<Rightarrow> (de_le p 8, r) | (None, r) \<Rightarrow> (0, r))"

definition dyn_de_i64 :: "dyn_de \<Rightarrow> u64 \<times> dyn_de" where
  "dyn_de_i64 r = dyn_de_u64 r"

definition dyn_de_f64 :: "dyn_de \<Rightarrow> u64 \<times> dyn_de" where
  "dyn_de_f64 r = dyn_de_u64 r"

definition dyn_de_raw :: "dyn_de \<Rightarrow> nat \<Rightarrow> bytes option \<times> dyn_de" where
  "dyn_de_raw r n = de_take r n"

function de_uvarint_loop :: "dyn_de \<Rightarrow> u64 \<Rightarrow> nat \<Rightarrow> u64 option \<times> dyn_de" where
  "de_uvarint_loop r v shift =
     (let (b, r) = dyn_de_u8 r in
      if \<not> dyn_de_ok r then (None, r)
      else if shift = 63 \<and> b AND 0x7f > 1 then (None, r)
      else
        (let v = v OR push_bit shift (ucast (b AND 0x7f)) in
         if b AND 0x80 = 0 then (Some v, r)
         else if shift + 7 \<ge> 64 then (None, r)
         else de_uvarint_loop r v (shift + 7)))"
  by pat_completeness auto

termination
  by (relation "measure (\<lambda>(r, v, shift). 64 - shift)") auto

declare de_uvarint_loop.simps [simp del]

definition dyn_de_uvarint :: "dyn_de \<Rightarrow> u64 option \<times> dyn_de" where
  "dyn_de_uvarint r = de_uvarint_loop r 0 0"

definition dyn_de_svarint :: "dyn_de \<Rightarrow> u64 option \<times> dyn_de" where
  "dyn_de_svarint r =
     (case dyn_de_uvarint r of
        (None, r) \<Rightarrow> (None, r)
      | (Some z, r) \<Rightarrow> (Some (drop_bit 1 z XOR - (z AND 1)), r))"

definition dyn_de_blob :: "dyn_de \<Rightarrow> bytes option \<times> dyn_de" where
  "dyn_de_blob r =
     (let (len, r) = dyn_de_u32 r in
      if dr_err r \<or> unat len > length (dr_p r) - dr_pos r then (None, r\<lparr>dr_err := True\<rparr>)
      else de_take r (unat len))"

definition dyn_de_count :: "dyn_de \<Rightarrow> nat \<Rightarrow> u32 option \<times> dyn_de" where
  "dyn_de_count r elem_size =
     (let (n, r) = dyn_de_u32 r in
      if dr_err r then (None, r)
      else if elem_size \<noteq> 0 then
        (if unat n * elem_size mod 2 ^ 64 > length (dr_p r) - dr_pos r then (None, r\<lparr>dr_err := True\<rparr>) else (Some n, r))
      else if unat n > length (dr_p r) - dr_pos r then (None, r\<lparr>dr_err := True\<rparr>)
      else (Some n, r))"

end
