(* ===== verification/SerialItems.thy ===== *)
theory SerialItems
  imports Serial
begin

text \<open>
  Reading inverts writing, item by item: fixed-width integers, variable-length integers and blobs. An item
  is one call of the writer; \<open>put_items\<close> and \<open>get_items\<close> are sequences of calls.
\<close>

subsection \<open>Fixed-width integers\<close>

lemma bit_de_le: "bit (de_le p n) k \<longleftrightarrow> k < 8 * n \<and> k < 64 \<and> bit (p ! (k div 8)) (k mod 8)"
proof (induction n)
  case (Suc n)
  define P where "P = push_bit (n * 8) (ucast (p ! n) :: u64)"
  have top: "bit b j \<Longrightarrow> j < 8" for b :: byte and j using bit_imp_le_length [of b j] by simp
  have P: "bit P k \<longleftrightarrow> n * 8 \<le> k \<and> k < 64 \<and> bit (p ! n) (k - n * 8)"
    unfolding P_def by (auto simp: bit_simps)
  have "bit P k \<longleftrightarrow> 8 * n \<le> k \<and> k < 8 * Suc n \<and> k < 64 \<and> bit (p ! (k div 8)) (k mod 8)"
  proof (cases "8 * n \<le> k \<and> k < 8 * Suc n")
    case True
    define j where "j = k - 8 * n"
    have "k = j + n * 8" "j < 8" using True by (auto simp: j_def)
    then have "k div 8 = n" "k mod 8 = k - n * 8" by simp_all
    then show ?thesis using True P by auto
  next
    case False
    then have "\<not> bit P k" using P top [of "p ! n" "k - n * 8"] by auto
    then show ?thesis using False by blast
  qed
  moreover have "de_le p (Suc n) = de_le p n OR P" by (simp add: de_le_def P_def)
  ultimately show ?case using Suc.IH by (auto simp: bit_or_iff)
qed (simp add: de_le_def)

lemma ser_le_bytes_length [simp]: "length (ser_le_bytes v n) = n"
  by (simp add: ser_le_bytes_def)

lemma bit_ser_le: "i < n \<Longrightarrow> bit (ser_le_bytes v n ! i) j \<longleftrightarrow> j < 8 \<and> bit v (i * 8 + j)"
  by (auto simp: ser_le_bytes_def bit_simps dest: bit_imp_le_length)

lemma de_le_ser: "de_le (ser_le_bytes v n @ rest) n = take_bit (8 * n) v"
proof (rule bit_word_eqI)
  fix k assume "k < LENGTH(64)"
  have "k div 8 < n" if "k < 8 * n" using that by (simp add: div_less_iff_less_mult mult.commute)
  then show "bit (de_le (ser_le_bytes v n @ rest) n) k = bit (take_bit (8 * n) v) k"
    using \<open>k < LENGTH(64)\<close> by (auto simp: bit_de_le bit_simps nth_append bit_ser_le)
qed

lemma de_le_inj:
  assumes "de_le p n = de_le q n" "length p = n" "length q = n" "n \<le> 8"
  shows "p = q"
proof (rule nth_equalityI)
  fix i assume i: "i < length p"
  show "p ! i = q ! i"
  proof (rule bit_word_eqI)
    fix j assume "j < LENGTH(8)"
    then have "i * 8 + j < 8 * n" "i * 8 + j < 64" "(i * 8 + j) div 8 = i" "(i * 8 + j) mod 8 = j" using i assms(2,4) by auto
    then show "bit (p ! i) j = bit (q ! i) j" using bit_de_le [of p n "i * 8 + j"] bit_de_le [of q n "i * 8 + j"] assms(1) by simp
  qed
qed (simp add: assms)

lemma de_le_cast:
  "ucast (de_le (ser_le_bytes (ucast (a :: 16 word)) 2 @ rest) 2) = a"
  "ucast (de_le (ser_le_bytes (ucast (b :: u32)) 4 @ rest) 4) = b"
  "de_le (ser_le_bytes c 8 @ rest) 8 = c"
  by (simp_all only: de_le_ser) (rule bit_word_eqI; auto simp: bit_simps)+

subsection \<open>Items\<close>

datatype ser_item = IU8 byte | IU16 "16 word" | IU32 u32 | IU64 u64 | IUvarint u64 | ISvarint u64 | IBlob bytes

primrec put_item :: "allocs \<Rightarrow> dyn_ser \<Rightarrow> ser_item \<Rightarrow> bool \<times> dyn_ser \<times> allocs" where
  "put_item al w (IU8 v) = dyn_ser_u8 al w v"
| "put_item al w (IU16 v) = dyn_ser_u16 al w v"
| "put_item al w (IU32 v) = dyn_ser_u32 al w v"
| "put_item al w (IU64 v) = dyn_ser_u64 al w v"
| "put_item al w (IUvarint v) = dyn_ser_uvarint al w v"
| "put_item al w (ISvarint v) = dyn_ser_svarint al w v"
| "put_item al w (IBlob p) = dyn_ser_blob al w p"

text \<open>Reading an item of the same kind as a given one.\<close>

primrec get_item :: "dyn_de \<Rightarrow> ser_item \<Rightarrow> ser_item option \<times> dyn_de" where
  "get_item r (IU8 _) = (case dyn_de_u8 r of (v, r) \<Rightarrow> (if dyn_de_ok r then Some (IU8 v) else None, r))"
| "get_item r (IU16 _) = (case dyn_de_u16 r of (v, r) \<Rightarrow> (if dyn_de_ok r then Some (IU16 v) else None, r))"
| "get_item r (IU32 _) = (case dyn_de_u32 r of (v, r) \<Rightarrow> (if dyn_de_ok r then Some (IU32 v) else None, r))"
| "get_item r (IU64 _) = (case dyn_de_u64 r of (v, r) \<Rightarrow> (if dyn_de_ok r then Some (IU64 v) else None, r))"
| "get_item r (IUvarint _) = (case dyn_de_uvarint r of (v, r) \<Rightarrow> (map_option IUvarint v, r))"
| "get_item r (ISvarint _) = (case dyn_de_svarint r of (v, r) \<Rightarrow> (map_option ISvarint v, r))"
| "get_item r (IBlob _) = (case dyn_de_blob r of (v, r) \<Rightarrow> (map_option IBlob v, r))"

fun put_items :: "allocs \<Rightarrow> dyn_ser \<Rightarrow> ser_item list \<Rightarrow> bool \<times> dyn_ser \<times> allocs" where
  "put_items al w [] = (True, w, al)"
| "put_items al w (x # xs) = (case put_item al w x of (ok, w, al) \<Rightarrow> if ok then put_items al w xs else (False, w, al))"

fun get_items :: "dyn_de \<Rightarrow> ser_item list \<Rightarrow> ser_item list option \<times> dyn_de" where
  "get_items r [] = (Some [], r)"
| "get_items r (x # xs) =
     (case get_item r x of
        (None, r) \<Rightarrow> (None, r)
      | (Some y, r) \<Rightarrow> (case get_items r xs of (ys, r) \<Rightarrow> (map_option ((#) y) ys, r)))"

definition zz :: "u64 \<Rightarrow> u64" where
  "zz v = push_bit 1 v XOR signed_drop_bit 63 v"

primrec enc_item :: "ser_item \<Rightarrow> bytes" where
  "enc_item (IU8 v) = [v]"
| "enc_item (IU16 v) = ser_le_bytes (ucast v) 2"
| "enc_item (IU32 v) = ser_le_bytes (ucast v) 4"
| "enc_item (IU64 v) = ser_le_bytes v 8"
| "enc_item (IUvarint v) = dyn_codec_put_uvarint v"
| "enc_item (ISvarint v) = dyn_codec_put_uvarint (zz v)"
| "enc_item (IBlob p) = ser_le_bytes (of_nat (length p)) 4 @ p"

subsection \<open>Writing\<close>

text \<open>A successful write appends exactly the given bytes, and it succeeds while memory is available and the
  buffer stays within \<open>2 ^ 40\<close> bytes.\<close>

definition wrote :: "allocs \<Rightarrow> dyn_ser \<Rightarrow> bytes \<Rightarrow> bool \<times> dyn_ser \<times> allocs \<Rightarrow> bool" where
  "wrote al w bs res \<longleftrightarrow> (case res of (ok, w', al') \<Rightarrow>
     (ok \<longrightarrow> sw_buf w' = sw_buf w @ bs \<and> \<not> sw_err w') \<and>
     (\<not> sw_err w \<and> (\<forall>b \<in> set al. b) \<and> length (sw_buf w) + length bs \<le> 2 ^ 40 \<longrightarrow> ok \<and> (\<forall>b \<in> set al'. b)))"

lemma grow_loop_room: "0 < nc \<Longrightarrow> sz \<le> 2 ^ 40 \<Longrightarrow> \<exists>n. ser_grow_loop nc sz = Some n \<and> sz \<le> n"
proof (induction nc sz rule: ser_grow_loop.induct)
  case (1 nc sz)
  then show ?case by (subst ser_grow_loop.simps) auto
qed

lemma grow_wrote:
  assumes "length (sw_buf w) + n \<le> 2 ^ 40"
  shows "wrote al w [] (ser_grow al w n)"
proof -
  obtain b al' where na: "next_alloc al = (b, al')" by (rule prod.exhaust)
  have all: "b \<and> (\<forall>b \<in> set al'. b)" if "\<forall>b \<in> set al. b"
    using next_alloc_all_True [OF that] unfolding na fst_conv snd_conv .
  obtain c where c: "ser_grow_loop (if sw_cap w \<noteq> 0 then sw_cap w else 256) (length (sw_buf w) + n) = Some c"
  proof -
    have "0 < (if sw_cap w \<noteq> 0 then sw_cap w else 256)" by simp
    from grow_loop_room [OF this assms] that show ?thesis by blast
  qed
  consider "sw_err w" | "\<not> sw_err w" "length (sw_buf w) + n \<le> sw_cap w" | "\<not> sw_err w" "\<not> length (sw_buf w) + n \<le> sw_cap w" by blast
  then show ?thesis
  proof cases
    case 3
    then have "ser_grow al w n = (if \<not> b then (False, w\<lparr>sw_err := True\<rparr>, al') else (True, w\<lparr>sw_cap := c\<rparr>, al'))"
      by (simp only: ser_grow_def c na if_False option.case prod.case)
    then show ?thesis using 3(1) all by (cases b) (auto simp: wrote_def)
  qed (auto simp: wrote_def ser_grow_def)
qed

lemma grow_success: "ser_grow al w n = (True, w', al') \<Longrightarrow> sw_buf w' = sw_buf w \<and> \<not> sw_err w'"
  unfolding ser_grow_def by (auto split: if_splits option.splits prod.splits)

lemma raw_wrote: "wrote al w p (dyn_ser_raw al w p)"
proof -
  obtain ok w1 al1 where g: "ser_grow al w (length p) = (ok, w1, al1)" by (metis prod_cases3)
  have r: "dyn_ser_raw al w p = (if \<not> ok then (False, w1, al1) else (True, w1\<lparr>sw_buf := sw_buf w1 @ p\<rparr>, al1))"
    by (simp add: dyn_ser_raw_def g)
  have "\<not> sw_err w \<and> (\<forall>b \<in> set al. b) \<and> length (sw_buf w) + length p \<le> 2 ^ 40 \<longrightarrow> ok \<and> (\<forall>b \<in> set al1. b)"
    using grow_wrote [of w "length p" al] by (auto simp: wrote_def g)
  then show ?thesis using grow_success [of al w "length p" w1 al1] g by (cases ok) (auto simp: wrote_def r)
qed

lemma le_wrote: "wrote al w (ser_le_bytes v n) (ser_le al w v n)"
  by (simp add: ser_le_def raw_wrote)

lemma u8_bytes: "ser_le_bytes (ucast (v :: byte)) 1 = [v]"
  by (simp add: ser_le_bytes_def) (rule bit_word_eqI, auto simp: bit_simps)

lemma u8_wrote: "wrote al w [v] (dyn_ser_u8 al w v)"
  unfolding dyn_ser_u8_def u8_bytes [symmetric] by (rule le_wrote)

lemma wrote_bind:
  assumes "wrote al w a (ok, w', al')" "ok \<Longrightarrow> wrote al' w' b res"
  shows "wrote al w (a @ b) (if \<not> ok then (False, w', al') else res)"
proof (cases ok)
  case False
  have "\<not> (\<not> sw_err w \<and> (\<forall>b \<in> set al. b) \<and> length (sw_buf w) + length (a @ b) \<le> 2 ^ 40)"
    using assms(1) False unfolding wrote_def prod.case length_append by linarith
  then show ?thesis using False unfolding wrote_def by simp
next
  case True
  obtain ok2 w2 al2 where res: "res = (ok2, w2, al2)" by (rule prod_cases3)
  have 1: "sw_buf w' = sw_buf w @ a" "\<not> sw_err w'" using assms(1) True unfolding wrote_def by simp_all
  have 2: "ok2 \<Longrightarrow> sw_buf w2 = sw_buf w' @ b \<and> \<not> sw_err w2" using assms(2) True unfolding wrote_def res by simp
  have "ok2 \<and> (\<forall>b \<in> set al2. b)"
    if "\<not> sw_err w" "\<forall>b \<in> set al. b" "length (sw_buf w) + length (a @ b) \<le> 2 ^ 40"
  proof -
    have "\<forall>b \<in> set al'. b" using assms(1) that unfolding wrote_def prod.case length_append by linarith
    moreover have "length (sw_buf w') + length b \<le> 2 ^ 40" using 1(1) that(3) by simp
    ultimately show ?thesis using assms(2) [OF True] 1(2) unfolding wrote_def res prod.case by blast
  qed
  moreover have "ok2 \<Longrightarrow> sw_buf w2 = sw_buf w @ a @ b \<and> \<not> sw_err w2" using 1 2 by simp
  ultimately have "wrote al w (a @ b) (ok2, w2, al2)" unfolding wrote_def prod.case by blast
  then show ?thesis using True res by simp
qed

lemma drop7_zero: "drop_bit 7 v \<noteq> 0 \<longleftrightarrow> 0x80 \<le> (v :: u64)"
proof -
  have "unat (drop_bit 7 v) = unat v div 128" by (simp only: unat_drop_bit_eq) (simp add: drop_bit_eq_div)
  then have "drop_bit 7 v \<noteq> 0 \<longleftrightarrow> unat v div 128 \<noteq> 0" by (metis unat_eq_0)
  then show ?thesis by (auto simp: word_le_nat_alt div_eq_0_iff)
qed

lemma uvarint_byte:
  fixes v :: u64
  shows "drop_bit 7 v \<noteq> 0 \<Longrightarrow> dyn_codec_put_uvarint v = (ucast (v AND 0x7f) OR 0x80) # dyn_codec_put_uvarint (drop_bit 7 v)"
    and "drop_bit 7 v = 0 \<Longrightarrow> dyn_codec_put_uvarint v = [ucast (v AND 0x7f)]"
proof -
  have m: "(0x7f :: u64) = mask 7" by (simp add: mask_eq_exp_minus_1)
  have b: "bit (0x80 :: byte) n \<longleftrightarrow> n = 7" "bit (0x80 :: u64) n \<longleftrightarrow> n = 7" for n
    using bit_exp_iff [where 'a = "8 word", of 7 n] bit_exp_iff [where 'a = "64 word", of 7 n] by auto
  have "(ucast (v OR 0x80) :: byte) = ucast (v AND 0x7f) OR 0x80"
    unfolding m
  proof (rule bit_word_eqI)
    fix n assume "n < LENGTH(8)"
    then show "bit (ucast (v OR 0x80) :: byte) n = bit (ucast (v AND mask 7) OR 0x80 :: byte) n"
      using b [of n] by (cases "n = 7") (auto simp: bit_simps)
  qed
  then show "drop_bit 7 v \<noteq> 0 \<Longrightarrow> dyn_codec_put_uvarint v = (ucast (v AND 0x7f) OR 0x80) # dyn_codec_put_uvarint (drop_bit 7 v)"
    by (subst dyn_codec_put_uvarint.simps) (simp add: drop7_zero)
  assume z: "drop_bit 7 v = 0"
  have "v AND 0x7f = take_bit 7 v" unfolding m by (rule take_bit_eq_mask [symmetric])
  also have "take_bit 7 v = v" using bits_ident [of 7 v] z by simp
  finally have "v AND 0x7f = v" .
  moreover have "\<not> 0x80 \<le> v" using z drop7_zero by blast
  ultimately show "dyn_codec_put_uvarint v = [ucast (v AND 0x7f)]" by (subst dyn_codec_put_uvarint.simps) simp
qed

lemma uvarint_wrote: "wrote al w (dyn_codec_put_uvarint v) (dyn_ser_uvarint al w v)"
proof (induction al w v rule: dyn_ser_uvarint.induct)
  case (1 al w v)
  define b :: byte where "b = (if drop_bit 7 v \<noteq> 0 then ucast (v AND 0x7f) OR 0x80 else ucast (v AND 0x7f))"
  obtain ok w1 al1 where u: "dyn_ser_u8 al w b = (ok, w1, al1)" by (metis prod_cases3)
  have u8: "wrote al w [b] (ok, w1, al1)" using u8_wrote [of al w b] by (simp add: u)
  have eq: "dyn_ser_uvarint al w v =
      (if \<not> ok then (False, w1, al1) else if drop_bit 7 v \<noteq> 0 then dyn_ser_uvarint al1 w1 (drop_bit 7 v) else (True, w1, al1))"
    by (subst dyn_ser_uvarint.simps) (simp only: Let_def b_def [symmetric] u prod.case)
  show ?case
  proof (cases "drop_bit 7 v \<noteq> 0")
    case True
    have "wrote al1 w1 (dyn_codec_put_uvarint (drop_bit 7 v)) (dyn_ser_uvarint al1 w1 (drop_bit 7 v))" if ok
      using 1 [OF refl refl b_def u [symmetric] refl refl] True that by simp
    from wrote_bind [OF u8 this] show ?thesis using True uvarint_byte(1) [of v] by (cases ok) (simp_all add: eq b_def)
  next
    case False
    then show ?thesis using u8 uvarint_byte(2) [of v] by (cases ok) (simp_all add: eq b_def)
  qed
qed

primrec item_ok :: "ser_item \<Rightarrow> bool" where
  "item_ok (IU8 _) = True"
| "item_ok (IU16 _) = True"
| "item_ok (IU32 _) = True"
| "item_ok (IU64 _) = True"
| "item_ok (IUvarint _) = True"
| "item_ok (ISvarint _) = True"
| "item_ok (IBlob p) = (length p < 2 ^ 32)"

lemma u32_of_length: "n < 2 ^ 32 \<Longrightarrow> ucast (of_nat n :: u32) = (of_nat n :: u64)"
  by (simp add: unsigned_of_nat take_bit_nat_eq_self)

lemma blob_wrote: "length p < 2 ^ 32 \<Longrightarrow> wrote al w (enc_item (IBlob p)) (dyn_ser_blob al w p)"
proof -
  assume p: "length p < 2 ^ 32"
  obtain ok w1 al1 where u: "dyn_ser_u32 al w (of_nat (length p)) = (ok, w1, al1)" by (metis prod_cases3)
  have "wrote al w (ser_le_bytes (of_nat (length p)) 4) (ok, w1, al1)"
    using le_wrote [of al w "of_nat (length p)" 4] u by (simp add: dyn_ser_u32_def u32_of_length [OF p])
  from wrote_bind [OF this raw_wrote] show ?thesis using p u by (simp add: dyn_ser_blob_def)
qed

lemma item_wrote: "item_ok x \<Longrightarrow> wrote al w (enc_item x) (put_item al w x)"
  by (cases x) (simp_all add: u8_wrote dyn_ser_u16_def dyn_ser_u32_def dyn_ser_u64_def le_wrote uvarint_wrote
      dyn_ser_svarint_def zz_def blob_wrote del: enc_item.simps(7))

lemma item_refused: "\<not> item_ok x \<Longrightarrow> \<not> fst (put_item al w x)"
  by (cases x) (simp_all add: dyn_ser_blob_def)

lemma items_wrote: "\<forall>x \<in> set xs. item_ok x \<Longrightarrow> \<not> sw_err w \<Longrightarrow> wrote al w (concat (map enc_item xs)) (put_items al w xs)"
proof (induction xs arbitrary: al w)
  case Nil
  then show ?case by (auto simp: wrote_def)
next
  case (Cons x xs)
  obtain ok w1 al1 where u: "put_item al w x = (ok, w1, al1)" by (metis prod_cases3)
  have x: "wrote al w (enc_item x) (ok, w1, al1)" using item_wrote [of x al w] Cons.prems u by simp
  have "wrote al1 w1 (concat (map enc_item xs)) (put_items al1 w1 xs)" if ok
  proof (rule Cons.IH)
    show "\<not> sw_err w1" using x that by (simp add: wrote_def)
  qed (use Cons.prems(1) in simp)
  from wrote_bind [OF x this] show ?case by (cases ok) (simp_all add: u)
qed

lemma items_accepted: "fst (put_items al w xs) \<Longrightarrow> \<forall>x \<in> set xs. item_ok x"
proof (induction xs arbitrary: al w)
  case (Cons x xs)
  then show ?case using item_refused [of x al w] by (auto split: prod.splits if_splits)
qed simp

subsection \<open>Reading\<close>

text \<open>The reader has no error and stands before the bytes \<open>bs\<close>.\<close>

definition before :: "dyn_de \<Rightarrow> bytes \<Rightarrow> bool" where
  "before r bs \<longleftrightarrow> \<not> dr_err r \<and> dr_pos r \<le> length (dr_p r) \<and> drop (dr_pos r) (dr_p r) = bs"

definition skip :: "nat \<Rightarrow> dyn_de \<Rightarrow> dyn_de" where
  "skip n r = r\<lparr>dr_pos := dr_pos r + n\<rparr>"

lemma skip_skip [simp]: "skip m (skip n r) = skip (n + m) r" "skip 0 r = r"
  by (simp_all add: skip_def add.assoc)

lemma at_left: "before r bs \<Longrightarrow> length (dr_p r) - dr_pos r = length bs"
  by (auto simp: before_def)

lemma at_skip: "before r (a @ b) \<Longrightarrow> before (skip (length a) r) b"
proof -
  assume r: "before r (a @ b)"
  then have "length a \<le> length (dr_p r) - dr_pos r" using at_left [OF r] by simp
  moreover have "drop (length a + dr_pos r) (dr_p r) = drop (length a) (drop (dr_pos r) (dr_p r))" by simp
  ultimately show ?thesis using r by (auto simp: before_def skip_def add.commute simp del: drop_drop)
qed

lemma at_ok: "before r bs \<Longrightarrow> \<not> dr_err r"
  by (simp add: before_def)

lemma skip_err [simp]: "dr_err (skip n r) = dr_err r" "dr_p (skip n r) = dr_p r"
  by (simp_all add: skip_def)

lemma take_at: "before r (a @ b) \<Longrightarrow> n = length a \<Longrightarrow> de_take r n = (Some a, skip n r)"
  using at_left [of r "a @ b"] by (simp add: de_take_def skip_def before_def)

lemma u8_at: "before r (b # rest) \<Longrightarrow> dyn_de_u8 r = (b, skip 1 r)"
  using take_at [of r "[b]" rest 1] by (simp add: dyn_de_u8_def)

lemma u32_at: "before r (ser_le_bytes (ucast v) 4 @ rest) \<Longrightarrow> dyn_de_u32 r = (v, skip 4 r)"
  using take_at [of r "ser_le_bytes (ucast v) 4" rest 4] de_le_cast(2) [of v "[]"] by (simp add: dyn_de_u32_def)

lemma low7: "(b AND 0x80 = 0) = (b < 0x80)" "b < 0x80 \<Longrightarrow> b AND 0x7f = b" for b :: byte
proof -
  have "unat (b AND 0x80) = unat b div 128 * 128"
    using nat_and_high [of "unat b" 8 7] unsigned_less [of b] by (simp add: unat_and8)
  then show "(b AND 0x80 = 0) = (b < 0x80)" by (auto simp: word_unat_eq_iff word_less_nat_alt div_eq_0_iff)
  show "b < 0x80 \<Longrightarrow> b AND 0x7f = b" by (simp add: word_unat_eq_iff unat_byte_masks word_less_nat_alt)
qed

lemma uvarint_at:
  assumes "s = 7 * i" "i < 10" "y = drop_bit s X" "y \<noteq> 0 \<or> i = 0" "before r (dyn_codec_put_uvarint y @ rest)"
  shows "de_uvarint_loop r (take_bit s X) s = (Some X, skip (length (dyn_codec_put_uvarint y)) r)"
  using assms
proof (induction y arbitrary: i s r rule: dyn_codec_put_uvarint.induct)
  case (1 y)
  show ?case
  proof (cases "0x80 \<le> y")
    case False
    then have y: "y < 0x80" by simp
    have e: "dyn_codec_put_uvarint y = [ucast y]" using False by (subst dyn_codec_put_uvarint.simps) simp
    have X: "take_bit s X OR push_bit s y = X" using 1(4) by (auto intro!: bit_word_eqI simp: bit_simps)
    have u: "dyn_de_u8 r = (ucast y, skip 1 r)" using 1(6) e u8_at [of r "ucast y" rest] by simp
    have small: "(ucast y :: byte) < 0x80" by (rule u64_small(2) [OF y])
    have "\<not> (s = 63 \<and> (ucast y :: byte) > 1)"
    proof
      assume s: "s = 63 \<and> (ucast y :: byte) > 1"
      have "unat y = unat X div 2 ^ 63" using 1(4) s by (simp only: unat_drop_bit_eq) (simp add: drop_bit_eq_div)
      also have "\<dots> < 2" using unsigned_less [of X] by (simp add: div_less_iff_less_mult)
      finally have "unat (ucast y :: byte) < 2" by (simp add: unsigned_ucast_eq unsigned_take_bit_eq take_bit_nat_eq_self)
      then show False using s by (simp add: word_less_nat_alt)
    qed
    then show ?thesis
      using u X u64_small(1) [OF y] low7 [of "ucast y"] small at_ok [OF 1(6)]
      by (subst de_uvarint_loop.simps) (simp add: e dyn_de_ok_def)
  next
    case True
    have i: "i + 1 < 10"
    proof (rule ccontr)
      assume "\<not> i + 1 < 10"
      then have "y = drop_bit 63 X" using 1(2,3,4) by (cases "i = 9") simp_all
      then have "unat y = unat X div 2 ^ 63" by (simp only: unat_drop_bit_eq) (simp add: drop_bit_eq_div)
      also have "\<dots> < 2" using unsigned_less [of X] by (simp add: div_less_iff_less_mult)
      finally show False using True by (simp add: word_le_nat_alt)
    qed
    define b :: byte where "b = ucast (y OR 0x80)"
    have e: "dyn_codec_put_uvarint y = b # dyn_codec_put_uvarint (drop_bit 7 y)"
      using True by (subst dyn_codec_put_uvarint.simps) (simp only: if_True b_def)
    have u: "dyn_de_u8 r = (b, skip 1 r)" using 1(6) e u8_at [of r b] by simp
    have r: "before (skip 1 r) (dyn_codec_put_uvarint (drop_bit 7 y) @ rest)" using 1(6) e at_skip [of r "[b]"] by simp
    have b: "ucast (b AND 0x7f) = take_bit 7 y" "\<not> b < 0x80" using u64_low7 [of y] by (simp_all add: b_def)
    have "drop_bit 7 y = drop_bit (s + 7) X" "drop_bit 7 y \<noteq> 0" using 1(4) True drop7_zero [of y] by (simp_all add: add.commute)
    then have "de_uvarint_loop (skip 1 r) (take_bit (s + 7) X) (s + 7) =
        (Some X, skip (length (dyn_codec_put_uvarint (drop_bit 7 y))) (skip 1 r))"
      using 1(1) [OF True, of "s + 7" "i + 1" "skip 1 r"] 1(2) i r by simp
    then show ?thesis
      using u b low7(1) [of b] 1(2) i at_ok [OF 1(6)] take_bit_step [of s X, folded 1(4)]
      by (subst de_uvarint_loop.simps) (simp add: e dyn_de_ok_def)
  qed
qed

lemma dyn_de_uvarint_at:
  "before r (dyn_codec_put_uvarint X @ rest) \<Longrightarrow> dyn_de_uvarint r = (Some X, skip (length (dyn_codec_put_uvarint X)) r)"
  using uvarint_at [of 0 0 X X r rest] by (simp add: dyn_de_uvarint_def)

lemma zz_inverse: "drop_bit 1 (zz v) XOR - (zz v AND 1) = v"
proof -
  have top: "bit v n \<Longrightarrow> n < 64" for n using bit_imp_le_length [of v n] by simp
  have z: "bit (zz v) n \<longleftrightarrow> n < 64 \<and> ((0 < n \<and> bit v (n - 1)) \<noteq> bit v 63)" for n
  proof -
    have "bit (push_bit 1 v) n \<longleftrightarrow> n < 64 \<and> 0 < n \<and> bit v (n - 1)"
      unfolding bit_push_bit_iff by (auto simp: Suc_le_eq)
    moreover have "bit (signed_drop_bit 63 v) n \<longleftrightarrow> n < 64 \<and> bit v 63"
      unfolding bit_signed_drop_bit_iff using top [of "63 + n"] by (cases "n = 0") auto
    ultimately show ?thesis unfolding zz_def bit_xor_iff by blast
  qed
  have "zz v AND 1 = of_bool (bit v 63)" using z [of 0] by (auto simp: and_one_eq mod2_eq_if bit_0)
  then have m: "bit (- (zz v AND 1)) n \<longleftrightarrow> n < 64 \<and> bit v 63" for n by (cases "bit v 63") simp_all
  show ?thesis
  proof (rule bit_word_eqI)
    fix n assume "n < LENGTH(64)"
    then show "bit (drop_bit 1 (zz v) XOR - (zz v AND 1)) n = bit v n"
      by (cases "n = 63") (auto simp: bit_xor_iff bit_drop_bit_eq z m)
  qed
qed

lemma item_at:
  assumes "before r (enc_item x @ rest)" "item_ok x"
  shows "get_item r x = (Some x, skip (length (enc_item x)) r)"
proof (cases x)
  case (IU8 v)
  then show ?thesis using assms u8_at [of r v rest] at_ok [OF assms(1)] by (simp add: dyn_de_ok_def)
next
  case (IU16 v)
  then show ?thesis
    using assms take_at [of r "ser_le_bytes (ucast v) 2" rest 2] de_le_cast(1) [of v "[]"] at_ok [OF assms(1)]
    by (simp add: dyn_de_u16_def dyn_de_ok_def)
next
  case (IU32 v)
  then show ?thesis using assms u32_at [of r v rest] at_ok [OF assms(1)] by (simp add: dyn_de_ok_def)
next
  case (IU64 v)
  then show ?thesis
    using assms take_at [of r "ser_le_bytes v 8" rest 8] de_le_cast(3) [of v "[]"] at_ok [OF assms(1)]
    by (simp add: dyn_de_u64_def dyn_de_ok_def)
next
  case (IUvarint v)
  then show ?thesis using assms dyn_de_uvarint_at [of r v rest] by simp
next
  case (ISvarint v)
  then show ?thesis using assms dyn_de_uvarint_at [of r "zz v" rest] zz_inverse [of v] by (simp add: dyn_de_svarint_def)
next
  case (IBlob p)
  have p: "length p < 2 ^ 32" using assms(2) IBlob by simp
  have r: "before r (ser_le_bytes (ucast (of_nat (length p) :: u32)) 4 @ p @ rest)"
    using assms(1) IBlob by (simp only: u32_of_length [OF p]) simp
  have u: "dyn_de_u32 r = (of_nat (length p), skip 4 r)" by (rule u32_at [OF r])
  have r4: "before (skip 4 r) (p @ rest)" using at_skip [OF r] by simp
  have n: "unat (of_nat (length p) :: u32) = length p" using p by (simp add: unat_of_nat)
  show ?thesis
    using u n at_left [OF r4] at_ok [OF r4] take_at [OF r4 refl] IBlob by (simp add: dyn_de_blob_def)
qed

lemma items_at:
  "before r (concat (map enc_item xs) @ rest) \<Longrightarrow> \<forall>x \<in> set xs. item_ok x \<Longrightarrow>
   get_items r xs = (Some xs, skip (length (concat (map enc_item xs))) r)"
proof (induction xs arbitrary: r)
  case (Cons x xs)
  have r: "before r (enc_item x @ concat (map enc_item xs) @ rest)" using Cons.prems(1) by simp
  have g: "get_item r x = (Some x, skip (length (enc_item x)) r)" using item_at [OF r] Cons.prems(2) by simp
  have "get_items (skip (length (enc_item x)) r) xs =
      (Some xs, skip (length (concat (map enc_item xs))) (skip (length (enc_item x)) r))"
    by (rule Cons.IH [OF at_skip [OF r]]) (use Cons.prems(2) in simp)
  then show ?case using g by simp
qed simp

end
