(* ===== verification/SerialProps.thy ===== *)
theory SerialProps
  imports SerialItems
begin

text \<open>
  The frame of a record: what is written is read back, and every change of a single byte of a record is
  detected. The last rests on the CRC: a register step is injective, so two inputs of the same length
  that differ in one byte have different registers from there on.
\<close>

subsection \<open>The frame\<close>

definition frame_head :: "16 word \<Rightarrow> u32 \<Rightarrow> bytes" where
  "frame_head t f = ser_magic @ ser_le_bytes 1 2 @ ser_le_bytes (ucast t) 2 @ ser_le_bytes (ucast f) 4"

definition frame_body :: "16 word \<Rightarrow> u32 \<Rightarrow> bytes \<Rightarrow> bytes" where
  "frame_body t f p = frame_head t f @ ser_le_bytes (of_nat (length p)) 8 @ p"

definition frame :: "crc_ins option \<Rightarrow> 16 word \<Rightarrow> u32 \<Rightarrow> bytes \<Rightarrow> bytes" where
  "frame hw t f p = frame_body t f p @ ser_le_bytes (ucast (dyn_crc32c hw (frame_body t f p))) 4"

lemma frame_head_length [simp]: "length (frame_head t f) = 12"
  by (simp add: frame_head_def ser_magic_def)

lemma begin_wrote: "wrote al w (frame_head t f @ ser_le_bytes 0 8) (dyn_ser_begin al w t f)"
proof -
  obtain o1 w1 a1 where 1: "dyn_ser_raw al w ser_magic = (o1, w1, a1)" by (rule prod_cases3)
  obtain o2 w2 a2 where 2: "dyn_ser_u16 a1 w1 (of_nat DYN_SER_VERSION) = (o2, w2, a2)" by (rule prod_cases3)
  obtain o3 w3 a3 where 3: "dyn_ser_u16 a2 w2 t = (o3, w3, a3)" by (rule prod_cases3)
  obtain o4 w4 a4 where 4: "dyn_ser_u32 a3 w3 f = (o4, w4, a4)" by (rule prod_cases3)
  have v: "ucast (of_nat DYN_SER_VERSION :: 16 word) = (1 :: u64)" by (simp add: DYN_SER_VERSION_def)
  have s1: "wrote al w ser_magic (o1, w1, a1)" using raw_wrote [of al w ser_magic] 1 by simp
  have s2: "wrote a1 w1 (ser_le_bytes 1 2) (o2, w2, a2)" using le_wrote [of a1 w1 1 2] 2 by (simp add: dyn_ser_u16_def v)
  have s3: "wrote a2 w2 (ser_le_bytes (ucast t) 2) (o3, w3, a3)" using le_wrote [of a2 w2 "ucast t" 2] 3 by (simp add: dyn_ser_u16_def)
  have s4: "wrote a3 w3 (ser_le_bytes (ucast f) 4) (o4, w4, a4)" using le_wrote [of a3 w3 "ucast f" 4] 4 by (simp add: dyn_ser_u32_def)
  have s5: "wrote a4 w4 (ser_le_bytes 0 8) (dyn_ser_u64 a4 w4 0)" using le_wrote [of a4 w4 0 8] by (simp add: dyn_ser_u64_def)
  have "wrote al w (ser_magic @ ser_le_bytes 1 2 @ ser_le_bytes (ucast t) 2 @ ser_le_bytes (ucast f) 4 @ ser_le_bytes 0 8)
      (if \<not> o1 then (False, w1, a1) else if \<not> o2 then (False, w2, a2) else if \<not> o3 then (False, w3, a3)
       else if \<not> o4 then (False, w4, a4) else dyn_ser_u64 a4 w4 0)"
    by (intro wrote_bind s1 s2 s3 s4 s5)
  then show ?thesis by (simp only: dyn_ser_begin_def frame_head_def Let_def 1 2 3 4 prod.case append_assoc)
qed

lemma patch_bytes:
  "k + n \<le> length b \<Longrightarrow> foldl (\<lambda>b i. b[k + i := g i]) b [0..<n] = take k b @ map g [0..<n] @ drop (k + n) b"
proof (induction n)
  case (Suc n)
  then have d: "drop (k + n) b = b ! (k + n) # drop (k + Suc n) b" by (simp add: Cons_nth_drop_Suc)
  show ?case using Suc by (simp add: list_update_append d)
qed simp

lemma finish_eq:
  assumes "\<not> sw_err w" "sw_buf w = frame_head t f @ ser_le_bytes 0 8 @ p"
  shows "dyn_ser_finish hw al w =
    dyn_ser_u32 al (w\<lparr>sw_buf := frame_body t f p\<rparr>) (dyn_crc32c hw (frame_body t f p))"
proof -
  have len: "length (sw_buf w) = 20 + length p" using assms(2) by simp
  have "foldl (\<lambda>buf i. buf[12 + i := ucast (drop_bit (i * 8) (of_nat (length p) :: u64))]) (sw_buf w) [0..<8] =
      take 12 (sw_buf w) @ ser_le_bytes (of_nat (length p)) 8 @ drop (12 + 8) (sw_buf w)"
    unfolding ser_le_bytes_def by (rule patch_bytes) (simp add: len)
  also have "\<dots> = frame_body t f p" by (simp add: assms(2) frame_body_def)
  finally show ?thesis using assms(1) len by (simp add: dyn_ser_finish_def DYN_SER_HEADER_def Let_def)
qed

lemma finish_wrote:
  assumes "\<not> sw_err w" "sw_buf w = frame_head t f @ ser_le_bytes 0 8 @ p" "dyn_ser_finish hw al w = (ok, w', al')"
  shows "ok \<Longrightarrow> sw_buf w' = frame hw t f p"
    and "\<forall>b \<in> set al. b \<Longrightarrow> length p + 24 \<le> 2 ^ 40 \<Longrightarrow> ok"
proof -
  have "wrote al (w\<lparr>sw_buf := frame_body t f p\<rparr>) (ser_le_bytes (ucast (dyn_crc32c hw (frame_body t f p))) 4) (ok, w', al')"
    using le_wrote [of al "w\<lparr>sw_buf := frame_body t f p\<rparr>"] assms(3) unfolding finish_eq [OF assms(1,2)] dyn_ser_u32_def by metis
  then show "ok \<Longrightarrow> sw_buf w' = frame hw t f p" "\<forall>b \<in> set al. b \<Longrightarrow> length p + 24 \<le> 2 ^ 40 \<Longrightarrow> ok"
    using assms(1) by (simp_all add: wrote_def frame_def) (auto simp: frame_body_def)
qed

lemma open_frame:
  assumes "length p < 2 ^ 64"
  shows "dyn_de_open hw (frame hw t f p) m =
    (if length p \<le> (if m = 0 then DYN_SER_DEFAULT_MAX else m) then
       (DYN_DE_OK, Some (t, f), \<lparr>dr_p = p, dr_pos = 0, dr_err = False,
          dr_budget = DYN_DE_BUDGET_BASE + DYN_DE_BUDGET_MULT * of_nat (length p)\<rparr>)
     else (DYN_DE_TOO_LARGE, None, de_closed))"
proof -
  define crc where "crc = ser_le_bytes (ucast (dyn_crc32c hw (frame_body t f p))) 4"
  define B where "B = frame hw t f p"
  have B: "B = ser_magic @ ser_le_bytes 1 2 @ ser_le_bytes (ucast t) 2 @ ser_le_bytes (ucast f) 4 @
      ser_le_bytes (of_nat (length p)) 8 @ p @ crc"
    by (simp add: B_def frame_def frame_body_def frame_head_def crc_def)
  have m4: "length ser_magic = 4" by (simp add: ser_magic_def)
  have c4: "length crc = 4" by (simp add: crc_def)
  have len: "length B = 24 + length p" by (simp add: B m4 c4)
  have mag: "B ! 0 = ser_magic ! 0" "B ! 1 = ser_magic ! 1" "B ! 2 = ser_magic ! 2" "B ! 3 = ser_magic ! 3"
    by (simp_all add: B m4 nth_append)
  have ver: "de_le (drop 4 B) 2 = of_nat DYN_SER_VERSION"
    using de_le_ser [of 1 2] by (simp add: B m4 DYN_SER_VERSION_def)
  have pay: "de_le (drop 12 B) 8 = of_nat (length p)" using de_le_cast(3) by (simp add: B m4)
  have ty: "ucast (de_le (drop 6 B) 2) = t" and flg: "ucast (de_le (drop 8 B) 4) = f"
    using de_le_cast(1,2) by (simp_all add: B m4)
  have body: "take (length B - 4) B = frame_body t f p" "drop (length B - 4) B = crc"
    by (simp_all add: B_def frame_def crc_def)
  have want: "ucast (de_le crc 4) = dyn_crc32c hw (frame_body t f p)"
    using de_le_cast(2) [of "dyn_crc32c hw (frame_body t f p)" "[]"] by (simp add: crc_def)
  have n: "unat (of_nat (length p) :: u64) = length p" using assms by (simp add: unat_of_nat)
  have dp: "take (length p) (drop 20 B) = p" by (simp add: B m4)
  have lens: "\<not> length B < 24" "length B - 20 - 4 = length p" using len by simp_all
  show ?thesis
    unfolding B_def [symmetric] dyn_de_open_def Let_def DYN_SER_HEADER_def DYN_SER_TRAILER_def
    using lens mag ver pay ty flg body want n dp by simp
qed

subsection \<open>The checksum separates single bytes\<close>

lemma crc_step_inj: "bit poly 31 \<Longrightarrow> inj (crc_step poly)"
proof (rule injI)
  fix x y assume poly: "bit poly 31" and eq: "crc_step poly x = crc_step poly y"
  define z where "z = x XOR y"
  have s: "drop_bit 1 z XOR (if bit z 0 then poly else 0) = 0"
    using crc_step_xor [of poly x y] eq crc_step_eq [of poly z] by (simp add: z_def)
  have "\<not> bit (drop_bit 1 z) 31" using bit_imp_le_length [of z 32] by (auto simp: bit_drop_bit_eq)
  then have "\<not> bit z 0" using arg_cong [OF s, of "\<lambda>w. bit w 31"] poly by (auto simp: bit_xor_iff split: if_splits)
  then have "drop_bit 1 z = 0" using s by simp
  have "\<not> bit z n" for n
  proof (cases n)
    case (Suc k)
    then show ?thesis using arg_cong [OF \<open>drop_bit 1 z = 0\<close>, of "\<lambda>w. bit w k"] by (simp add: bit_drop_bit_eq)
  qed (simp add: \<open>\<not> bit z 0\<close>)
  then show "x = y" by (intro bit_word_eqI) (auto simp: z_def bit_xor_iff)
qed

lemma crc_byte_inj:
  assumes "bit poly 31"
  shows "crc_byte poly c d = crc_byte poly c' d' \<longleftrightarrow> c XOR ucast d = c' XOR ucast d'"
  unfolding crc_byte_def using inj_fn [OF crc_step_inj [OF assms], of 8] by (simp add: inj_eq)

lemma xor_right_cancel: "a XOR c = b XOR c \<longleftrightarrow> a = (b :: u32)"
proof
  assume "a XOR c = b XOR c"
  then have "(a XOR c) XOR c = (b XOR c) XOR c" by simp
  then show "a = b" by (simp add: xor.assoc)
qed simp

lemma xor_left_cancel: "c XOR a = c XOR b \<longleftrightarrow> a = (b :: u32)"
  using xor_right_cancel [of a c b] by (simp add: xor.commute)

lemma ucast_byte_inj: "ucast (x :: byte) = (ucast y :: u32) \<longleftrightarrow> x = y"
proof
  assume eq: "ucast x = (ucast y :: u32)"
  show "x = y"
  proof (rule bit_word_eqI)
    fix n assume "n < LENGTH(8)"
    then show "bit x n = bit y n" using arg_cong [OF eq, of "\<lambda>w. bit w n"] by (simp add: bit_simps)
  qed
qed simp

lemma crc_fold_inj: "bit poly 31 \<Longrightarrow> foldl (crc_byte poly) c d = foldl (crc_byte poly) c' d \<longleftrightarrow> c = c'"
  by (induction d arbitrary: c c') (simp_all add: crc_byte_inj xor_right_cancel)

lemma crc_one_byte:
  assumes "bit poly 31" "i < length d" "dyn_crc32_bitwise (d[i := b]) poly = dyn_crc32_bitwise d poly"
  shows "b = d ! i"
proof -
  have d: "d = take i d @ d ! i # drop (Suc i) d" by (rule id_take_nth_drop [OF assms(2)])
  have "foldl (crc_byte poly) 0xFFFFFFFF (take i d @ b # drop (Suc i) d) = foldl (crc_byte poly) 0xFFFFFFFF (take i d @ d ! i # drop (Suc i) d)"
    using assms(3) upd_conv_take_nth_drop [OF assms(2), of b] d
    unfolding dyn_crc32_bitwise_def xor_right_cancel by metis
  then show ?thesis by (simp add: crc_fold_inj [OF assms(1)] crc_byte_inj [OF assms(1)] xor_left_cancel ucast_byte_inj)
qed

lemma crc32c_bitwise:
  assumes "case hw of None \<Rightarrow> True | Some ins \<Rightarrow> crc_ins_ok DYN_CRC32C_POLY ins" "length d < 2 ^ 61"
  shows "dyn_crc32c hw d = dyn_crc32_bitwise d DYN_CRC32C_POLY"
  using dyn_crc32_dispatch [OF assms] by blast

lemma crc32c_one_byte:
  assumes "case hw of None \<Rightarrow> True | Some ins \<Rightarrow> crc_ins_ok DYN_CRC32C_POLY ins" "length d < 2 ^ 61"
    and "i < length d" "dyn_crc32c hw (d[i := b]) = dyn_crc32c hw d"
  shows "b = d ! i"
proof (rule crc_one_byte [OF _ assms(3)])
  show "bit (DYN_CRC32C_POLY :: u32) 31" by simp
  show "dyn_crc32_bitwise (d[i := b]) DYN_CRC32C_POLY = dyn_crc32_bitwise d DYN_CRC32C_POLY"
    using assms(4) crc32c_bitwise [OF assms(1)] assms(2) by simp
qed

lemma open_cases:
  assumes "dyn_de_open hw buf m = (code, tf, r)"
  shows "if code = DYN_DE_OK then 24 \<le> length buf \<and>
      ucast (de_le (drop (length buf - 4) buf) 4) = dyn_crc32c hw (take (length buf - 4) buf)
    else tf = None \<and> r = de_closed"
  using assms unfolding dyn_de_open_def Let_def DYN_SER_HEADER_def DYN_SER_TRAILER_def
  by (simp only: if_split_eq1 split: if_splits) auto

lemma trailer_inj:
  assumes "length p = 4" "length q = 4" "ucast (de_le p 4) = (ucast (de_le q 4) :: u32)"
  shows "p = q"
proof (rule de_le_inj [OF _ assms(1,2)])
  show "de_le p 4 = de_le q 4"
  proof (rule bit_word_eqI)
    fix n assume n: "n < LENGTH(64)"
    show "bit (de_le p 4) n = bit (de_le q 4) n"
    proof (cases "n < 32")
      case True
      then show ?thesis using arg_cong [OF assms(3), of "\<lambda>w. bit w n"] by (simp add: bit_unsigned_iff)
    qed (simp add: bit_de_le)
  qed
qed simp

subsection \<open>Properties\<close>

text \<open>Writing a whole record, in the order in which callers use the writer.\<close>

definition write_record :: "crc_ins option \<Rightarrow> allocs \<Rightarrow> 16 word \<Rightarrow> u32 \<Rightarrow> ser_item list \<Rightarrow> bytes option" where
  "write_record hw al t f xs =
     (let (ok, w, al) = dyn_ser_begin al dyn_ser_init t f in if \<not> ok then None else
      let (ok, w, al) = put_items al w xs in if \<not> ok then None else
      let (ok, w, al) = dyn_ser_finish hw al w in if \<not> ok then None else
      Some (fst (dyn_ser_take w)))"

lemma write_record_frame:
  defines "p \<equiv> \<lambda>xs. concat (map enc_item xs)"
  shows "write_record hw al t f xs = Some bs \<Longrightarrow> bs = frame hw t f (p xs) \<and> (\<forall>x \<in> set xs. item_ok x)"
    and "(\<forall>b \<in> set al. b) \<Longrightarrow> \<forall>x \<in> set xs. item_ok x \<Longrightarrow> length (p xs) + 24 \<le> 2 ^ 40 \<Longrightarrow> write_record hw al t f xs \<noteq> None"
proof -
  let ?h = "frame_head t f @ ser_le_bytes 0 8"
  obtain o1 w1 a1 where 1: "dyn_ser_begin al dyn_ser_init t f = (o1, w1, a1)" by (rule prod_cases3)
  obtain o2 w2 a2 where 2: "put_items a1 w1 xs = (o2, w2, a2)" by (rule prod_cases3)
  obtain o3 w3 a3 where 3: "dyn_ser_finish hw a2 w2 = (o3, w3, a3)" by (rule prod_cases3)
  have r: "write_record hw al t f xs = (if \<not> o1 \<or> \<not> o2 \<or> \<not> o3 then None else Some (sw_buf w3))"
    by (simp add: write_record_def 1 2 3 dyn_ser_take_def)
  have s1: "wrote al dyn_ser_init ?h (o1, w1, a1)" using begin_wrote [of al dyn_ser_init t f] 1 by simp
  have w1: "sw_buf w1 = ?h" "\<not> sw_err w1" if o1 using s1 that by (simp_all add: wrote_def dyn_ser_init_def)
  have s2: "wrote a1 w1 (p xs) (o2, w2, a2)" if o1 "\<forall>x \<in> set xs. item_ok x"
    using items_wrote [OF that(2) w1(2) [OF that(1)], of a1] 2 by (simp add: p_def)
  have w2: "sw_buf w2 = frame_head t f @ ser_le_bytes 0 8 @ p xs" "\<not> sw_err w2" if o1 o2 "\<forall>x \<in> set xs. item_ok x"
    using s2 [OF that(1,3)] w1 [OF that(1)] that(2) by (simp_all add: wrote_def)
  show "bs = frame hw t f (p xs) \<and> (\<forall>x \<in> set xs. item_ok x)" if "write_record hw al t f xs = Some bs"
  proof -
    have ok: o1 o2 o3 "bs = sw_buf w3" using that r by (auto split: if_splits)
    have items: "\<forall>x \<in> set xs. item_ok x" using items_accepted [of a1 w1 xs] 2 ok(2) by simp
    then show ?thesis using finish_wrote(1) [OF w2(2,1) [OF ok(1,2)] 3] ok by simp
  qed
  show "write_record hw al t f xs \<noteq> None"
    if all: "\<forall>b \<in> set al. b" and items: "\<forall>x \<in> set xs. item_ok x" and len: "length (p xs) + 24 \<le> 2 ^ 40"
  proof -
    have "o1 \<and> (\<forall>b \<in> set a1. b)" using s1 all unfolding wrote_def prod.case by (auto simp: dyn_ser_init_def)
    then have 1: o1 "\<forall>b \<in> set a1. b" by blast+
    have "length (sw_buf w1) + length (p xs) \<le> 2 ^ 40" using w1(1) [OF 1(1)] len by simp
    then have 2: o2 "\<forall>b \<in> set a2. b" using s2 [OF 1(1) items] w1(2) [OF 1(1)] 1(2) unfolding wrote_def prod.case by blast+
    show ?thesis using finish_wrote(2) [OF w2(2,1) [OF 1(1) 2(1) items] 3 2(2) len] r 1 2 by simp
  qed
qed

text \<open>C11. A record that was written is read back if its payload fits the limit of the reader, which is
  \<open>2 ^ 28\<close> bytes when the caller passes 0: the reader accepts it, returns the type and the flags, gives the items
  in order and is then at the end of the payload without error. The writer has no such limit, and a longer
  record that it produced is refused as too large. Writing succeeds when memory is available, no blob has
  \<open>2 ^ 32\<close> bytes or more and the record stays within \<open>2 ^ 40\<close> bytes. The payload is shorter than
  \<open>2 ^ 64\<close> bytes, as every object in memory is.\<close>

theorem dyn_ser_record_roundtrip:
  assumes "length (concat (map enc_item xs)) < 2 ^ 64"
  shows "(write_record hw al t f xs = Some bs \<longrightarrow>
      (if length (concat (map enc_item xs)) \<le> (if m = 0 then DYN_SER_DEFAULT_MAX else m)
       then \<exists>r r'. dyn_de_open hw bs m = (DYN_DE_OK, Some (t, f), r) \<and> get_items r xs = (Some xs, r') \<and>
         dyn_de_ok r' \<and> dyn_de_left r' = 0
       else dyn_de_open hw bs m = (DYN_DE_TOO_LARGE, None, de_closed))) \<and>
    ((\<forall>b \<in> set al. b) \<and> (\<forall>x \<in> set xs. item_ok x) \<and> length (concat (map enc_item xs)) + 24 \<le> 2 ^ 40 \<longrightarrow>
      write_record hw al t f xs \<noteq> None)"
proof (intro conjI impI)
  let ?p = "concat (map enc_item xs)" and ?fits = "length (concat (map enc_item xs)) \<le> (if m = 0 then DYN_SER_DEFAULT_MAX else m)"
  assume "write_record hw al t f xs = Some bs"
  from write_record_frame(1) [OF this] have bs: "bs = frame hw t f ?p" "\<forall>x \<in> set xs. item_ok x" by blast+
  note op = open_frame [OF assms, of hw t f m, folded bs(1)]
  define r where "r = \<lparr>dr_p = ?p, dr_pos = 0, dr_err = False, dr_budget = DYN_DE_BUDGET_BASE + DYN_DE_BUDGET_MULT * of_nat (length ?p)\<rparr>"
  have "before r (?p @ [])" by (simp add: before_def r_def)
  from items_at [OF this bs(2)] have items: "get_items r xs = (Some xs, skip (length ?p) r)" .
  have at_end: "dyn_de_ok (skip (length ?p) r)" "dyn_de_left (skip (length ?p) r) = 0"
    by (simp_all add: dyn_de_ok_def dyn_de_left_def skip_def r_def)
  show "if ?fits then \<exists>r r'. dyn_de_open hw bs m = (DYN_DE_OK, Some (t, f), r) \<and> get_items r xs = (Some xs, r') \<and>
      dyn_de_ok r' \<and> dyn_de_left r' = 0 else dyn_de_open hw bs m = (DYN_DE_TOO_LARGE, None, de_closed)"
  proof (cases ?fits)
    case True
    have "dyn_de_open hw bs m = (DYN_DE_OK, Some (t, f), r)" using op unfolding r_def if_P [OF True] .
    then show ?thesis unfolding if_P [OF True] using items at_end by blast
  next
    case False
    show ?thesis using op unfolding if_not_P [OF False] .
  qed
qed (use write_record_frame(2) in blast)

theorem dyn_ser_record_roundtrip_witness:
  "\<exists>bs r r'. write_record None [] 7 9 [IU8 1, IBlob [2, 3], ISvarint 5] = Some bs \<and>
     dyn_de_open None bs 0 = (DYN_DE_OK, Some (7, 9), r) \<and>
     get_items r [IU8 1, IBlob [2, 3], ISvarint 5] = (Some [IU8 1, IBlob [2, 3], ISvarint 5], r') \<and>
     dyn_de_open None bs 7 = (DYN_DE_TOO_LARGE, None, de_closed)"
proof -
  let ?xs = "[IU8 1, IBlob [2, 3], ISvarint 5]"
  have "zz 5 = 10" unfolding zz_def by code_simp
  moreover have "\<not> (0x80 \<le> (10 :: u64))" by simp
  ultimately have p: "length (concat (map enc_item ?xs)) = 8" by (simp add: dyn_codec_put_uvarint.simps)
  then have len: "length (concat (map enc_item ?xs)) < 2 ^ 64" by (simp only:) simp
  note rt = dyn_ser_record_roundtrip [OF len, of None "[]" 7 9, unfolded p]
  have "\<forall>b \<in> set ([] :: bool list). b" "\<forall>x \<in> set ?xs. item_ok x" by simp_all
  then obtain bs where bs: "write_record None [] 7 9 ?xs = Some bs" using rt by auto
  have "\<exists>r r'. dyn_de_open None bs 0 = (DYN_DE_OK, Some (7, 9), r) \<and> get_items r ?xs = (Some ?xs, r') \<and>
      dyn_de_ok r' \<and> dyn_de_left r' = 0"
    using rt [of bs 0] bs by (simp add: DYN_SER_DEFAULT_MAX_def)
  moreover have "dyn_de_open None bs 7 = (DYN_DE_TOO_LARGE, None, de_closed)" using rt [of bs 7] bs by simp
  ultimately show ?thesis using bs by blast
qed

text \<open>C10. Damage is detected: when one byte of a record that the reader accepts is changed to any other value, in
  the header, the payload or the checksum, the reader rejects it and leaves a reader in the error state.\<close>

theorem dyn_de_open_detects:
  assumes "case hw of None \<Rightarrow> True | Some ins \<Rightarrow> crc_ins_ok DYN_CRC32C_POLY ins" "length buf < 2 ^ 61"
    and "dyn_de_open hw buf m = (DYN_DE_OK, tf, r)" "i < length buf" "b \<noteq> buf ! i"
  shows "\<exists>code. dyn_de_open hw (buf[i := b]) m = (code, None, de_closed) \<and> code \<noteq> DYN_DE_OK"
proof -
  obtain code tf' r' where c: "dyn_de_open hw (buf[i := b]) m = (code, tf', r')" by (rule prod_cases3)
  let ?n = "length buf - 4"
  have old: "24 \<le> length buf" "ucast (de_le (drop ?n buf) 4) = dyn_crc32c hw (take ?n buf)"
    using open_cases [OF assms(3)] by simp_all
  have "code \<noteq> DYN_DE_OK"
  proof
    assume "code = DYN_DE_OK"
    then have new: "ucast (de_le (drop ?n (buf[i := b])) 4) = dyn_crc32c hw (take ?n (buf[i := b]))"
      using open_cases [OF c] by simp
    show False
    proof (cases "i < ?n")
      case True
      then have "dyn_crc32c hw ((take ?n buf)[i := b]) = dyn_crc32c hw (take ?n buf)"
        using new old(2) by (simp add: take_update_swap)
      then have "b = take ?n buf ! i" using crc32c_one_byte [OF assms(1)] assms(2) True by simp
      then show False using assms(5) True by simp
    next
      case False
      then have "ucast (de_le (drop ?n (buf[i := b])) 4) = (ucast (de_le (drop ?n buf) 4) :: u32)"
        using new old(2) by simp
      then have eq: "drop ?n (buf[i := b]) = drop ?n buf" using old(1) by (intro trailer_inj) simp_all
      have "?n + (i - ?n) = i" using False by simp
      then show False using arg_cong [OF eq, of "\<lambda>q. q ! (i - ?n)"] assms(4,5) by (simp add: nth_drop)
    qed
  qed
  then show ?thesis using c open_cases [OF c] by simp
qed

theorem dyn_de_open_detects_witness:
  "\<exists>code. dyn_de_open None ((frame None 7 9 [1, 2])[21 := 5]) 0 = (code, None, de_closed) \<and> code \<noteq> DYN_DE_OK"
proof (rule dyn_de_open_detects)
  show "dyn_de_open None (frame None 7 9 [1, 2]) 0 = (DYN_DE_OK, Some (7, 9), \<lparr>dr_p = [1, 2], dr_pos = 0, dr_err = False,
      dr_budget = DYN_DE_BUDGET_BASE + DYN_DE_BUDGET_MULT * of_nat (length [1 :: byte, 2])\<rparr>)"
    using open_frame [of "[1, 2]" None 7 9 0] by (simp add: DYN_SER_DEFAULT_MAX_def)
  show "length (frame None 7 9 [1, 2]) < 2 ^ 61" "21 < length (frame None 7 9 [1, 2])" "5 \<noteq> frame None 7 9 [1, 2] ! 21"
    by (simp_all add: frame_def frame_body_def nth_append)
qed simp

end
