(* ===== verification/Spec2Isabelle.thy ===== *)
theory Spec2Isabelle
  imports DsMultiset DsMultimap DsBimap KernelUtf Codec Pct CrcCorrect Sha2Correct HashMac Xxh32 TimerOrder SerialProps
begin

text \<open>
  \<^bold>\<open>A verification library for the core of DynaJS.\<close>

  DynaJS is a JavaScript engine with a library of native modules. The engine and the modules rest on a
  core of plain C (\<open>src/core\<close>) and on portable kernels for bytes (\<open>src/dyna-simd-scalar.c\<close>) that know nothing
  of JavaScript values: containers, codecs, hashes, timers. This library models that core as HOL functions
  and proves what its callers rely on. The modules call the containers with keys and opaque cells, the
  codecs with byte buffers sized by the capacity functions, the hash contexts with pieces of a stream,
  and the event loop calls the timers.

  \<^bold>\<open>Conventions.\<close> A function that may not return has an outer \<open>option\<close> in which \<open>None\<close> stands for not returning;
  an inner \<open>option\<close> or a separate value is an error of the C function. Loops are structural or well-founded
  recursion where they visibly end, and \<open>partial_function (option)\<close> otherwise, so that no fuel is needed; the
  properties of such functions state that they return. Outcomes of the allocator are a list of booleans,
  one per call, over which the properties quantify. Integers are words where wrap-around matters, and
  natural numbers with the reduction written out where a \<open>uint32_t\<close> product or sum can wrap. An array with a
  count of valid elements is the list of these elements. Code outside the sources (processor
  instructions for CRC and SHA, callbacks of timers) is a parameter with its contract as a hypothesis.

  \<^bold>\<open>Containers\<close> (\<open>dyn-ds.c\<close>, string keys).
  \<^item> \<open>DynPrelude\<close>, \<open>DsVec\<close>: shared vocabulary and the growth policy \<open>ds_reserve\<close>; it returns a covering capacity for
    requests up to \<open>2 ^ 31\<close> and never returns when a full array of that size grows.
  \<^item> \<open>DsHash\<close>, \<open>DsIndex\<close>: XXH64, \<open>ix_hash\<close> and the open-addressing index \<open>dyn_ix\<close>. Probing ends, insertion survives
    a rebuild, and backward-shift deletion keeps every other key reachable; the index is a finite map.
  \<^item> \<open>DsStore\<close>: record arrays with deletion by moving the last record, tied to an index; a locale states what
    the containers need of the index and is interpreted on it.
  \<^item> \<open>DsMultiset\<close>, \<open>DsMultimap\<close>, \<open>DsBimap\<close>: the containers refine a multiset, a map to lists and a one-to-one map.

  \<^bold>\<open>Text\<close> (\<open>dyna-simd-scalar.c\<close>, \<open>dyn-codec.c\<close>, \<open>dyn-pct.h\<close>).
  \<^item> \<open>DynBytes\<close>: bit operations on bytes read as arithmetic.
  \<^item> \<open>KernelUtf\<close>: UTF-8, UTF-16 and Latin-1. The validator returns the longest well-formed prefix, and transcoding
    is a bijection on valid text.
  \<^item> \<open>KernelText\<close>, \<open>Codec\<close>, \<open>Pct\<close>: hexadecimal, base64, base64url, base32, base85, variable-length integers and
    percent encoding; round trips, capacities and bounds of what is read and written.

  \<^bold>\<open>Hashes\<close> (\<open>dyn-hash.c\<close>).
  \<^item> \<open>HashWords\<close>: rotations, loads and stores.
  \<^item> \<open>CrcTables\<close>, \<open>Crc\<close>, \<open>CrcCorrect\<close>: both CRC polynomials with all table entries. The slice-by-8 path and the
    three-lane path, which joins partial registers by multiplication with tabled powers, compute the
    bit-by-bit CRC. The proof reads a register as an element of a polynomial ring on which one step is
    linear.
  \<^item> \<open>Sha2\<close>, \<open>Sha2Correct\<close>: the SHA-2 family. The block function of SHA-256 has a portable, an ARMv8 and an x86
    variant; all of them, and SHA-512, compute the rounds of the standard, for instructions that do what the
    architecture manuals say. The arrays of round constants are generated by integer cube roots, which
    are shown to be the fractional parts that the standard prescribes; evaluating them gives the
    numbers that the source lists.
  \<^item> \<open>HashAlgos\<close>: MD5, SHA-1 and the table of algorithms.
  \<^item> \<open>HashStream\<close>: \<open>dyn_hash_ctx_t\<close>. The locale \<open>block_stream\<close> says that a context depends only on the bytes it has
    absorbed; it is interpreted on the hash context here and on the XXH32 context in \<open>Xxh32\<close>. Digests are
    the iterated compression of the padded message, and every operation keeps the shape of the context.
  \<^item> \<open>HashMac\<close>: HMAC, HKDF, PBKDF2 and \<open>dyn_ct_equal\<close> against their standards, with the one request on which PBKDF2
    departs from its RFC.

  \<^bold>\<open>Timers\<close> (\<open>dyn-timer.c\<close>).
  \<^item> \<open>Timer\<close>: the heap of pending timers and the table of slots with generations and a free list.
  \<^item> \<open>TimerCorrect\<close>: the order of the heap under sifting, and the links between heap and slots. Both sifting loops
    are instances of the relation \<open>sifts\<close>, for which the links are proved once by rule induction.
  \<^item> \<open>TimerProps\<close>: adding and cancelling refine the multiset of pending timers; running ends and leaves nothing
    due.
  \<^item> \<open>TimerOrder\<close>: the queue refines the list of pending timers in the order of their addition, also while callbacks
    add and cancel timers; each round of running calls the first timer of the list with the least deadline.

  \<^bold>\<open>Records\<close> (\<open>dyn-serial.c\<close>).
  \<^item> \<open>Serial\<close>, \<open>SerialItems\<close>, \<open>SerialProps\<close>: the framed record format over CRC-32C. Written records that fit the limit of the
    reader are read back, longer ones are refused, and a record with one changed byte is rejected, because a step of the CRC register is injective.

  \<^bold>\<open>Bounds.\<close> Message lengths are below \<open>2 ^ 64\<close> bytes for hashes, which is what the length counter holds, and
  below \<open>2 ^ 63\<close> for the key derivations, which leaves room for the padded key; no C object is larger. The
  timer queue holds at most \<open>2 ^ 20 - 1\<close> timers, so positions never reach the reserved value \<open>NO_POS\<close>; the order
  of timers assumes that the 64-bit counter of additions does not run out.

  \<^bold>\<open>Not modelled.\<close> The literals of the arrays \<open>sha256_K\<close> and \<open>sha512_K\<close> are not listed, as said above. \<open>sha_ni_ok\<close>, which
  caches what the processor answers, is represented by its answer. The variant of \<open>ix_mix\<close> for compilers
  without 128-bit integers computes another value and is left out; the containers work with any hash.
  Neither the vector variants of the kernels (intrinsics that the sources do not define) are modelled nor
  floating-point code, for which the library has no model of rounding. The remaining
  containers of \<open>dyn-ds.c\<close> (range sets, interval tree, min-max heap, B-tree, table, sketches), the
  compression formats and the other small core libraries are independent of the modelled parts and not
  translated. The engine itself (parser, interpreter, objects and garbage collection, built-ins,
  bytecode files, regular expressions) works on a reference-counted C heap that this library does not
  model, and the modules for files, network, TLS and processes are input and output. Releasing memory and
  wiping of temporary buffers have no observable result and are left out.
\<close>

end
